(* ===== verification/Ferrum_Base.thy ===== *)
theory Ferrum_Base
  imports Main "HOL-Library.Word" "HOL-Library.Monad_Syntax"
begin

text \<open>
  The prelude of the development: the names of the machine integers, the arithmetic of the
  debug build (an overflow panics), physical memory as bytes with little-endian 64-bit
  accesses, the direct map of \<^verbatim>\<open>kernel/src/paging.rs\<close>, and the generic
  lemmas on words, bytes and lists that the component theories share.

  Convention of the whole development: a kernel function is a HOL function into \<open>'a option\<close>.
  \<open>None\<close> means that the call does not come back (\<^verbatim>\<open>panic!\<close>, an arithmetic
  overflow of the debug build, an index out of bounds, or a loop that never ends); \<open>Some\<close>
  carries the returned value and the new state. Rust's own \<^verbatim>\<open>Option\<close> and
  \<^verbatim>\<open>Result\<close> values are an \<open>option\<close> or a sum inside that.
\<close>

unbundle bit_operations_syntax

section \<open>Machine integers\<close>

type_synonym u8 = "8 word"
type_synonym u16 = "16 word"
type_synonym u32 = "32 word"
type_synonym u64 = "64 word"

named_theorems arith_ok \<open>when an operation of the debug build does not overflow\<close>
named_theorems mem_simps \<open>reads after writes of physical memory\<close>

text \<open>
  \<^verbatim>\<open>a + b\<close>, \<^verbatim>\<open>a - b\<close> and \<^verbatim>\<open>a * b\<close> of the debug
  build (\<^verbatim>\<open>make run\<close> boots \<^verbatim>\<open>target/.../debug/kernel.efi\<close>), and the
  library's \<^verbatim>\<open>checked_add\<close> and its kin: \<open>None\<close> on overflow.
\<close>

definition checked_add :: "'a::len word \<Rightarrow> 'a word \<Rightarrow> 'a word option" where
  "checked_add a b = (if uint a + uint b < 2 ^ LENGTH('a) then Some (a + b) else None)"

definition checked_sub :: "'a::len word \<Rightarrow> 'a word \<Rightarrow> 'a word option" where
  "checked_sub a b = (if b \<le> a then Some (a - b) else None)"

definition checked_mul :: "'a::len word \<Rightarrow> 'a word \<Rightarrow> 'a word option" where
  "checked_mul a b = (if uint a * uint b < 2 ^ LENGTH('a) then Some (a * b) else None)"

definition saturating_sub :: "'a::len word \<Rightarrow> 'a word \<Rightarrow> 'a word" where
  "saturating_sub a b = (if b \<le> a then a - b else 0)"

lemma unat_add_exact:
  "unat a + unat b < 2 ^ LENGTH('a) \<Longrightarrow> unat (a + b :: 'a::len word) = unat a + unat b"
  by (simp add: unat_word_ariths)

text \<open>The definitions compare integers, which evaluate fast; the proofs use natural numbers.\<close>

lemma checked_add_unat_def:
  "checked_add a (b :: 'a::len word) =
     (if unat a + unat b < 2 ^ LENGTH('a) then Some (a + b) else None)"
proof -
  have "uint a + uint b < 2 ^ LENGTH('a) \<longleftrightarrow> int (unat a + unat b) < int (2 ^ LENGTH('a))"
    by simp
  then show ?thesis by (simp only: checked_add_def of_nat_less_iff)
qed

lemma checked_mul_unat_def:
  "checked_mul a (b :: 'a::len word) =
     (if unat a * unat b < 2 ^ LENGTH('a) then Some (a * b) else None)"
proof -
  have "uint a * uint b < 2 ^ LENGTH('a) \<longleftrightarrow> int (unat a * unat b) < int (2 ^ LENGTH('a))"
    by simp
  then show ?thesis by (simp only: checked_mul_def of_nat_less_iff)
qed

lemma checked_add_eq_Some:
  "checked_add a (b :: 'a::len word) = Some c \<longleftrightarrow>
     unat a + unat b < 2 ^ LENGTH('a) \<and> c = a + b"
  by (auto simp: checked_add_unat_def)

lemma checked_add_unat:
  "checked_add a (b :: 'a::len word) = Some c \<Longrightarrow> unat c = unat a + unat b"
  by (simp add: checked_add_eq_Some unat_add_exact)

lemma checked_add_ok [arith_ok]:
  "unat a + unat (b :: 'a::len word) < 2 ^ LENGTH('a) \<Longrightarrow> checked_add a b = Some (a + b)"
  by (simp add: checked_add_unat_def)

lemma checked_sub_eq_Some:
  "checked_sub a (b :: 'a::len word) = Some c \<longleftrightarrow> b \<le> a \<and> c = a - b"
  by (auto simp: checked_sub_def)

lemma checked_sub_ok [arith_ok]: "b \<le> a \<Longrightarrow> checked_sub a b = Some (a - b)"
  by (simp add: checked_sub_def)

lemma unat_sub_exact: "b \<le> a \<Longrightarrow> unat (a - b :: 'a::len word) = unat a - unat b"
  by (simp add: unat_sub)

lemma unat_pow2:
  assumes "n < LENGTH('a)"
  shows "unat (2 ^ n :: 'a::len word) = 2 ^ n"
proof -
  have "unat (2 ^ n :: 'a word) = unat (of_nat (2 ^ n) :: 'a word)" by simp
  also have "\<dots> = 2 ^ n" using assms by (simp add: unat_of_nat del: of_nat_power)
  finally show ?thesis .
qed

lemma find_SomeD: "find P xs = Some x \<Longrightarrow> x \<in> set xs \<and> P x"
  by (auto simp: find_Some_iff)

section \<open>Bytes\<close>

text \<open>Little-endian words: \<^verbatim>\<open>to_le_bytes\<close> and reading an integer back from bytes.\<close>

primrec le_word :: "u8 list \<Rightarrow> 'a::len word" where
  "le_word [] = 0"
| "le_word (b # bs) = ucast b OR push_bit 8 (le_word bs)"

primrec to_le_bytes :: "nat \<Rightarrow> 'a::len word \<Rightarrow> u8 list" where
  "to_le_bytes 0 w = []"
| "to_le_bytes (Suc n) w = ucast w # to_le_bytes n (drop_bit 8 w)"

lemma length_to_le_bytes [simp]: "length (to_le_bytes n w) = n"
  by (induction n arbitrary: w) auto

lemma le_word_to_le_bytes: "le_word (to_le_bytes n w) = take_bit (8 * n) (w :: 'a::len word)"
proof (induction n arbitrary: w)
  case 0
  then show ?case by simp
next
  case (Suc n)
  show ?case
    by (rule bit_word_eqI)
       (auto simp: Suc.IH bit_or_iff bit_push_bit_iff bit_take_bit_iff bit_drop_bit_eq bit_ucast_iff
             dest: bit_imp_le_length)
qed

lemma le_word_roundtrip64 [simp]: "le_word (to_le_bytes 8 w) = (w :: u64)"
  by (simp add: le_word_to_le_bytes take_bit_word_eq_self)

section \<open>Physical memory\<close>

text \<open>
  Physical memory is a function from addresses to bytes. \<^verbatim>\<open>core::ptr::read\<close> and
  \<^verbatim>\<open>core::ptr::write\<close> of a \<^verbatim>\<open>u64\<close>, \<^verbatim>\<open>write_bytes\<close> and
  \<^verbatim>\<open>copy_nonoverlapping\<close> are the accesses the kernel makes.
\<close>

type_synonym pmem = "u64 \<Rightarrow> u8"

definition load_bytes :: "pmem \<Rightarrow> u64 \<Rightarrow> nat \<Rightarrow> u8 list" where
  "load_bytes m a n = map (\<lambda>i. m (a + of_nat i)) [0..<n]"

definition store_bytes :: "pmem \<Rightarrow> u64 \<Rightarrow> u8 list \<Rightarrow> pmem" where
  "store_bytes m a bs =
     (\<lambda>x. if uint (x - a) < int (length bs) then bs ! unat (x - a) else m x)"

definition write_bytes :: "pmem \<Rightarrow> u64 \<Rightarrow> u8 \<Rightarrow> nat \<Rightarrow> pmem" where
  "write_bytes m a b n = (\<lambda>x. if uint (x - a) < int n then b else m x)"

definition read64 :: "pmem \<Rightarrow> u64 \<Rightarrow> u64" where
  "read64 m a = le_word (load_bytes m a 8)"

definition write64 :: "pmem \<Rightarrow> u64 \<Rightarrow> u64 \<Rightarrow> pmem" where
  "write64 m a v = store_bytes m a (to_le_bytes 8 v)"

lemma uint_less_int [simp]: "uint w < int n \<longleftrightarrow> unat (w :: 'a::len word) < n"
proof -
  have "uint w < int n \<longleftrightarrow> int (unat w) < int n" by simp
  then show ?thesis by (simp only: of_nat_less_iff)
qed

lemma length_load_bytes [simp]: "length (load_bytes m a n) = n"
  by (simp add: load_bytes_def)

lemma load_bytes_cong:
  "(\<And>i. i < n \<Longrightarrow> m (a + of_nat i) = m' (a + of_nat i)) \<Longrightarrow> load_bytes m a n = load_bytes m' a n"
  by (simp add: load_bytes_def)

lemma load_store_bytes:
  assumes "length bs < 2 ^ 64"
  shows "load_bytes (store_bytes m a bs) a (length bs) = bs"
proof (rule nth_equalityI)
  fix i
  assume "i < length (load_bytes (store_bytes m a bs) a (length bs))"
  then have i: "i < length bs" by simp
  with assms have "unat (of_nat i :: u64) = i"
    by (simp add: unat_of_nat)
  with i show "load_bytes (store_bytes m a bs) a (length bs) ! i = bs ! i"
    by (simp add: load_bytes_def store_bytes_def)
qed simp

lemma read64_write64_same [simp, mem_simps]: "read64 (write64 m a v) a = v"
  using load_store_bytes [of "to_le_bytes 8 v" m a] by (simp add: read64_def write64_def)

subsection \<open>Frames\<close>

text \<open>
  A frame is a 4 KiB page of physical memory, named by its number. Accesses are framed by
  the set of frames they touch: \<open>mem_eq_off F m m'\<close> says that \<open>m\<close> and \<open>m'\<close> agree off
  the frames of \<open>F\<close>.
\<close>

definition frame :: "u64 \<Rightarrow> nat" where
  "frame a = unat a div 4096"

definition mem_eq_off :: "nat set \<Rightarrow> pmem \<Rightarrow> pmem \<Rightarrow> bool" where
  "mem_eq_off F m m' \<longleftrightarrow> (\<forall>a. frame a \<notin> F \<longrightarrow> m' a = m a)"

lemma mem_eq_off_refl [simp, intro]: "mem_eq_off F m m"
  by (simp add: mem_eq_off_def)

lemma mem_eq_off_trans:
  "mem_eq_off F m m' \<Longrightarrow> mem_eq_off G m' m'' \<Longrightarrow> F \<union> G \<subseteq> H \<Longrightarrow> mem_eq_off H m m''"
  unfolding mem_eq_off_def by (metis UnCI subsetD)

lemma mem_eq_off_mono: "mem_eq_off F m m' \<Longrightarrow> F \<subseteq> G \<Longrightarrow> mem_eq_off G m m'"
  by (auto simp: mem_eq_off_def)

lemma div_add_below:
  assumes "(x::nat) mod n + i < n"
  shows "(x + i) div n = x div n"
proof (rule div_nat_eqI)
  have e: "n * (x div n) + x mod n = x" by simp
  then show "n * (x div n) \<le> x + i" by linarith
  show "x + i < n * Suc (x div n)"
    unfolding mult_Suc_right using e assms by linarith
qed

lemma frame_add:
  assumes "unat a mod 4096 + i < 4096"
  shows "frame (a + of_nat i) = frame a"
proof -
  have "unat a < 2 ^ 64" using unsigned_less [of a] by simp
  then have "unat a div 4096 < 4503599627370496" by simp
  with assms have bound: "unat a + i < 18446744073709551616"
    using div_mult_mod_eq [of "unat a" 4096] by linarith
  from assms have "unat (of_nat i :: u64) = i" by (simp add: unat_of_nat)
  with bound have "unat (a + of_nat i) = unat a + i"
    by (simp add: unat_add_exact)
  moreover have "(unat a + i) div 4096 = unat a div 4096"
    using assms by (rule div_add_below)
  ultimately show ?thesis by (simp add: frame_def)
qed

lemma frame_in_bytes:
  assumes "unat a mod 4096 + n \<le> 4096" and "unat (x - a) < n"
  shows "frame x = frame a"
proof -
  have "x = a + of_nat (unat (x - a))" by simp
  moreover have "frame (a + of_nat (unat (x - a))) = frame a"
    by (rule frame_add) (use assms in linarith)
  ultimately show ?thesis by simp
qed

lemma mem_eq_off_store_bytes:
  "unat a mod 4096 + length bs \<le> 4096 \<Longrightarrow> mem_eq_off {frame a} m (store_bytes m a bs)"
  by (auto simp: mem_eq_off_def store_bytes_def dest: frame_in_bytes)

lemma mem_eq_off_write_bytes:
  "unat a mod 4096 + n \<le> 4096 \<Longrightarrow> mem_eq_off {frame a} m (write_bytes m a b n)"
  by (auto simp: mem_eq_off_def write_bytes_def dest: frame_in_bytes)

lemma mem_eq_off_write64:
  "unat a mod 4096 \<le> 4088 \<Longrightarrow> mem_eq_off {frame a} m (write64 m a v)"
  by (simp add: write64_def mem_eq_off_store_bytes)

lemma mem_eq_off_read64:
  assumes "mem_eq_off F m m'" and "frame a \<notin> F" and "unat a mod 4096 \<le> 4088"
  shows "read64 m' a = read64 m a"
proof -
  have "load_bytes m' a 8 = load_bytes m a 8"
  proof (rule load_bytes_cong)
    fix i :: nat
    assume "i < 8"
    with assms(3) have "frame (a + of_nat i) = frame a" by (intro frame_add) linarith
    with assms(1,2) show "m' (a + of_nat i) = m (a + of_nat i)" by (simp add: mem_eq_off_def)
  qed
  then show ?thesis by (simp add: read64_def)
qed

section \<open>The direct map\<close>

text \<open>
  The kernel reaches physical memory through the higher-half window at
  \<^verbatim>\<open>KERNEL_VIRT_BASE\<close>; during boot the same memory is also mapped at its own address
  (\<^verbatim>\<open>map_identity\<close>). \<open>deref_phys\<close> is what the hardware makes of such a pointer.
\<close>

definition KERNEL_VIRT_BASE :: u64 where
  "KERNEL_VIRT_BASE = 0xffff800000000000"

definition phys_to_virt :: "u64 \<Rightarrow> u64 option" where
  "phys_to_virt phys = checked_add KERNEL_VIRT_BASE phys"

definition ensure_virt :: "u64 \<Rightarrow> u64 option" where
  "ensure_virt addr = (if KERNEL_VIRT_BASE \<le> addr then Some addr else phys_to_virt addr)"

definition virt_to_phys :: "u64 \<Rightarrow> u64 option" where
  "virt_to_phys virt = checked_sub virt KERNEL_VIRT_BASE"

definition deref_phys :: "u64 \<Rightarrow> u64" where
  "deref_phys v = (if KERNEL_VIRT_BASE \<le> v then v - KERNEL_VIRT_BASE else v)"

text \<open>The end of the window: physical addresses below \<open>2 ^ 47\<close> have a virtual address.\<close>

lemma phys_to_virt_ok [arith_ok]:
  "unat p < 2 ^ 47 \<Longrightarrow> phys_to_virt p = Some (KERNEL_VIRT_BASE + p)"
  by (simp add: phys_to_virt_def checked_add_unat_def KERNEL_VIRT_BASE_def)

lemma phys_to_virt_None: "2 ^ 47 \<le> unat p \<Longrightarrow> phys_to_virt p = None"
  by (simp add: phys_to_virt_def checked_add_unat_def KERNEL_VIRT_BASE_def)

lemma deref_phys_virt [simp]:
  assumes "unat p < 2 ^ 47"
  shows "deref_phys (KERNEL_VIRT_BASE + p) = p"
proof -
  have "unat KERNEL_VIRT_BASE + unat p < 2 ^ LENGTH(64)"
    using assms by (simp add: KERNEL_VIRT_BASE_def)
  then have "KERNEL_VIRT_BASE \<le> KERNEL_VIRT_BASE + p"
    by (simp add: word_le_nat_alt unat_add_exact)
  then show ?thesis by (simp add: deref_phys_def)
qed

section \<open>Alignment\<close>

definition align_down :: "u64 \<Rightarrow> u64 \<Rightarrow> u64" where
  "align_down addr align = addr AND NOT (align - 1)"

definition align_up :: "u64 \<Rightarrow> u64 \<Rightarrow> u64 option" where
  "align_up addr align = do {
     s \<leftarrow> checked_add addr align;
     t \<leftarrow> checked_sub s 1;
     Some (t AND NOT (align - 1))
   }"

lemma unat_and_not_mask:
  fixes a :: "'a::len word"
  shows "unat (a AND NOT (mask n)) = unat a - unat a mod 2 ^ n"
proof -
  have "a - take_bit n a = a AND NOT (take_bit n a)"
    by (rule disjunctive_diff) (simp add: bit_take_bit_iff)
  also have "\<dots> = a AND NOT (mask n)"
    by (rule bit_word_eqI) (auto simp: bit_simps)
  finally have "a AND NOT (mask n) = a - take_bit n a" ..
  moreover have "take_bit n a \<le> a"
    by (simp add: word_le_nat_alt unsigned_take_bit_eq take_bit_nat_less_eq_self)
  ultimately show ?thesis
    by (simp add: unat_sub unsigned_take_bit_eq) (simp add: take_bit_eq_mod)
qed

text \<open>The two alignment helpers at the page size, in terms of natural numbers.\<close>

lemma mask_page: "(4095 :: u64) = mask 12" "(4096 :: u64) - 1 = mask 12"
  by (simp_all add: mask_eq_exp_minus_1)

lemma unat_align_down_page: "unat (align_down a 4096) = 4096 * frame a"
  by (simp add: align_down_def mask_page unat_and_not_mask frame_def minus_mod_eq_mult_div)

lemma align_down_page_frame [simp]: "frame (align_down a 4096) = frame a"
  by (simp add: frame_def unat_align_down_page)

lemma align_up_page_eq_Some:
  "align_up a 4096 = Some b \<longleftrightarrow>
     unat a + 4096 < 2 ^ 64 \<and> unat b = 4096 * ((unat a + 4095) div 4096)"
proof -
  have u: "unat (a + 4095) = unat a + 4095" if "unat a + 4096 < 2 ^ 64"
    using that by (simp add: unat_add_exact)
  have v: "unat ((a + 4095) AND NOT 4095) = 4096 * ((unat a + 4095) div 4096)"
    if "unat a + 4096 < 2 ^ 64"
    using u [OF that] by (simp add: mask_page unat_and_not_mask minus_mod_eq_mult_div)
  have "1 \<le> a + 4096" if "unat a + 4096 < 2 ^ 64"
    using that by (simp add: word_le_nat_alt unat_add_exact)
  moreover have "a + 4096 - 1 = a + 4095" by simp
  ultimately show ?thesis
    using v by (auto simp: add.commute [of 4095] align_up_def checked_add_unat_def checked_sub_def word_unat_eq_iff)
qed

lemma align_up_page_None: "align_up a 4096 = None \<longleftrightarrow> 2 ^ 64 \<le> unat a + 4096"
  using align_up_page_eq_Some [of a] 
  by (auto simp: align_up_def checked_add_unat_def checked_sub_def word_le_nat_alt unat_add_exact
           split: if_splits)

section \<open>Loops and lists\<close>

text \<open>A \<^verbatim>\<open>for\<close> loop over a list whose body may panic.\<close>

fun for_each :: "('i \<Rightarrow> 's \<Rightarrow> 's option) \<Rightarrow> 'i list \<Rightarrow> 's \<Rightarrow> 's option" where
  "for_each f [] s = Some s"
| "for_each f (i # is) s = do { s \<leftarrow> f i s; for_each f is s }"

lemma for_each_append:
  "for_each f (is @ js) s = do { s \<leftarrow> for_each f is s; for_each f js s }"
  by (induction "is" arbitrary: s) (auto intro: Option.bind_cong)

text \<open>An invariant of the body that also makes it return is an invariant of the loop.\<close>

lemma for_each_rule:
  assumes "\<And>i s. i \<in> set is \<Longrightarrow> P s \<Longrightarrow> \<exists>s'. f i s = Some s' \<and> P s'" and "P s"
  shows "\<exists>s'. for_each f is s = Some s' \<and> P s'"
  using assms
proof (induction "is" arbitrary: s)
  case (Cons i "is")
  then obtain s1 where "f i s = Some s1" "P s1" by fastforce
  with Cons show ?case by simp
qed simp

lemma find_append:
  "find P (xs @ ys) = (case find P xs of None \<Rightarrow> find P ys | Some x \<Rightarrow> Some x)"
  by (induction xs) auto

section \<open>Sizes, strings and vectors\<close>

text \<open>
  A \<^verbatim>\<open>usize\<close> that counts the elements of a vector is a natural number, with the overflow check of the
  debug build written out. A \<^verbatim>\<open>String\<close> is the list of its UTF-8 bytes, as characters.
\<close>

type_synonym bytes = "u8 list"

definition usize_add :: "nat \<Rightarrow> nat \<Rightarrow> nat option" where
  "usize_add a b = (if int a + int b < 2 ^ 64 then Some (a + b) else None)"

lemma usize_add_eq_Some: "usize_add a b = Some c \<longleftrightarrow> a + b < 2 ^ 64 \<and> c = a + b"
proof -
  have "int a + int b < 2 ^ 64 \<longleftrightarrow> int (a + b) < int (2 ^ 64)" by simp
  then show ?thesis by (auto simp only: usize_add_def of_nat_less_iff split: if_splits)
qed

lemma usize_add_ok [arith_ok]: "a + b < 2 ^ 64 \<Longrightarrow> usize_add a b = Some (a + b)"
  by (simp add: usize_add_eq_Some)

definition as_bytes :: "string \<Rightarrow> bytes" where
  "as_bytes = map of_char"

definition of_bytes :: "bytes \<Rightarrow> string" where
  "of_bytes = map (\<lambda>b. char_of (uint b))"

lemma of_as_bytes [simp]: "of_bytes (as_bytes s) = s" "as_bytes (of_bytes b) = b"
proof -
  have "char_of (uint (of_char c :: u8)) = c" for c
  proof -
    have "(of_char c :: int) mod 256 = of_char c" by (rule of_char_mod_256)
    then have "uint (of_int (of_char c) :: u8) = of_char c" by (simp add: unsigned_of_int take_bit_eq_mod of_nat_of_char)
    then have "uint (of_char c :: u8) = of_char c" by (simp only: of_int_of_char)
    then show ?thesis by simp
  qed
  then show "of_bytes (as_bytes s) = s" by (simp add: of_bytes_def as_bytes_def comp_def)
  have "(of_char (char_of (uint x)) :: u8) = x" for x :: u8
  proof -
    have "(of_char (char_of (uint x)) :: int) = uint x" using uint_bounded [of x] by simp
    then have "(of_int (of_char (char_of (uint x))) :: u8) = x" by simp
    then show ?thesis by (simp only: of_int_of_char)
  qed
  then show "as_bytes (of_bytes b) = b" by (simp add: of_bytes_def as_bytes_def comp_def)
qed

lemma length_as_bytes [simp]: "length (as_bytes s) = length s" "length (of_bytes b) = length b"
  by (simp_all add: as_bytes_def of_bytes_def)

definition strip_prefix :: "'a list \<Rightarrow> 'a list \<Rightarrow> 'a list option" where
  "strip_prefix p s = (if take (length p) s = p then Some (drop (length p) s) else None)"

lemma strip_prefix_eq_Some: "strip_prefix p s = Some r \<longleftrightarrow> s = p @ r"
  by (auto simp: strip_prefix_def) (metis append_take_drop_id)

text \<open>\<^verbatim>\<open>iter().position\<close>, and the element found by \<^verbatim>\<open>iter_mut().find\<close> changed in place.\<close>

fun position :: "('a \<Rightarrow> bool) \<Rightarrow> 'a list \<Rightarrow> nat option" where
  "position P [] = None"
| "position P (x # xs) = (if P x then Some 0 else map_option Suc (position P xs))"

lemma position_None: "position P xs = None \<longleftrightarrow> (\<forall>x\<in>set xs. \<not> P x)"
  by (induction xs) auto

lemma position_Some:
  "position P xs = Some i \<longleftrightarrow> i < length xs \<and> P (xs ! i) \<and> (\<forall>j<i. \<not> P (xs ! j))"
proof (induction xs arbitrary: i)
  case (Cons x xs)
  then show ?case by (cases i) (auto simp: All_less_Suc2)
qed simp

lemma position_find: "find P xs = map_option (nth xs) (position P xs)"
  by (induction xs) (auto simp: option.map_comp comp_def)

end
