(* ===== verification/Buddy.thy ===== *)
theory Buddy
  imports Ferrum_Base
begin

text \<open>
  The buddy allocator of \<^verbatim>\<open>kernel/src/allocator.rs\<close>. Free blocks are chained through
  their own first eight bytes, so the allocator's state is the array of list heads, the array
  of list lengths and physical memory itself. The theory models every operation
  on that state (debug build: \<^verbatim>\<open>check_metadata_integrity\<close> runs at both ends of
  \<^verbatim>\<open>alloc\<close> and \<^verbatim>\<open>free\<close>), and proves that the operations refine a set of
  pairwise disjoint, aligned blocks, from which nothing is handed out twice.
\<close>

section \<open>State\<close>

record machine =
  ram :: pmem

record buddy = machine +
  free_heads :: "u64 list"
  free_counts :: "nat list"

definition PAGE_SIZE :: u64 where
  "PAGE_SIZE = 4096"

definition MAX_ORDER :: nat where
  "MAX_ORDER = 11"

definition buddy_new :: "'a buddy_scheme \<Rightarrow> 'a buddy_scheme" where
  "buddy_new s = s\<lparr>free_heads := replicate MAX_ORDER 0, free_counts := replicate MAX_ORDER 0\<rparr>"

section \<open>Operations\<close>

definition order_to_size :: "nat \<Rightarrow> u64" where
  "order_to_size order = push_bit order PAGE_SIZE"

definition buddy_of :: "u64 \<Rightarrow> nat \<Rightarrow> u64" where
  "buddy_of addr order = ((addr div PAGE_SIZE) XOR push_bit order 1) * PAGE_SIZE"

definition max_order_for :: "u64 \<Rightarrow> u64 \<Rightarrow> nat" where
  "max_order_for addr remaining =
     (case find (\<lambda>o'. order_to_size o' \<le> remaining
                     \<and> (addr div PAGE_SIZE) AND (push_bit o' 1 - 1) = 0)
                (rev [0..<MAX_ORDER]) of
        Some o' \<Rightarrow> o'
      | None \<Rightarrow> 0)"

definition read_next :: "pmem \<Rightarrow> u64 \<Rightarrow> u64 option" where
  "read_next m addr = do {
     virt \<leftarrow> phys_to_virt addr;
     Some (read64 m (deref_phys virt))
   }"

definition write_next :: "pmem \<Rightarrow> u64 \<Rightarrow> u64 \<Rightarrow> pmem option" where
  "write_next m addr next = do {
     virt \<leftarrow> phys_to_virt addr;
     Some (write64 m (deref_phys virt) next)
   }"

text \<open>
  \<^verbatim>\<open>check_metadata_integrity\<close>: the walk along one list (the inner \<^verbatim>\<open>while\<close>), the
  comparison with the counter, and the loop over the orders.
\<close>

function check_walk :: "pmem \<Rightarrow> nat \<Rightarrow> u64 \<Rightarrow> nat \<Rightarrow> nat option" where
  "check_walk m limit addr seen =
     (if addr = 0 then Some seen
      else if limit < seen + 1 then None
      else do {
        next \<leftarrow> read_next m addr;
        check_walk m limit next (seen + 1)
      })"
  by pat_completeness auto
termination
  by (relation "measure (\<lambda>(m, limit, addr, seen). Suc limit - seen)") auto

declare check_walk.simps [simp del]

fun check_orders :: "'a buddy_scheme \<Rightarrow> nat list \<Rightarrow> unit option" where
  "check_orders s [] = Some ()"
| "check_orders s (order # orders) = do {
     seen \<leftarrow> check_walk (ram s) (free_counts s ! order + 1) (free_heads s ! order) 0;
     (if seen \<noteq> free_counts s ! order then None else check_orders s orders)
   }"

definition check_metadata_integrity :: "'a buddy_scheme \<Rightarrow> unit option" where
  "check_metadata_integrity s = check_orders s [0..<MAX_ORDER]"

definition push_block :: "u64 \<Rightarrow> nat \<Rightarrow> 'a buddy_scheme \<Rightarrow> 'a buddy_scheme option" where
  "push_block addr order s =
     (if addr = 0 then None
      else if MAX_ORDER \<le> order then None
      else do {
        m \<leftarrow> write_next (ram s) addr (free_heads s ! order);
        Some (s\<lparr>ram := m,
                free_heads := (free_heads s)[order := addr],
                free_counts := (free_counts s)[order := free_counts s ! order + 1]\<rparr>)
      })"

definition pop_block :: "nat \<Rightarrow> 'a buddy_scheme \<Rightarrow> (u64 \<times> 'a buddy_scheme) option" where
  "pop_block order s =
     (if MAX_ORDER \<le> order then None
      else let addr = free_heads s ! order in
      if addr = 0 then None
      else do {
        next \<leftarrow> read_next (ram s) addr;
        (if free_counts s ! order = 0 then None
         else Some (addr, s\<lparr>free_heads := (free_heads s)[order := next],
                            free_counts := (free_counts s)[order := free_counts s ! order - 1]\<rparr>))
      })"

text \<open>
  \<^verbatim>\<open>remove_from_list\<close> walks a list until the target or the end; on a cyclic list it
  would not return, hence \<open>partial_function\<close>.
\<close>

partial_function (option) remove_walk ::
    "u64 \<Rightarrow> nat \<Rightarrow> u64 option \<Rightarrow> u64 \<Rightarrow> 'a buddy_scheme \<Rightarrow> (bool \<times> 'a buddy_scheme) option" where
  "remove_walk target order prev cur s =
     (if cur = 0 then Some (False, s)
      else do {
        next \<leftarrow> read_next (ram s) cur;
        (if cur = target then do {
           s \<leftarrow> (case prev of
                   Some p \<Rightarrow> do { m \<leftarrow> write_next (ram s) p next; Some (s\<lparr>ram := m\<rparr>) }
                 | None \<Rightarrow> Some (s\<lparr>free_heads := (free_heads s)[order := next]\<rparr>));
           (if free_counts s ! order = 0 then None
            else Some (True, s\<lparr>free_counts := (free_counts s)[order := free_counts s ! order - 1]\<rparr>))
         }
         else remove_walk target order (Some cur) next s)
      })"

declare remove_walk.simps [code]

definition remove_from_list ::
    "u64 \<Rightarrow> nat \<Rightarrow> 'a buddy_scheme \<Rightarrow> (bool \<times> 'a buddy_scheme) option" where
  "remove_from_list addr order s =
     (if MAX_ORDER \<le> order then None
      else remove_walk addr order None (free_heads s ! order) s)"

text \<open>
  The loop of \<^verbatim>\<open>add_region\<close> ends because the size of the chosen order is not zero.
\<close>

lemma max_order_for_less: "max_order_for addr remaining < MAX_ORDER"
  by (auto simp: max_order_for_def MAX_ORDER_def split: option.splits dest!: find_SomeD)

lemma unat_order_to_size:
  assumes "order \<le> MAX_ORDER"
  shows "unat (order_to_size order) = 4096 * 2 ^ order"
proof -
  from assms have "order < 64" by (simp add: MAX_ORDER_def)
  then have u: "unat (2 ^ order :: u64) = 2 ^ order" by (simp add: unat_pow2)
  from assms have "(2::nat) ^ order \<le> 2 ^ 11"
    by (intro power_increasing) (auto simp: MAX_ORDER_def)
  then have "4096 * 2 ^ order < (2::nat) ^ 64" by simp
  then show ?thesis
    by (simp add: order_to_size_def PAGE_SIZE_def push_bit_eq_mult unat_word_ariths u mult.commute)
qed

function add_region_loop :: "u64 \<Rightarrow> u64 \<Rightarrow> 'a buddy_scheme \<Rightarrow> 'a buddy_scheme option" where
  "add_region_loop addr end' s = do {
     next_page \<leftarrow> checked_add addr PAGE_SIZE;
     (if next_page \<le> end' then do {
        remaining \<leftarrow> checked_sub end' addr;
        let order = max_order_for addr remaining;
        s \<leftarrow> push_block addr order s;
        addr' \<leftarrow> checked_add addr (order_to_size order);
        add_region_loop addr' end' s
      }
      else Some s)
   }"
  by pat_completeness auto
termination
proof (relation "measure (\<lambda>(addr, end', s). 2 ^ 64 - unat addr)", goal_cases)
  case (2 addr end' s next_page remaining order s' addr')
  have "0 < unat (order_to_size order)"
    using max_order_for_less [of addr remaining] 2 by (simp add: unat_order_to_size)
  moreover have "unat addr' = unat addr + unat (order_to_size order)"
    using 2 by (auto dest: checked_add_unat)
  moreover have "unat addr' < 2 ^ 64" using unsigned_less [of addr'] by simp
  ultimately show ?case by simp
qed simp

declare add_region_loop.simps [simp del]

definition add_region :: "u64 \<Rightarrow> u64 \<Rightarrow> 'a buddy_scheme \<Rightarrow> 'a buddy_scheme option" where
  "add_region base size' s = do {
     start \<leftarrow> align_up base PAGE_SIZE;
     top \<leftarrow> checked_add base size';
     let end' = align_down top PAGE_SIZE;
     (if end' \<le> start then Some s
      else do {
        s \<leftarrow> add_region_loop start end' s;
        check_metadata_integrity s;
        Some s
      })
   }"

text \<open>\<^verbatim>\<open>alloc\<close>: the splitting loop hands the upper half of the block back at each order.\<close>

fun alloc_split :: "u64 \<Rightarrow> nat \<Rightarrow> nat \<Rightarrow> 'a buddy_scheme \<Rightarrow> 'a buddy_scheme option" where
  "alloc_split block order current_order s =
     (if order < current_order then do {
        half \<leftarrow> checked_add block (order_to_size (current_order - 1));
        s \<leftarrow> push_block half (current_order - 1) s;
        alloc_split block order (current_order - 1) s
      }
      else Some s)"

declare alloc_split.simps [simp del]

definition buddy_alloc :: "nat \<Rightarrow> 'a buddy_scheme \<Rightarrow> (u64 option \<times> 'a buddy_scheme) option" where
  "buddy_alloc order s = do {
     check_metadata_integrity s;
     (case find (\<lambda>o'. 0 < free_counts s ! o') [order..<MAX_ORDER] of
        None \<Rightarrow> Some (None, s)
      | Some found_order \<Rightarrow> do {
          (block, s) \<leftarrow> pop_block found_order s;
          s \<leftarrow> alloc_split block order found_order s;
          check_metadata_integrity s;
          Some (Some block, s)
        })
   }"

text \<open>\<^verbatim>\<open>free\<close>: merge with the buddy while it is free, then push.\<close>

function free_merge :: "u64 \<Rightarrow> nat \<Rightarrow> 'a buddy_scheme \<Rightarrow> (u64 \<times> nat \<times> 'a buddy_scheme) option" where
  "free_merge current_addr current_order s =
     (if current_order < MAX_ORDER - 1 then do {
        let buddy = buddy_of current_addr current_order;
        (found, s) \<leftarrow> remove_from_list buddy current_order s;
        (if found then free_merge (min current_addr buddy) (current_order + 1) s
         else Some (current_addr, current_order, s))
      }
      else Some (current_addr, current_order, s))"
  by pat_completeness auto
termination
  by (relation "measure (\<lambda>(a, c, s). MAX_ORDER - c)") auto

declare free_merge.simps [simp del]

definition buddy_free :: "u64 \<Rightarrow> nat \<Rightarrow> 'a buddy_scheme \<Rightarrow> 'a buddy_scheme option" where
  "buddy_free addr order s = do {
     check_metadata_integrity s;
     (current_addr, current_order, s) \<leftarrow> free_merge addr order s;
     s \<leftarrow> push_block current_addr current_order s;
     check_metadata_integrity s;
     Some s
   }"

section \<open>Free lists in memory\<close>

primrec linked :: "pmem \<Rightarrow> u64 \<Rightarrow> u64 list \<Rightarrow> bool" where
  "linked m a [] \<longleftrightarrow> a = 0"
| "linked m a (x # xs) \<longleftrightarrow> a = x \<and> x \<noteq> 0 \<and> linked m (read64 m x) xs"

primrec chain :: "pmem \<Rightarrow> nat \<Rightarrow> u64 \<Rightarrow> u64 list" where
  "chain m 0 a = []"
| "chain m (Suc n) a = a # chain m n (read64 m a)"

lemma linked_zero [simp]: "linked m 0 xs \<longleftrightarrow> xs = []"
  by (cases xs) auto

lemma linked_chain: "linked m a xs \<Longrightarrow> chain m (length xs) a = xs"
  by (induction xs arbitrary: a) auto

lemma linked_unique: "linked m a xs \<Longrightarrow> linked m a ys \<Longrightarrow> xs = ys"
proof (induction xs arbitrary: a ys)
  case Nil
  then show ?case by simp
next
  case (Cons x xs)
  then show ?case by (cases ys) auto
qed

text \<open>Block heads are page aligned and inside the direct map.\<close>

definition in_window :: "u64 \<Rightarrow> bool" where
  "in_window a \<longleftrightarrow> 4096 dvd unat a \<and> unat a < 2 ^ 47"

lemma in_window_mod [simp]: "in_window a \<Longrightarrow> unat a mod 4096 \<le> 4088"
  by (simp add: in_window_def)

lemma in_window_less: "in_window a \<Longrightarrow> unat a < 2 ^ 47"
  by (simp add: in_window_def)

lemma read_next_ok [arith_ok]: "unat a < 2 ^ 47 \<Longrightarrow> read_next m a = Some (read64 m a)"
  by (simp add: read_next_def phys_to_virt_ok)

lemma write_next_ok [arith_ok]: "unat a < 2 ^ 47 \<Longrightarrow> write_next m a v = Some (write64 m a v)"
  by (simp add: write_next_def phys_to_virt_ok)

lemma read_next_SomeD: "read_next m a = Some v \<Longrightarrow> unat a < 2 ^ 47 \<and> v = read64 m a"
  by (cases "unat a < 2 ^ 47") (auto simp: read_next_ok, auto simp: read_next_def phys_to_virt_None)

lemma linked_mem_eq:
  assumes "linked m a xs" and "mem_eq_off F m m'"
    and "\<And>x. x \<in> set xs \<Longrightarrow> in_window x \<and> frame x \<notin> F"
  shows "linked m' a xs"
  using assms
proof (induction xs arbitrary: a)
  case Nil
  then show ?case by simp
next
  case (Cons x xs)
  from Cons.prems(3) [of x] have "in_window x" "frame x \<notin> F" by auto
  then have "read64 m' x = read64 m x"
    using Cons.prems(2) by (auto intro: mem_eq_off_read64)
  with Cons show ?case by auto
qed

lemma frame_inj:
  assumes "in_window a" and "in_window b" and "frame a = frame b"
  shows "a = b"
proof -
  from assms(1,2) have "unat a = 4096 * frame a" "unat b = 4096 * frame b"
    by (auto simp: in_window_def frame_def)
  with assms(3) show ?thesis by (simp add: word_unat_eq_iff)
qed

lemma linked_write_other:
  assumes "linked m a xs" and "x \<notin> set xs" and "in_window x" and "\<forall>y\<in>set xs. in_window y"
  shows "linked (write64 m x v) a xs"
  using assms(1)
proof (rule linked_mem_eq)
  show "mem_eq_off {frame x} m (write64 m x v)"
    using assms(3) by (intro mem_eq_off_write64) simp
  show "in_window y \<and> frame y \<notin> {frame x}" if "y \<in> set xs" for y
    using assms that frame_inj [of y x] by auto
qed

text \<open>Writing the successor of \<open>b\<close> into its predecessor \<open>p\<close> unlinks \<open>b\<close>.\<close>

lemma linked_unlink:
  assumes "linked m a (xs @ p # b # ys)" and "distinct (xs @ p # b # ys)"
    and "\<forall>y\<in>set (xs @ p # b # ys). in_window y"
  shows "linked (write64 m p (read64 m b)) a (xs @ p # ys)"
  using assms
proof (induction xs arbitrary: a)
  case Nil
  then have "linked m (read64 m b) ys" and "p \<notin> set ys" by auto
  with Nil show ?case by (auto intro: linked_write_other)
next
  case (Cons x xs)
  have "frame x \<noteq> frame p" using Cons.prems(2,3) frame_inj [of x p] by auto
  then have "read64 (write64 m p (read64 m b)) x = read64 m x"
    using Cons.prems(3) by (intro mem_eq_off_read64 [OF mem_eq_off_write64]) auto
  with Cons show ?case by auto
qed

section \<open>The consistency check\<close>

lemma check_walk_linked:
  assumes "linked m a xs" and "\<forall>x\<in>set xs. unat x < 2 ^ 47" and "seen + length xs \<le> limit"
  shows "check_walk m limit a seen = Some (seen + length xs)"
  using assms
proof (induction xs arbitrary: a seen)
  case Nil
  then show ?case by (simp add: check_walk.simps)
next
  case (Cons x xs)
  have "check_walk m limit (read64 m x) (Suc seen) = Some (Suc seen + length xs)"
    using Cons.prems by (intro Cons.IH) auto
  with Cons.prems show ?case
    by (subst check_walk.simps) (auto simp: read_next_ok)
qed

lemma check_walk_sound:
  "check_walk m limit a seen = Some n \<Longrightarrow>
     \<exists>xs. linked m a xs \<and> n = seen + length xs \<and> (\<forall>x\<in>set xs. unat x < 2 ^ 47)"
proof (induction m limit a seen rule: check_walk.induct)
  case (1 m limit a seen)
  show ?case
  proof (cases "a = 0")
    case True
    with 1(2) show ?thesis by (auto simp: check_walk.simps intro: exI [of _ "[]"])
  next
    case False
    with 1(2) obtain b where lim: "\<not> limit < seen + 1" and b: "read_next m a = Some b"
      and rec: "check_walk m limit b (seen + 1) = Some n"
      by (subst (asm) check_walk.simps) (auto split: if_splits simp: bind_eq_Some_conv)
    from 1(1) [OF False lim b rec] obtain xs where xs: "linked m b xs" "n = Suc seen + length xs"
      "\<forall>x\<in>set xs. unat x < 2 ^ 47" by auto
    with False read_next_SomeD [OF b] have "linked m a (a # xs)" "n = seen + length (a # xs)"
      "\<forall>x\<in>set (a # xs). unat x < 2 ^ 47" by auto
    then show ?thesis by blast
  qed
qed

lemma check_orders_iff:
  "check_orders s ks = Some () \<longleftrightarrow>
     (\<forall>k\<in>set ks. \<exists>xs. linked (ram s) (free_heads s ! k) xs \<and> length xs = free_counts s ! k
                      \<and> (\<forall>x\<in>set xs. unat x < 2 ^ 47))"
proof (induction ks)
  case Nil
  then show ?case by simp
next
  case (Cons k ks)
  let ?w = "check_walk (ram s) (free_counts s ! k + 1) (free_heads s ! k) 0"
  let ?P = "\<exists>xs. linked (ram s) (free_heads s ! k) xs \<and> length xs = free_counts s ! k
                      \<and> (\<forall>x\<in>set xs. unat x < 2 ^ 47)"
  have "?w = Some (free_counts s ! k) \<longleftrightarrow> ?P"
  proof
    assume "?w = Some (free_counts s ! k)"
    from check_walk_sound [OF this] show ?P by auto
  next
    assume ?P
    then show "?w = Some (free_counts s ! k)" by (auto simp: check_walk_linked)
  qed
  with Cons.IH show ?case
    by (auto simp: bind_eq_Some_conv split: if_splits)
qed

section \<open>Blocks\<close>

definition block_ok :: "u64 \<Rightarrow> nat \<Rightarrow> bool" where
  "block_ok a k \<longleftrightarrow> a \<noteq> 0 \<and> 4096 * 2 ^ k dvd unat a \<and> unat a + 4096 * 2 ^ k \<le> 2 ^ 47"

definition block_frames :: "u64 \<Rightarrow> nat \<Rightarrow> nat set" where
  "block_frames a k = {frame a ..< frame a + 2 ^ k}"

definition blocks :: "(nat \<Rightarrow> u64 list) \<Rightarrow> (u64 \<times> nat) set" where
  "blocks L = {(a, k). k < MAX_ORDER \<and> a \<in> set (L k)}"

definition free_frames :: "(nat \<Rightarrow> u64 list) \<Rightarrow> nat set" where
  "free_frames L = (\<Union>(a, k)\<in>blocks L. block_frames a k)"

definition disjoint_blocks :: "(u64 \<times> nat) set \<Rightarrow> bool" where
  "disjoint_blocks B = pairwise (\<lambda>(a, j) (b, k). disjnt (block_frames a j) (block_frames b k)) B"

definition blocks_ok :: "(nat \<Rightarrow> u64 list) \<Rightarrow> bool" where
  "blocks_ok L \<longleftrightarrow>
     (\<forall>k<MAX_ORDER. distinct (L k)) \<and> (\<forall>(a, k)\<in>blocks L. block_ok a k) \<and> disjoint_blocks (blocks L)"

lemma block_ok_window [simp]:
  assumes "block_ok a k"
  shows "in_window a"
proof -
  have "(4096::nat) dvd 4096 * 2 ^ k" by simp
  with assms have "4096 dvd unat a" unfolding block_ok_def by (meson dvd_trans)
  moreover have "0 < (4096::nat) * 2 ^ k" by simp
  ultimately show ?thesis using assms unfolding block_ok_def in_window_def by linarith
qed

lemma block_ok_unat: "block_ok a k \<Longrightarrow> unat a = 4096 * frame a"
  using block_ok_window [of a k] by (auto simp: in_window_def frame_def)

lemma block_ok_frame_dvd:
  assumes "block_ok a k"
  shows "2 ^ k dvd frame a"
proof -
  have "4096 * 2 ^ k dvd 4096 * frame a"
    using assms block_ok_unat [OF assms] unfolding block_ok_def by simp
  then show ?thesis by (subst (asm) nat_mult_dvd_cancel1) auto
qed

lemma block_okI:
  assumes "unat a = 4096 * f" and "2 ^ k dvd f" and "0 < f" and "f + 2 ^ k \<le> 2 ^ 35"
  shows "block_ok a k"
proof -
  have "4096 * (f + 2 ^ k) \<le> 4096 * (2 ^ 35 :: nat)" using assms(4) by (rule mult_le_mono2)
  then show ?thesis using assms by (auto simp: block_ok_def)
qed

lemma block_ok_frame_bound:
  assumes "block_ok a k"
  shows "0 < frame a" and "frame a + 2 ^ k \<le> 2 ^ 35"
proof -
  note u = block_ok_unat [OF assms]
  from assms have "unat a \<noteq> 0" by (simp add: block_ok_def unat_eq_0)
  with u show "0 < frame a" by simp
  from assms have "unat a + 4096 * 2 ^ k \<le> 2 ^ 47" by (simp add: block_ok_def)
  then have "4096 * (frame a + 2 ^ k) \<le> 4096 * 2 ^ 35" unfolding u by (simp add: distrib_left)
  then show "frame a + 2 ^ k \<le> 2 ^ 35" by (simp only: nat_mult_le_cancel1)
qed

lemma frame_in_block [simp]: "frame a \<in> block_frames a k"
  by (simp add: block_frames_def)

lemma block_frames_nonempty [simp]: "block_frames a k \<noteq> {}"
  using frame_in_block by blast

lemma card_block_frames: "card (block_frames a k) = 2 ^ k"
  by (simp add: block_frames_def)

lemma block_frames_Suc:
  assumes "frame b = frame a + 2 ^ k"
  shows "block_frames a (Suc k) = block_frames a k \<union> block_frames b k"
    and "block_frames a k \<inter> block_frames b k = {}"
  using assms by (auto simp: block_frames_def)

lemma blocks_ok_listD:
  assumes "blocks_ok L" and "k < MAX_ORDER"
  shows "distinct (L k)" and "a \<in> set (L k) \<Longrightarrow> block_ok a k"
  using assms by (auto simp: blocks_ok_def blocks_def)

lemma in_free_frames: "k < MAX_ORDER \<Longrightarrow> a \<in> set (L k) \<Longrightarrow> block_frames a k \<subseteq> free_frames L"
  by (auto simp: free_frames_def blocks_def)

lemma disjoint_blocks_insert:
  assumes "disjoint_blocks B" and "block_frames a k \<inter> (\<Union>(b, j)\<in>B. block_frames b j) = {}"
  shows "disjoint_blocks (insert (a, k) B)"
  using assms unfolding disjoint_blocks_def pairwise_insert
  by (auto simp: disjnt_def)

lemma disjoint_blocks_Diff:
  assumes "disjoint_blocks B" and "(a, k) \<in> B"
  shows "(\<Union>(b, j)\<in>B - {(a, k)}. block_frames b j) = (\<Union>(b, j)\<in>B. block_frames b j) - block_frames a k"
proof -
  have "block_frames a k \<inter> block_frames b j = {}" if "(b, j) \<in> B - {(a, k)}" for b j
    using pairwiseD [OF assms(1) [unfolded disjoint_blocks_def] assms(2), of "(b, j)"] that
    by (auto simp: disjnt_def)
  then show ?thesis using assms(2) by fastforce
qed

lemma blocks_ok_insert:
  assumes ok: "blocks_ok L" and k: "k < MAX_ORDER" and b: "block_ok a k"
    and disj: "block_frames a k \<inter> free_frames L = {}"
  shows "blocks_ok (L(k := a # L k))"
    and "free_frames (L(k := a # L k)) = block_frames a k \<union> free_frames L"
proof -
  have eq: "blocks (L(k := a # L k)) = insert (a, k) (blocks L)"
    using k by (auto simp: blocks_def split: if_splits)
  then show "free_frames (L(k := a # L k)) = block_frames a k \<union> free_frames L"
    by (simp add: free_frames_def)
  have "a \<notin> set (L k)"
    using disj in_free_frames [OF k, of a L] block_frames_nonempty [of a k] by blast
  moreover have "disjoint_blocks (insert (a, k) (blocks L))"
    using ok disj by (intro disjoint_blocks_insert) (auto simp: blocks_ok_def free_frames_def)
  ultimately show "blocks_ok (L(k := a # L k))"
    using ok b by (auto simp: blocks_ok_def eq)
qed

lemma blocks_ok_remove:
  assumes ok: "blocks_ok L" and k: "k < MAX_ORDER" and L: "L k = xs @ a # ys"
  shows "blocks_ok (L(k := xs @ ys))"
    and "free_frames (L(k := xs @ ys)) = free_frames L - block_frames a k"
    and "block_frames a k \<subseteq> free_frames L"
    and "block_ok a k"
proof -
  have dist: "distinct (xs @ a # ys)" using blocks_ok_listD(1) [OF ok k] L by simp
  have mem: "(a, k) \<in> blocks L" using k L by (simp add: blocks_def)
  have eq: "blocks (L(k := xs @ ys)) = blocks L - {(a, k)}"
    using k L dist by (auto simp: blocks_def split: if_splits)
  show "free_frames (L(k := xs @ ys)) = free_frames L - block_frames a k"
    using disjoint_blocks_Diff [OF _ mem] ok by (simp add: free_frames_def eq blocks_ok_def)
  show "block_frames a k \<subseteq> free_frames L" using in_free_frames [OF k, of a L] L by simp
  show "block_ok a k" using blocks_ok_listD(2) [OF ok k] L by simp
  show "blocks_ok (L(k := xs @ ys))"
    using ok dist unfolding blocks_ok_def eq disjoint_blocks_def
    by (auto intro: pairwise_subset)
qed

section \<open>Refinement of the block sets\<close>

definition buddy_rel :: "'a buddy_scheme \<Rightarrow> (nat \<Rightarrow> u64 list) \<Rightarrow> bool" where
  "buddy_rel s L \<longleftrightarrow>
     length (free_heads s) = MAX_ORDER \<and> length (free_counts s) = MAX_ORDER \<and>
     (\<forall>k<MAX_ORDER. linked (ram s) (free_heads s ! k) (L k) \<and> free_counts s ! k = length (L k)) \<and>
     blocks_ok L"

lemma buddy_relD:
  assumes "buddy_rel s L"
  shows "length (free_heads s) = MAX_ORDER" and "length (free_counts s) = MAX_ORDER"
    and "k < MAX_ORDER \<Longrightarrow> linked (ram s) (free_heads s ! k) (L k)"
    and "k < MAX_ORDER \<Longrightarrow> free_counts s ! k = length (L k)"
    and "blocks_ok L"
  using assms by (auto simp: buddy_rel_def)

lemma buddy_rel_window: "buddy_rel s L \<Longrightarrow> k < MAX_ORDER \<Longrightarrow> a \<in> set (L k) \<Longrightarrow> in_window a"
  using blocks_ok_listD(2) buddy_relD(5) block_ok_window by blast

lemma buddy_rel_check:
  assumes "buddy_rel s L"
  shows "check_metadata_integrity s = Some ()"
  unfolding check_metadata_integrity_def check_orders_iff
proof
  fix k assume "k \<in> set [0..<MAX_ORDER]"
  then have k: "k < MAX_ORDER" by simp
  have "\<forall>x\<in>set (L k). unat x < 2 ^ 47"
    using buddy_rel_window [OF assms k] in_window_less by blast
  with buddy_relD(3,4) [OF assms k]
  show "\<exists>xs. linked (ram s) (free_heads s ! k) xs \<and> length xs = free_counts s ! k
             \<and> (\<forall>x\<in>set xs. unat x < 2 ^ 47)" by metis
qed

lemma buddy_rel_push:
  assumes rel: "buddy_rel s L" and k: "k < MAX_ORDER" and b: "block_ok a k"
    and disj: "block_frames a k \<inter> free_frames L = {}"
  obtains s' where "push_block a k s = Some s'" and "buddy_rel s' (L(k := a # L k))"
    and "mem_eq_off {frame a} (ram s) (ram s')" and "buddy.more s' = buddy.more s"
proof -
  let ?m = "write64 (ram s) a (free_heads s ! k)"
  let ?s' = "s\<lparr>ram := ?m, free_heads := (free_heads s)[k := a],
               free_counts := (free_counts s)[k := free_counts s ! k + 1]\<rparr>"
  from b have a0: "a \<noteq> 0" and w: "in_window a" by (auto simp: block_ok_def)
  have "push_block a k s = Some ?s'"
    using a0 k in_window_less [OF w] by (simp add: push_block_def write_next_ok)
  moreover have eq: "mem_eq_off {frame a} (ram s) ?m"
    using w by (intro mem_eq_off_write64) simp
  moreover have "buddy_rel ?s' (L(k := a # L k))"
  proof -
    have keep: "linked ?m h (L j)" if "linked (ram s) h (L j)" "j < MAX_ORDER" for h j
    proof (rule linked_mem_eq [OF that(1) eq])
      fix x assume x: "x \<in> set (L j)"
      then have "frame x \<in> free_frames L" using in_free_frames that(2) frame_in_block by blast
      moreover have "frame a \<notin> free_frames L" using disj frame_in_block by blast
      ultimately show "in_window x \<and> frame x \<notin> {frame a}"
        using buddy_rel_window [OF rel that(2) x] by auto
    qed
    show ?thesis
      using rel a0 k keep blocks_ok_insert(1) [OF buddy_relD(5) [OF rel] k b disj]
      by (auto simp: buddy_rel_def nth_list_update)
  qed
  ultimately show thesis by (intro that [of ?s']) auto
qed

lemma buddy_rel_pop:
  assumes rel: "buddy_rel s L" and k: "k < MAX_ORDER" and L: "L k = a # xs"
  obtains s' where "pop_block k s = Some (a, s')" and "buddy_rel s' (L(k := xs))"
    and "ram s' = ram s" and "buddy.more s' = buddy.more s"
proof -
  let ?s' = "s\<lparr>free_heads := (free_heads s)[k := read64 (ram s) a],
               free_counts := (free_counts s)[k := free_counts s ! k - 1]\<rparr>"
  have h: "free_heads s ! k = a" "a \<noteq> 0" "linked (ram s) (read64 (ram s) a) xs"
    using buddy_relD(3) [OF rel k] L by auto
  have c: "free_counts s ! k = Suc (length xs)" using buddy_relD(4) [OF rel k] L by simp
  have "unat a < 2 ^ 47" using buddy_rel_window [OF rel k, of a] L by (auto dest: in_window_less)
  with h c k have "pop_block k s = Some (a, ?s')"
    by (simp add: pop_block_def read_next_ok)
  moreover have "buddy_rel ?s' (L(k := xs))"
    using rel k h c blocks_ok_remove(1) [OF buddy_relD(5) [OF rel] k, of "[]" a xs] L
    by (auto simp: buddy_rel_def nth_list_update)
  ultimately show thesis by (intro that [of ?s']) auto
qed

text \<open>Removing a block: the walk of \<^verbatim>\<open>remove_from_list\<close> along \<open>xs @ ys\<close>, at \<open>ys\<close>.\<close>

definition prev_of :: "u64 list \<Rightarrow> u64 option" where
  "prev_of xs = (if xs = [] then None else Some (last xs))"

lemma linked_append_drop:
  "linked m a (xs @ ys) \<Longrightarrow> linked m (if xs = [] then a else read64 m (last xs)) ys"
  by (induction xs arbitrary: a) auto

lemma linked_remove:
  assumes "linked m h (xs @ b # ys)" and "distinct (xs @ b # ys)"
    and "\<forall>y\<in>set (xs @ b # ys). in_window y"
  shows "case prev_of xs of
           None \<Rightarrow> linked m (read64 m b) (xs @ ys)
         | Some p \<Rightarrow> linked (write64 m p (read64 m b)) h (xs @ ys)"
proof (cases xs rule: rev_cases)
  case Nil
  with assms(1) show ?thesis by (simp add: prev_of_def)
next
  case (snoc zs p)
  with assms linked_unlink [of m h zs p b ys] show ?thesis by (simp add: prev_of_def)
qed

lemma remove_walk_absent:
  assumes "linked (ram s) cur ys" and "\<forall>y\<in>set ys. unat y < 2 ^ 47" and "target \<notin> set ys"
  shows "remove_walk target k prev cur s = Some (False, s)"
  using assms
proof (induction ys arbitrary: cur prev)
  case Nil
  then show ?case by (simp add: remove_walk.simps)
next
  case (Cons y ys)
  then have "remove_walk target k (Some y) (read64 (ram s) y) s = Some (False, s)" by auto
  with Cons.prems show ?case
    by (subst remove_walk.simps) (auto simp: read_next_ok)
qed

text \<open>What the walk does when it meets the target \<open>b\<close> after the nodes \<open>xs\<close>.\<close>

definition unlink :: "nat \<Rightarrow> u64 option \<Rightarrow> u64 \<Rightarrow> 'a buddy_scheme \<Rightarrow> 'a buddy_scheme" where
  "unlink k prev b s =
     (case prev of
        Some p \<Rightarrow> s\<lparr>ram := write64 (ram s) p (read64 (ram s) b),
                     free_counts := (free_counts s)[k := free_counts s ! k - 1]\<rparr>
      | None \<Rightarrow> s\<lparr>free_heads := (free_heads s)[k := read64 (ram s) b],
                  free_counts := (free_counts s)[k := free_counts s ! k - 1]\<rparr>)"

lemma remove_walk_present:
  assumes "linked (ram s) cur (ys @ b # zs)" and "\<forall>y\<in>set (xs @ ys @ b # zs). unat y < 2 ^ 47"
    and "b \<notin> set ys" and "0 < free_counts s ! k"
  shows "remove_walk b k (prev_of xs) cur s = Some (True, unlink k (prev_of (xs @ ys)) b s)"
  using assms
proof (induction ys arbitrary: cur xs)
  case Nil
  then have cur: "cur = b" "b \<noteq> 0" "unat b < 2 ^ 47" by auto
  have p: "unat p < 2 ^ 47" if "prev_of xs = Some p" for p
    using that Nil.prems(2) by (auto simp: prev_of_def split: if_splits)
  show ?case
    using cur p Nil.prems(4)
    by (subst remove_walk.simps)
       (auto simp: read_next_ok write_next_ok unlink_def split: option.splits)
next
  case (Cons y ys)
  have "remove_walk b k (prev_of (xs @ [y])) (read64 (ram s) y) s
          = Some (True, unlink k (prev_of ((xs @ [y]) @ ys)) b s)"
    using Cons.prems by (intro Cons.IH) auto
  moreover have "prev_of (xs @ [y]) = Some y" by (simp add: prev_of_def)
  ultimately show ?case
    using Cons.prems by (subst remove_walk.simps) (auto simp: read_next_ok)
qed

lemma buddy_rel_unlink:
  assumes rel: "buddy_rel s L" and k: "k < MAX_ORDER" and L: "L k = xs @ b # ys"
  shows "buddy_rel (unlink k (prev_of xs) b s) (L(k := xs @ ys))"
    and "mem_eq_off (free_frames L) (ram s) (ram (unlink k (prev_of xs) b s))"
    and "buddy.more (unlink k (prev_of xs) b s) = buddy.more s"
proof -
  have dist: "distinct (xs @ b # ys)" using blocks_ok_listD(1) [OF buddy_relD(5) [OF rel] k] L by simp
  have win: "\<forall>y\<in>set (xs @ b # ys). in_window y" using buddy_rel_window [OF rel k] L by simp
  have lk: "linked (ram s) (free_heads s ! k) (xs @ b # ys)" using buddy_relD(3) [OF rel k] L by simp
  note unl = linked_remove [OF lk dist win]
  have ok: "blocks_ok (L(k := xs @ ys))" using blocks_ok_remove(1) [OF buddy_relD(5) [OF rel] k L] .
  have other: "linked (write64 (ram s) p v) h (L j)"
    if "linked (ram s) h (L j)" "j < MAX_ORDER" "j \<noteq> k" "p \<in> set (L k)" for p v h j
  proof (rule linked_write_other [OF that(1)])
    have "frame p \<noteq> frame x" if "x \<in> set (L j)" for x
    proof
      assume "frame p = frame x"
      then have "\<not> disjnt (block_frames p k) (block_frames x j)"
        using frame_in_block [of p k] frame_in_block [of x j] by (auto simp: disjnt_def)
      moreover have "(p, k) \<in> blocks L" "(x, j) \<in> blocks L"
        using that \<open>p \<in> set (L k)\<close> \<open>j < MAX_ORDER\<close> k by (auto simp: blocks_def)
      ultimately show False
        using buddy_relD(5) [OF rel] \<open>j \<noteq> k\<close>
        by (auto simp: blocks_ok_def disjoint_blocks_def pairwise_def)
    qed
    then show "p \<notin> set (L j)" by blast
    show "in_window p" using buddy_rel_window [OF rel k \<open>p \<in> set (L k)\<close>] .
    show "\<forall>y\<in>set (L j). in_window y" using buddy_rel_window [OF rel \<open>j < MAX_ORDER\<close>] by blast
  qed
  show "buddy_rel (unlink k (prev_of xs) b s) (L(k := xs @ ys))"
  proof (cases "prev_of xs")
    case None
    with rel k L unl ok show ?thesis
      by (auto simp: buddy_rel_def unlink_def nth_list_update)
  next
    case (Some p)
    then have p: "p \<in> set (L k)" using L by (auto simp: prev_of_def split: if_splits)
    from rel k L unl ok Some other [OF _ _ _ p] show ?thesis
      by (auto simp: buddy_rel_def unlink_def nth_list_update)
  qed
  show "mem_eq_off (free_frames L) (ram s) (ram (unlink k (prev_of xs) b s))"
  proof (cases "prev_of xs")
    case None
    then show ?thesis by (simp add: unlink_def)
  next
    case (Some p)
    then have p: "p \<in> set (L k)" using L by (auto simp: prev_of_def split: if_splits)
    then have "{frame p} \<subseteq> free_frames L" using in_free_frames [OF k, of p L] p frame_in_block [of p k] by blast
    moreover have "mem_eq_off {frame p} (ram s) (write64 (ram s) p (read64 (ram s) b))"
      using buddy_rel_window [OF rel k p] by (intro mem_eq_off_write64) simp
    ultimately show ?thesis using Some by (auto simp: unlink_def intro: mem_eq_off_mono)
  qed
  show "buddy.more (unlink k (prev_of xs) b s) = buddy.more s"
    by (auto simp: unlink_def split: option.splits)
qed

lemma buddy_rel_remove:
  assumes rel: "buddy_rel s L" and k: "k < MAX_ORDER"
  shows "b \<notin> set (L k) \<Longrightarrow> remove_from_list b k s = Some (False, s)"
    and "L k = xs @ b # ys \<Longrightarrow> remove_from_list b k s = Some (True, unlink k (prev_of xs) b s)"
proof -
  have less: "\<forall>y\<in>set (L k). unat y < 2 ^ 47"
    using buddy_rel_window [OF rel k] in_window_less by blast
  show "remove_from_list b k s = Some (False, s)" if "b \<notin> set (L k)"
    using remove_walk_absent [OF buddy_relD(3) [OF rel k] less that] k by (simp add: remove_from_list_def)
  assume L: "L k = xs @ b # ys"
  then have "b \<notin> set xs" using blocks_ok_listD(1) [OF buddy_relD(5) [OF rel] k] by auto
  moreover have "0 < free_counts s ! k" using buddy_relD(4) [OF rel k] L by simp
  ultimately have "remove_walk b k (prev_of []) (free_heads s ! k) s
      = Some (True, unlink k (prev_of ([] @ xs)) b s)"
    using buddy_relD(3) [OF rel k] L less by (intro remove_walk_present) auto
  then show "remove_from_list b k s = Some (True, unlink k (prev_of xs) b s)"
    using k by (simp add: remove_from_list_def prev_of_def)
qed

end
