(* ===== verification/Buddy_Spec.thy ===== *)
theory Buddy_Spec
  imports Buddy
begin

text \<open>
  The contract of the buddy allocator (\<^verbatim>\<open>src/kernel/src/allocator.rs\<close>). A state
  stands for the set \<open>avail\<close> of free page frames: allocation removes the frames of an aligned block
  from it, release adds them, \<^verbatim>\<open>add_region\<close> adds the whole pages of a region. The
  operations are shown to refine that view, to return in every state that satisfies the invariant,
  and to write to no byte outside the free frames; a step relation for clients that allocate,
  release and write their own frames then gives the conservation of frames over every run.
\<close>

section \<open>Allocation\<close>

text \<open>A block of order \<open>k + 1\<close> splits into its lower half (same head) and its upper half.\<close>

lemma block_split:
  assumes "block_ok a (Suc k)" and "Suc k < MAX_ORDER"
  shows "checked_add a (order_to_size k) = Some (a + order_to_size k)"
    and "block_ok a k" and "block_ok (a + order_to_size k) k"
    and "block_frames a (Suc k) = block_frames a k \<union> block_frames (a + order_to_size k) k"
    and "block_frames a k \<inter> block_frames (a + order_to_size k) k = {}"
proof -
  let ?b = "a + order_to_size k"
  note fb = block_ok_frame_bound [OF assms(1)]
  have sz: "unat (order_to_size k) = 4096 * 2 ^ k"
    using assms(2) by (intro unat_order_to_size) simp
  have "frame a + 2 ^ k \<le> 2 ^ 35" using fb by simp
  then have "4096 * (frame a + 2 ^ k) \<le> 4096 * 2 ^ 35" by (rule mult_le_mono2)
  then have lt: "unat a + unat (order_to_size k) < 2 ^ LENGTH(64)"
    using block_ok_unat [OF assms(1)] sz by (simp add: distrib_left)
  then show "checked_add a (order_to_size k) = Some ?b" by (rule checked_add_ok)
  have ub: "unat ?b = 4096 * (frame a + 2 ^ k)"
    using lt block_ok_unat [OF assms(1)] sz by (simp add: unat_add_exact distrib_left)
  then have f: "frame ?b = frame a + 2 ^ k" by (simp add: frame_def)
  have "2 ^ k dvd (2::nat) ^ Suc k" by simp
  then have d: "2 ^ k dvd frame a" using block_ok_frame_dvd [OF assms(1)] by (rule dvd_trans)
  show "block_ok a k"
    using block_ok_unat [OF assms(1)] d fb by (intro block_okI [of a "frame a"]) auto
  show "block_ok ?b k"
    using ub d fb by (intro block_okI [of ?b "frame a + 2 ^ k"]) auto
  show "block_frames a (Suc k) = block_frames a k \<union> block_frames ?b k"
    and "block_frames a k \<inter> block_frames ?b k = {}"
    using block_frames_Suc [OF f] by auto
qed

lemma buddy_rel_alloc_split:
  assumes "buddy_rel s L" and "j \<le> k" and "k < MAX_ORDER" and "block_ok a k"
    and "block_frames a k \<inter> free_frames L = {}"
  obtains s' L' where "alloc_split a j k s = Some s'" and "buddy_rel s' L'"
    and "free_frames L' = free_frames L \<union> (block_frames a k - block_frames a j)"
    and "block_ok a j" and "block_frames a j \<subseteq> block_frames a k"
    and "mem_eq_off (block_frames a k - block_frames a j) (ram s) (ram s')"
    and "buddy.more s' = buddy.more s"
  using assms
proof (induction k arbitrary: s L thesis)
  case 0
  then show ?case by (auto simp: alloc_split.simps)
next
  case (Suc k)
  show ?case
  proof (cases "j = Suc k")
    case True
    with Suc.prems show ?thesis by (auto simp: alloc_split.simps)
  next
    case False
    then have jk: "j \<le> k" using Suc.prems(3) by simp
    let ?b = "a + order_to_size k"
    note sp = block_split [OF Suc.prems(5,4)]
    from Suc.prems(4) have k: "k < MAX_ORDER" by simp
    have db: "block_frames ?b k \<inter> free_frames L = {}" using Suc.prems(6) sp(4) by blast
    obtain s1 where s1: "push_block ?b k s = Some s1" "buddy_rel s1 (L(k := ?b # L k))"
      "mem_eq_off {frame ?b} (ram s) (ram s1)" "buddy.more s1 = buddy.more s"
      using buddy_rel_push [OF Suc.prems(2) k sp(3) db] .
    have ff: "free_frames (L(k := ?b # L k)) = block_frames ?b k \<union> free_frames L"
      using blocks_ok_insert(2) [OF buddy_relD(5) [OF Suc.prems(2)] k sp(3) db] .
    have da: "block_frames a k \<inter> free_frames (L(k := ?b # L k)) = {}"
      unfolding ff using sp(4,5) Suc.prems(6) by blast
    obtain s' L' where s': "alloc_split a j k s1 = Some s'" "buddy_rel s' L'"
      "free_frames L' = free_frames (L(k := ?b # L k)) \<union> (block_frames a k - block_frames a j)"
      "block_ok a j" "block_frames a j \<subseteq> block_frames a k"
      "mem_eq_off (block_frames a k - block_frames a j) (ram s1) (ram s')"
      "buddy.more s' = buddy.more s1"
      using Suc.IH [OF _ s1(2) jk k sp(2) da] by blast
    show ?thesis
    proof (rule Suc.prems(1))
      show "alloc_split a j (Suc k) s = Some s'"
        using jk sp(1) s1(1) s'(1) by (subst alloc_split.simps) simp
      show "free_frames L' = free_frames L \<union> (block_frames a (Suc k) - block_frames a j)"
        unfolding s'(3) ff sp(4) using s'(5) sp(5) by blast
      show "block_frames a j \<subseteq> block_frames a (Suc k)" using s'(5) sp(4) by blast
      have "{frame ?b} \<union> (block_frames a k - block_frames a j) \<subseteq> block_frames a (Suc k) - block_frames a j"
        using sp(4,5) s'(5) frame_in_block [of ?b k] by blast
      then show "mem_eq_off (block_frames a (Suc k) - block_frames a j) (ram s) (ram s')"
        using mem_eq_off_trans [OF s1(3) s'(6)] by blast
      show "buddy.more s' = buddy.more s" using s'(7) s1(4) by simp
    qed fact+
  qed
qed

lemma buddy_rel_alloc:
  assumes rel: "buddy_rel s L"
  shows "(buddy_alloc j s = Some (None, s) \<and> (\<forall>k\<in>{j..<MAX_ORDER}. L k = [])) \<or>
         (\<exists>a s' L'. buddy_alloc j s = Some (Some a, s') \<and> buddy_rel s' L' \<and> block_ok a j
            \<and> block_frames a j \<subseteq> free_frames L \<and> free_frames L' = free_frames L - block_frames a j
            \<and> mem_eq_off (free_frames L - block_frames a j) (ram s) (ram s')
            \<and> buddy.more s' = buddy.more s)"
proof (cases "find (\<lambda>k. 0 < free_counts s ! k) [j..<MAX_ORDER]")
  case None
  then have "\<forall>k\<in>{j..<MAX_ORDER}. L k = []"
    using buddy_relD(4) [OF rel] by (auto simp: find_None_iff)
  with None buddy_rel_check [OF rel] show ?thesis by (simp add: buddy_alloc_def)
next
  case (Some k)
  then have k: "j \<le> k" "k < MAX_ORDER" "0 < free_counts s ! k" by (auto dest!: find_SomeD)
  then obtain a xs where L: "L k = a # xs"
    using buddy_relD(4) [OF rel k(2)] by (cases "L k") auto
  note rm = blocks_ok_remove [OF buddy_relD(5) [OF rel] k(2), of "[]" a xs, simplified, OF L]
  obtain s1 where s1: "pop_block k s = Some (a, s1)" "buddy_rel s1 (L(k := xs))"
    "ram s1 = ram s" "buddy.more s1 = buddy.more s"
    using buddy_rel_pop [OF rel k(2) L] .
  have "block_frames a k \<inter> free_frames (L(k := xs)) = {}" unfolding rm(2) by blast
  then obtain s' L' where s': "alloc_split a j k s1 = Some s'" "buddy_rel s' L'"
    "free_frames L' = free_frames (L(k := xs)) \<union> (block_frames a k - block_frames a j)"
    "block_ok a j" "block_frames a j \<subseteq> block_frames a k"
    "mem_eq_off (block_frames a k - block_frames a j) (ram s1) (ram s')" "buddy.more s' = buddy.more s1"
    using buddy_rel_alloc_split [OF s1(2) k(1,2) rm(4)] by blast
  have "buddy_alloc j s = Some (Some a, s')"
    using Some s1(1) s'(1) buddy_rel_check [OF rel] buddy_rel_check [OF s'(2)]
    by (simp add: buddy_alloc_def)
  moreover have "free_frames L' = free_frames L - block_frames a j"
    unfolding s'(3) rm(2) using rm(3) s'(5) by blast
  moreover have "mem_eq_off (free_frames L - block_frames a j) (ram s) (ram s')"
    using s'(6) s1(3) rm(3) by (auto intro: mem_eq_off_mono)
  moreover have "block_frames a j \<subseteq> free_frames L" using s'(5) rm(3) by blast
  moreover have "buddy.more s' = buddy.more s" using s'(7) s1(4) by simp
  ultimately show ?thesis using s'(2,4) by blast
qed

section \<open>Release\<close>

lemma xor_pow2_nat:
  assumes "2 ^ k dvd (f::nat)"
  shows "f XOR 2 ^ k = (if 2 ^ Suc k dvd f then f + 2 ^ k else f - 2 ^ k)"
    and "\<not> 2 ^ Suc k dvd f \<Longrightarrow> 2 ^ k \<le> f \<and> 2 ^ Suc k dvd f - 2 ^ k"
proof -
  from assms obtain q where q: "f = 2 ^ k * q" by blast
  have d: "2 ^ Suc k dvd f \<longleftrightarrow> even q" by (simp add: q mult.commute)
  have "f XOR 2 ^ k = push_bit k (q XOR Suc 0)"
    by (simp add: q push_bit_xor) (simp add: push_bit_eq_mult mult.commute)
  also have "\<dots> = (if even q then f + 2 ^ k else f - 2 ^ k)"
    by (simp add: xor_Suc_0_eq push_bit_eq_mult q algebra_simps)
  finally show "f XOR 2 ^ k = (if 2 ^ Suc k dvd f then f + 2 ^ k else f - 2 ^ k)"
    unfolding d .
  assume "\<not> 2 ^ Suc k dvd f"
  then obtain r where "q = Suc (2 * r)" using d by (auto elim: oddE)
  then show "2 ^ k \<le> f \<and> 2 ^ Suc k dvd f - 2 ^ k" by (simp add: q algebra_simps)
qed


lemma frame_buddy_of:
  assumes "block_ok a k" and "k < MAX_ORDER"
  shows "unat (buddy_of a k) = 4096 * (frame a XOR 2 ^ k)"
proof -
  note fb = block_ok_frame_bound [OF assms(1)]
  have lt: "frame a XOR 2 ^ k \<le> 2 ^ 35"
    using fb xor_pow2_nat(1) [OF block_ok_frame_dvd [OF assms(1)]] by (auto split: if_splits)
  have "k < LENGTH(64)" using assms(2) by (simp add: MAX_ORDER_def)
  then have p: "unat (push_bit k 1 :: u64) = 2 ^ k" by (simp add: unat_pow2)
  have "unat (a div PAGE_SIZE) = frame a" by (simp add: unat_div_distrib PAGE_SIZE_def frame_def)
  then have x: "unat ((a div PAGE_SIZE) XOR push_bit k 1) = frame a XOR 2 ^ k"
    using p by (simp add: unsigned_xor_eq)
  have "unat (buddy_of a k) = (frame a XOR 2 ^ k) * 4096"
    using lt unfolding buddy_of_def unat_word_ariths x by (simp add: PAGE_SIZE_def)
  then show ?thesis by simp
qed


text \<open>The buddy of a block, when it is itself a block, is the other half of the block one order up.\<close>

lemma block_merge:
  assumes a: "block_ok a k" and b: "block_ok (buddy_of a k) k" and k: "k < MAX_ORDER"
  shows "block_ok (min a (buddy_of a k)) (Suc k)"
    and "block_frames (min a (buddy_of a k)) (Suc k) = block_frames a k \<union> block_frames (buddy_of a k) k"
proof -
  let ?b = "buddy_of a k"
  have ub: "unat ?b = 4096 * (frame a XOR 2 ^ k)" by (rule frame_buddy_of [OF a k])
  then have fb: "frame ?b = frame a XOR 2 ^ k" by (simp add: frame_def)
  note ua = block_ok_unat [OF a]
  note x = xor_pow2_nat [OF block_ok_frame_dvd [OF a]]
  note bounds = block_ok_frame_bound [OF a] block_ok_frame_bound [OF b]
  have "block_ok (min a ?b) (Suc k) \<and>
    block_frames (min a ?b) (Suc k) = block_frames a k \<union> block_frames ?b k"
  proof (cases "2 ^ Suc k dvd frame a")
    case True
    then have f: "frame ?b = frame a + 2 ^ k" using x(1) fb by simp
    then have "a \<le> ?b" using ua block_ok_unat [OF b] by (simp add: word_le_nat_alt)
    then have "min a ?b = a" by simp
    moreover have "block_ok a (Suc k)"
      using ua True bounds f by (intro block_okI [of a "frame a"]) auto
    ultimately show ?thesis using block_frames_Suc [OF f] by simp
  next
    case False
    then have f: "frame a = frame ?b + 2 ^ k" and d: "2 ^ Suc k dvd frame ?b"
      using x fb by auto
    then have "?b \<le> a" using ua block_ok_unat [OF b] by (simp add: word_le_nat_alt)
    then have "min a ?b = ?b" by (simp add: min_absorb2)
    moreover have "block_ok ?b (Suc k)"
      using block_ok_unat [OF b] d bounds f by (intro block_okI [of ?b "frame ?b"]) auto
    ultimately show ?thesis using block_frames_Suc [OF f] by auto
  qed
  then show "block_ok (min a ?b) (Suc k)"
    and "block_frames (min a ?b) (Suc k) = block_frames a k \<union> block_frames ?b k" by auto
qed

lemma buddy_rel_free_merge:
  assumes "buddy_rel s L" and "k < MAX_ORDER" and "block_ok a k"
    and "block_frames a k \<inter> free_frames L = {}"
  obtains a' k' s' L' where "free_merge a k s = Some (a', k', s')" and "buddy_rel s' L'"
    and "k' < MAX_ORDER" and "block_ok a' k'" and "block_frames a' k' \<inter> free_frames L' = {}"
    and "block_frames a k \<subseteq> block_frames a' k'"
    and "block_frames a' k' \<union> free_frames L' = block_frames a k \<union> free_frames L"
    and "mem_eq_off (free_frames L) (ram s) (ram s')" and "buddy.more s' = buddy.more s"
  using assms
proof (induction a k s arbitrary: L thesis rule: free_merge.induct)
  case (1 a k s)
  let ?b = "buddy_of a k"
  show ?case
  proof (cases "k < MAX_ORDER - 1 \<and> ?b \<in> set (L k)")
    case False
    then have "free_merge a k s = Some (a, k, s)"
      using buddy_rel_remove(1) [OF 1(3,4)] by (subst free_merge.simps) auto
    then show ?thesis using 1(2) [of a k s L] 1(3-) by auto
  next
    case True
    then obtain xs ys where L: "L k = xs @ ?b # ys" by (auto simp: in_set_conv_decomp)
    let ?s = "unlink k (prev_of xs) ?b s" and ?L = "L(k := xs @ ys)"
    note rm = blocks_ok_remove [OF buddy_relD(5) [OF 1(3)] 1(4) L]
    note un = buddy_rel_unlink [OF 1(3,4) L]
    note mg = block_merge [OF 1(5) rm(4) 1(4)]
    have r: "remove_from_list ?b k s = Some (True, ?s)" by (rule buddy_rel_remove(2) [OF 1(3,4) L])
    have disj: "block_frames (min a ?b) (k + 1) \<inter> free_frames ?L = {}"
      using 1(6) unfolding Suc_eq_plus1 [symmetric] mg(2) rm(2) by blast
    have ok: "block_ok (min a ?b) (k + 1)" "k + 1 < MAX_ORDER" using mg(1) True by auto
    obtain a' k' s' L' where fm: "free_merge (min a ?b) (k + 1) ?s = Some (a', k', s')"
      "buddy_rel s' L'" "k' < MAX_ORDER" "block_ok a' k'" "block_frames a' k' \<inter> free_frames L' = {}"
      "block_frames (min a ?b) (k + 1) \<subseteq> block_frames a' k'"
      "block_frames a' k' \<union> free_frames L' = block_frames (min a ?b) (k + 1) \<union> free_frames ?L"
      "mem_eq_off (free_frames ?L) (ram ?s) (ram s')" "buddy.more s' = buddy.more ?s"
      using True by - (rule 1(1) [OF _ refl r refl TrueI _ un(1) ok(2,1) disj]; blast)
    show ?thesis
    proof (rule 1(2))
      show "free_merge a k s = Some (a', k', s')"
        using True r fm(1) by (subst free_merge.simps) (simp add: Let_def)
      show "block_frames a k \<subseteq> block_frames a' k'" using fm(6) mg(2) by auto
      show "block_frames a' k' \<union> free_frames L' = block_frames a k \<union> free_frames L"
        using fm(7) rm(2,3) mg(2) by auto
      show "mem_eq_off (free_frames L) (ram s) (ram s')"
        using mem_eq_off_trans [OF un(2) fm(8)] rm(2) by (auto intro: mem_eq_off_mono)
      show "buddy.more s' = buddy.more s" using fm(9) un(3) by simp
    qed fact+
  qed
qed

lemma buddy_rel_free:
  assumes rel: "buddy_rel s L" and "k < MAX_ORDER" and "block_ok a k"
    and "block_frames a k \<inter> free_frames L = {}"
  obtains s' L' where "buddy_free a k s = Some s'" and "buddy_rel s' L'"
    and "free_frames L' = block_frames a k \<union> free_frames L"
    and "mem_eq_off (block_frames a k \<union> free_frames L) (ram s) (ram s')" and "buddy.more s' = buddy.more s"
proof -
  obtain a' k' s1 L1 where fm: "free_merge a k s = Some (a', k', s1)" "buddy_rel s1 L1"
    "k' < MAX_ORDER" "block_ok a' k'" "block_frames a' k' \<inter> free_frames L1 = {}"
    "block_frames a k \<subseteq> block_frames a' k'"
    "block_frames a' k' \<union> free_frames L1 = block_frames a k \<union> free_frames L"
    "mem_eq_off (free_frames L) (ram s) (ram s1)" "buddy.more s1 = buddy.more s"
    using buddy_rel_free_merge [OF assms] .
  obtain s' where s': "push_block a' k' s1 = Some s'" "buddy_rel s' (L1(k' := a' # L1 k'))"
    "mem_eq_off {frame a'} (ram s1) (ram s')" "buddy.more s' = buddy.more s1"
    using buddy_rel_push [OF fm(2-5)] .
  show ?thesis
  proof (rule that)
    show "buddy_free a k s = Some s'"
      using buddy_rel_check [OF rel] buddy_rel_check [OF s'(2)] fm(1) s'(1) by (simp add: buddy_free_def)
    show "buddy_rel s' (L1(k' := a' # L1 k'))" by fact
    show "free_frames (L1(k' := a' # L1 k')) = block_frames a k \<union> free_frames L"
      using blocks_ok_insert(2) [OF buddy_relD(5) [OF fm(2)] fm(3-5)] fm(7) by simp
    have "frame a' \<in> block_frames a k \<union> free_frames L" using fm(7) frame_in_block by blast
    then show "mem_eq_off (block_frames a k \<union> free_frames L) (ram s) (ram s')"
      using mem_eq_off_trans [OF fm(8) s'(3)] by (auto intro: mem_eq_off_mono)
    show "buddy.more s' = buddy.more s" using s'(4) fm(9) by simp
  qed
qed

section \<open>Handing memory to the allocator\<close>

lemma max_order_for_fits:
  assumes "4096 \<le> unat remaining"
  shows "4096 * 2 ^ max_order_for addr remaining \<le> unat remaining"
    and "2 ^ max_order_for addr remaining dvd frame addr"
proof -
  let ?P = "\<lambda>k. order_to_size k \<le> remaining \<and> (addr div PAGE_SIZE) AND (push_bit k 1 - 1) = 0"
  have "0 \<in> set (rev [0..<MAX_ORDER])" by (simp add: MAX_ORDER_def)
  moreover have "?P 0" using assms by (simp add: order_to_size_def PAGE_SIZE_def word_le_nat_alt)
  ultimately have "find ?P (rev [0..<MAX_ORDER]) \<noteq> None" unfolding find_None_iff by blast
  then obtain k where k: "find ?P (rev [0..<MAX_ORDER]) = Some k" by blast
  then have "?P k" and "k < MAX_ORDER" by (auto dest!: find_SomeD)
  then have sz: "4096 * 2 ^ k \<le> unat remaining"
    using unat_order_to_size [of k] by (simp add: word_le_nat_alt)
  have fr: "unat (addr div PAGE_SIZE) = frame addr"
    by (simp add: unat_div_distrib PAGE_SIZE_def frame_def)
  have "take_bit k (addr div PAGE_SIZE) = 0"
    using \<open>?P k\<close> by (simp add: take_bit_eq_mask mask_eq_exp_minus_1)
  then have "unat (take_bit k (addr div PAGE_SIZE)) = 0" by (simp only: unat_0)
  then have "2 ^ k dvd frame addr" by (simp add: unsigned_take_bit_eq fr take_bit_eq_0_iff)
  with sz k show "4096 * 2 ^ max_order_for addr remaining \<le> unat remaining"
    and "2 ^ max_order_for addr remaining dvd frame addr" by (auto simp: max_order_for_def)
qed

lemma buddy_rel_add_region_loop:
  assumes "buddy_rel s L" and "unat addr = 4096 * f" and "unat end' = 4096 * e" and "0 < f"
    and "f \<le> e" and "e \<le> 2 ^ 35" and "{f..<e} \<inter> free_frames L = {}"
  obtains s' L' where "add_region_loop addr end' s = Some s'" and "buddy_rel s' L'"
    and "free_frames L' = {f..<e} \<union> free_frames L"
    and "mem_eq_off {f..<e} (ram s) (ram s')" and "buddy.more s' = buddy.more s"
  using assms
proof (induction addr end' s arbitrary: L f thesis rule: add_region_loop.induct)
  case (1 addr end' s)
  have lt: "unat addr + unat PAGE_SIZE < 2 ^ LENGTH(64)" using 1(4,7,8) by (simp add: PAGE_SIZE_def)
  have np: "checked_add addr PAGE_SIZE = Some (addr + PAGE_SIZE)" using lt by (rule checked_add_ok)
  have "unat (addr + PAGE_SIZE) = 4096 * (f + 1)"
    using unat_add_exact [OF lt] 1(4) by (simp add: PAGE_SIZE_def)
  then have cond: "addr + PAGE_SIZE \<le> end' \<longleftrightarrow> f < e" using 1(5) by (auto simp: word_le_nat_alt)
  show ?case
  proof (cases "f < e")
    case False
    then have "add_region_loop addr end' s = Some s" and "f = e"
      using np cond 1(7) by (auto simp: add_region_loop.simps [of addr])
    then show ?thesis using 1(2) [of s L] 1(3) by simp
  next
    case True
    have le: "addr \<le> end'" using 1(4,5,7) by (simp add: word_le_nat_alt)
    then have rem: "checked_sub end' addr = Some (end' - addr)" by (rule checked_sub_ok)
    have ur: "unat (end' - addr) = 4096 * (e - f)"
      using le 1(4,5) by (simp add: unat_sub_exact diff_mult_distrib2)
    define k where "k = max_order_for addr (end' - addr)"
    have k: "k < MAX_ORDER" unfolding k_def by (rule max_order_for_less)
    have fa: "frame addr = f" using 1(4) by (simp add: frame_def)
    have "4096 \<le> unat (end' - addr)" using ur True by simp
    note fits = max_order_for_fits [OF this, of addr, folded k_def]
    have "4096 * 2 ^ k \<le> 4096 * (e - f)" using fits(1) ur by simp
    then have ke: "f + 2 ^ k \<le> e" using True by (simp add: nat_mult_le_cancel1)
    have ok: "block_ok addr k"
      using 1(4,6,8) ke fits(2) fa by (intro block_okI [of addr f]) auto
    have bf: "block_frames addr k = {f..<f + 2 ^ k}" by (simp add: block_frames_def fa)
    have sub: "{f..<f + 2 ^ k} \<subseteq> {f..<e}" "{f + 2 ^ k..<e} \<subseteq> {f..<e}"
      "{f..<f + 2 ^ k} \<inter> {f + 2 ^ k..<e} = {}" using ke by auto
    have disj: "block_frames addr k \<inter> free_frames L = {}" using 1(9) sub unfolding bf by blast
    obtain s1 where s1: "push_block addr k s = Some s1" "buddy_rel s1 (L(k := addr # L k))"
      "mem_eq_off {frame addr} (ram s) (ram s1)" "buddy.more s1 = buddy.more s"
      using buddy_rel_push [OF 1(3) k ok disj] .
    have ff: "free_frames (L(k := addr # L k)) = block_frames addr k \<union> free_frames L"
      using blocks_ok_insert(2) [OF buddy_relD(5) [OF 1(3)] k ok disj] .
    have sz: "unat (order_to_size k) = 4096 * 2 ^ k" using k by (intro unat_order_to_size) simp
    have "4096 * (f + 2 ^ k) \<le> 4096 * 2 ^ 35" using ke 1(8) by (intro mult_le_mono2) simp
    then have lt': "unat addr + unat (order_to_size k) < 2 ^ LENGTH(64)"
      using 1(4) sz by (simp add: distrib_left)
    have ad: "checked_add addr (order_to_size k) = Some (addr + order_to_size k)"
      using lt' by (rule checked_add_ok)
    have ua: "unat (addr + order_to_size k) = 4096 * (f + 2 ^ k)"
      using unat_add_exact [OF lt'] 1(4) sz by (simp add: distrib_left)
    have dj: "{f + 2 ^ k..<e} \<inter> free_frames (L(k := addr # L k)) = {}"
      using 1(9) sub unfolding ff bf by blast
    have pos: "0 < f + 2 ^ k" by simp
    obtain s' L' where s': "add_region_loop (addr + order_to_size k) end' s1 = Some s'" "buddy_rel s' L'"
      "free_frames L' = {f + 2 ^ k..<e} \<union> free_frames (L(k := addr # L k))"
      "mem_eq_off {f + 2 ^ k..<e} (ram s1) (ram s')" "buddy.more s' = buddy.more s1"
      using 1(1) [OF np _ rem k_def s1(1) ad _ s1(2) ua 1(5) pos ke 1(8) dj] cond True by metis
    show ?thesis
    proof (rule 1(2))
      show "add_region_loop addr end' s = Some s'"
        using np cond True rem s1(1) ad s'(1)
        by (simp add: add_region_loop.simps [of addr] k_def [symmetric])
      show "free_frames L' = {f..<e} \<union> free_frames L" using ke unfolding s'(3) ff bf by auto
      have "{frame addr} \<union> {f + 2 ^ k..<e} \<subseteq> {f..<e}" using True fa by auto
      then show "mem_eq_off {f..<e} (ram s) (ram s')"
        using mem_eq_off_trans [OF s1(3) s'(4)] mem_eq_off_mono by blast
      show "buddy.more s' = buddy.more s" using s'(5) s1(4) by simp
    qed fact+
  qed
qed

lemma buddy_rel_new: "buddy_rel (buddy_new m) (\<lambda>k. [])"
  by (simp add: buddy_rel_def buddy_new_def blocks_ok_def blocks_def disjoint_blocks_def)

section \<open>The abstraction: lists and frames of a state\<close>

text \<open>The list of order \<open>k\<close> that a state represents, and the frames it holds free.\<close>

definition free_list :: "'a buddy_scheme \<Rightarrow> nat \<Rightarrow> u64 list" where
  "free_list s k = chain (ram s) (free_counts s ! k) (free_heads s ! k)"

definition buddy_inv :: "'a buddy_scheme \<Rightarrow> bool" where
  "buddy_inv s \<longleftrightarrow> buddy_rel s (free_list s)"

definition avail :: "'a buddy_scheme \<Rightarrow> nat set" where
  "avail s = free_frames (free_list s)"

lemma free_frames_cong:
  assumes "\<And>k. k < MAX_ORDER \<Longrightarrow> L k = L' k"
  shows "free_frames L = free_frames L'" and "blocks_ok L = blocks_ok L'"
proof -
  have "blocks L = blocks L'" using assms by (auto simp: blocks_def)
  then show "free_frames L = free_frames L'" and "blocks_ok L = blocks_ok L'"
    using assms by (auto simp: free_frames_def blocks_ok_def)
qed

lemma buddy_rel_unique:
  assumes "buddy_rel s L"
  shows "buddy_inv s" and "avail s = free_frames L"
    and "k < MAX_ORDER \<Longrightarrow> free_list s k = L k"
proof -
  have eq: "free_list s k = L k" if "k < MAX_ORDER" for k
    using buddy_relD(3,4) [OF assms that] linked_chain by (metis free_list_def)
  then show "k < MAX_ORDER \<Longrightarrow> free_list s k = L k" .
  show "avail s = free_frames L" unfolding avail_def using eq by (rule free_frames_cong)
  show "buddy_inv s"
    using assms eq free_frames_cong(2) [OF eq] unfolding buddy_inv_def buddy_rel_def by simp
qed

lemma avail_bound: "buddy_inv s \<Longrightarrow> f \<in> avail s \<Longrightarrow> 0 < f \<and> f < 2 ^ 35"
  unfolding buddy_inv_def avail_def free_frames_def
  using blocks_ok_listD(2) [OF buddy_relD(5)] block_ok_frame_bound
  by (fastforce simp: blocks_def block_frames_def)

text \<open>Writes outside the free frames do not disturb the lists threaded through them.\<close>

lemma buddy_rel_ram:
  assumes "buddy_rel s L" and "mem_eq_off F (ram s) m" and "F \<inter> free_frames L = {}"
  shows "buddy_rel (s\<lparr>ram := m\<rparr>) L"
proof -
  have "linked m (free_heads s ! k) (L k)" if k: "k < MAX_ORDER" for k
  proof (rule linked_mem_eq [OF buddy_relD(3) [OF assms(1) k] assms(2)])
    fix x assume "x \<in> set (L k)"
    then show "in_window x \<and> frame x \<notin> F"
      using buddy_rel_window [OF assms(1) k] in_free_frames [OF k, of x L] frame_in_block [of x k] assms(3)
      by blast
  qed
  with assms(1) show ?thesis by (simp add: buddy_rel_def)
qed

section \<open>Clients of the allocator\<close>

text \<open>
  The blocks a client holds, and every interaction it may have: a successful or failed allocation,
  giving back a block it holds, and arbitrary writes to the frames of blocks it holds.
\<close>

type_synonym held = "(u64 \<times> nat) list"

definition held_frames :: "held \<Rightarrow> nat set" where
  "held_frames H = (\<Union>(a, k)\<in>set H. block_frames a k)"

primrec held_ok :: "held \<Rightarrow> bool" where
  "held_ok [] \<longleftrightarrow> True"
| "held_ok (b # H) \<longleftrightarrow> snd b < MAX_ORDER \<and> block_ok (fst b) (snd b) \<and>
     block_frames (fst b) (snd b) \<inter> held_frames H = {} \<and> held_ok H"

inductive client_step :: "'a buddy_scheme \<times> held \<Rightarrow> 'a buddy_scheme \<times> held \<Rightarrow> bool" where
  client_alloc: "buddy_alloc k s = Some (Some a, s') \<Longrightarrow> client_step (s, H) (s', (a, k) # H)"
| client_fail: "buddy_alloc k s = Some (None, s') \<Longrightarrow> client_step (s, H) (s', H)"
| client_free: "buddy_free a k s = Some s' \<Longrightarrow> client_step (s, xs @ (a, k) # ys) (s', xs @ ys)"
| client_write: "mem_eq_off (held_frames H) (ram s) m \<Longrightarrow> client_step (s, H) (s\<lparr>ram := m\<rparr>, H)"

inductive_cases client_stepE: "client_step (s, H) (s', H')"

lemma held_frames_simps [simp]:
  "held_frames [] = {}" "held_frames ((a, k) # H) = block_frames a k \<union> held_frames H"
  "held_frames (xs @ ys) = held_frames xs \<union> held_frames ys"
  by (auto simp: held_frames_def)

lemma held_ok_remove:
  assumes "held_ok (xs @ (a, k) # ys)"
  shows "held_ok (xs @ ys)" and "k < MAX_ORDER" and "block_ok a k"
    and "held_frames (xs @ ys) = held_frames (xs @ (a, k) # ys) - block_frames a k"
  using assms by (induction xs) (auto simp: held_frames_def)

text \<open>What every interaction keeps: no frame is lost, handed out twice, or both held and free.\<close>

definition partitioned :: "nat set \<Rightarrow> 'a buddy_scheme \<times> held \<Rightarrow> bool" where
  "partitioned F c \<longleftrightarrow> buddy_inv (fst c) \<and> held_ok (snd c) \<and>
     held_frames (snd c) \<inter> avail (fst c) = {} \<and> held_frames (snd c) \<union> avail (fst c) = F"

lemma buddy_alloc_inv:
  assumes "buddy_inv s" and "buddy_alloc k s = Some (r, s')"
  shows "buddy_inv s'" and "buddy.more s' = buddy.more s"
    and "r = None \<Longrightarrow> s' = s"
    and "r = Some a \<Longrightarrow> k < MAX_ORDER \<and> block_ok a k \<and> block_frames a k \<subseteq> avail s \<and>
           avail s' = avail s - block_frames a k \<and> mem_eq_off (avail s') (ram s) (ram s')"
proof -
  note rel = assms(1) [unfolded buddy_inv_def]
  have km: "k < MAX_ORDER" if "r \<noteq> None"
    using that assms(2) by (auto simp: buddy_alloc_def bind_eq_Some_conv dest!: find_SomeD
        split: option.splits)
  from buddy_rel_alloc [OF rel, of k] show "buddy_inv s'"
    using assms buddy_rel_unique(1) by auto
  from buddy_rel_alloc [OF rel, of k] show "buddy.more s' = buddy.more s" using assms by auto
  from buddy_rel_alloc [OF rel, of k] show "r = None \<Longrightarrow> s' = s" using assms by auto
  assume r: "r = Some a"
  with buddy_rel_alloc [OF rel, of k] assms(2) obtain L' where
    al: "buddy_rel s' L'" "block_ok a k" "block_frames a k \<subseteq> avail s" "free_frames L' = avail s - block_frames a k"
    "mem_eq_off (avail s - block_frames a k) (ram s) (ram s')"
    unfolding avail_def by auto
  with buddy_rel_unique(2) [OF al(1)] km r show "k < MAX_ORDER \<and> block_ok a k \<and> block_frames a k \<subseteq> avail s \<and>
           avail s' = avail s - block_frames a k \<and> mem_eq_off (avail s') (ram s) (ram s')"
    by simp
qed

lemma buddy_free_inv:
  assumes "buddy_inv s" and "k < MAX_ORDER" and "block_ok a k" and "block_frames a k \<inter> avail s = {}"
  obtains s' where "buddy_free a k s = Some s'" and "buddy_inv s'"
    and "avail s' = block_frames a k \<union> avail s"
    and "mem_eq_off (avail s') (ram s) (ram s')" and "buddy.more s' = buddy.more s"
  using buddy_rel_free [OF assms(1) [unfolded buddy_inv_def] assms(2,3) assms(4) [unfolded avail_def]]
  by (metis avail_def buddy_rel_unique(1,2))

lemma client_step_partitioned:
  assumes "client_step c c'" and "partitioned F c"
  shows "partitioned F c'"
  using assms
proof (induction rule: client_step.induct)
  case (client_alloc k s a s' H)
  then have "buddy_inv s" by (simp add: partitioned_def)
  note al = buddy_alloc_inv(1,4) [OF this client_alloc(1)]
  show ?case using al(1) al(2) [OF refl] client_alloc(2) by (auto simp: partitioned_def)
next
  case (client_fail k s s' H)
  then show ?case using buddy_alloc_inv(3) [of s k None s'] by (auto simp: partitioned_def)
next
  case (client_free a k s s' xs ys)
  then have inv: "buddy_inv s" and ok: "held_ok (xs @ (a, k) # ys)" by (auto simp: partitioned_def)
  note rm = held_ok_remove [OF ok]
  have "block_frames a k \<inter> avail s = {}" using client_free(2) by (auto simp: partitioned_def)
  then obtain s1 where s1: "buddy_free a k s = Some s1" "buddy_inv s1"
    "avail s1 = block_frames a k \<union> avail s"
    using buddy_free_inv [OF inv rm(2,3)] by metis
  then show ?case using client_free rm(1,4) by (auto simp: partitioned_def)
next
  case (client_write H s m)
  then have "buddy_rel (s\<lparr>ram := m\<rparr>) (free_list s)"
    by (intro buddy_rel_ram) (auto simp: partitioned_def buddy_inv_def avail_def)
  from buddy_rel_unique(1,2) [OF this] client_write(2) show ?case
    by (simp add: partitioned_def avail_def)
qed

lemma client_run_partitioned:
  "client_step\<^sup>*\<^sup>* c c' \<Longrightarrow> partitioned F c \<Longrightarrow> partitioned F c'"
  by (induction rule: rtranclp_induct) (auto intro: client_step_partitioned)

lemma buddy_alloc_returns: "buddy_inv s \<Longrightarrow> buddy_alloc k s \<noteq> None"
  using buddy_rel_alloc [of s "free_list s" k] by (auto simp: buddy_inv_def)

section \<open>Properties\<close>

text \<open>
  C2. Allocation of a block of order \<open>k\<close> in a state that satisfies the invariant always returns.
  It fails, leaving the state alone, only when every list of order \<open>k\<close> or more is empty; otherwise
  it returns an aligned block all of whose frames were free, exactly those frames stop being free,
  the invariant is kept, and no byte outside the remaining free frames is changed.
\<close>

theorem buddy_alloc_correct:
  assumes "buddy_inv s"
  shows "\<exists>r s'. buddy_alloc k s = Some (r, s') \<and> buddy_inv s' \<and>
    (case r of
       None \<Rightarrow> s' = s \<and> (\<forall>j\<in>{k..<MAX_ORDER}. free_list s j = [])
     | Some a \<Rightarrow> block_ok a k \<and> block_frames a k \<subseteq> avail s \<and> avail s' = avail s - block_frames a k
                 \<and> mem_eq_off (avail s') (ram s) (ram s'))"
proof -
  from buddy_alloc_returns [OF assms] obtain r s' where rs: "buddy_alloc k s = Some (r, s')" by fast
  have "\<forall>j\<in>{k..<MAX_ORDER}. free_list s j = []" if "r = None"
    using buddy_rel_alloc [of s "free_list s" k] assms rs that by (auto simp: buddy_inv_def)
  with buddy_alloc_inv [OF assms rs] rs show ?thesis by (cases r) auto
qed

text \<open>
  C3. Releasing a block that is not free always returns; the frames of the block become free again
  (merged with their buddies or not), nothing else does, the invariant is kept and no byte outside
  the free frames is changed.
\<close>

theorem buddy_free_correct:
  assumes "buddy_inv s" and "k < MAX_ORDER" and "block_ok a k" and "block_frames a k \<inter> avail s = {}"
  shows "\<exists>s'. buddy_free a k s = Some s' \<and> buddy_inv s' \<and> avail s' = block_frames a k \<union> avail s \<and>
           mem_eq_off (avail s') (ram s) (ram s')"
  using buddy_free_inv [OF assms] by metis


lemma add_region_inv:
  assumes "buddy_inv s" and "0 < unat base" and "unat base + unat sz \<le> 2 ^ 47"
    and "{(unat base + 4095) div 4096 ..< (unat base + unat sz) div 4096} \<inter> avail s = {}"
  shows "\<exists>s'. add_region base sz s = Some s' \<and> buddy_inv s' \<and>
           avail s' = {(unat base + 4095) div 4096 ..< (unat base + unat sz) div 4096} \<union> avail s \<and>
           mem_eq_off (avail s') (ram s) (ram s')"
proof -
  let ?f = "(unat base + 4095) div 4096" and ?e = "(unat base + unat sz) div 4096"
  have small: "unat base + 4096 < 2 ^ 64" "unat base + unat sz < 2 ^ LENGTH(64)" using assms(3) by auto
  then obtain start where st: "align_up base PAGE_SIZE = Some start"
    using align_up_page_None [of base] by (fastforce simp: PAGE_SIZE_def)
  then have us: "unat start = 4096 * ?f" by (simp add: align_up_page_eq_Some PAGE_SIZE_def)
  have top: "checked_add base sz = Some (base + sz)" using small(2) by (rule checked_add_ok)
  have ue: "unat (align_down (base + sz) PAGE_SIZE) = 4096 * ?e"
    using unat_add_exact [OF small(2)] by (simp add: PAGE_SIZE_def unat_align_down_page frame_def)
  have le: "align_down (base + sz) PAGE_SIZE \<le> start \<longleftrightarrow> ?e \<le> ?f"
    unfolding word_le_nat_alt us ue by simp
  show ?thesis
  proof (cases "?e \<le> ?f")
    case True
    then have "add_region base sz s = Some s" using st top le by (simp add: add_region_def)
    with True assms(1) show ?thesis by simp
  next
    case False
    have pos: "0 < ?f" using assms(2) by (simp add: div_greater_zero_iff)
    have "?e \<le> 2 ^ 47 div 4096" using assms(3) by (intro div_le_mono)
    then have e: "?e \<le> 2 ^ 35" by simp
    from False have fe: "?f \<le> ?e" by simp
    obtain s' L' where s': "add_region_loop start (align_down (base + sz) PAGE_SIZE) s = Some s'" "buddy_rel s' L'"
      "free_frames L' = {?f..<?e} \<union> avail s" "mem_eq_off {?f..<?e} (ram s) (ram s')"
      using buddy_rel_add_region_loop [OF assms(1) [unfolded buddy_inv_def] us ue pos fe e
          assms(4) [unfolded avail_def]] unfolding avail_def by metis
    have "add_region base sz s = Some s'"
      using st top le False s'(1) buddy_rel_check [OF s'(2)] by (simp add: add_region_def)
    moreover have "avail s' = {?f..<?e} \<union> avail s" using buddy_rel_unique(2) [OF s'(2)] s'(3) by simp
    ultimately show ?thesis
      using buddy_rel_unique(1) [OF s'(2)] mem_eq_off_mono [OF s'(4)] by simp
  qed
qed

text \<open>
  C4. Handing the region \<open>[base, base + size)\<close> below the 128 TiB limit of the direct map to the
  allocator frees exactly the whole pages inside the region, provided page 0 is not among them and
  none of them was free already.
\<close>

theorem add_region_correct:
  assumes "buddy_inv s" and "0 < unat base" and "unat base + unat sz \<le> 2 ^ 47"
    and "{(unat base + 4095) div 4096 ..< (unat base + unat sz) div 4096} \<inter> avail s = {}"
  shows "\<exists>s'. add_region base sz s = Some s' \<and> buddy_inv s' \<and>
           avail s' = {(unat base + 4095) div 4096 ..< (unat base + unat sz) div 4096} \<union> avail s \<and>
           mem_eq_off (avail s') (ram s) (ram s')"
  using assms by (rule add_region_inv)

text \<open>
  C1. Any client that starts with nothing and allocates, releases what it holds and writes to the
  frames it holds, in any order: the frames it holds and the free frames always partition the
  frames that were free at the start, held blocks never overlap, and neither a further allocation
  nor the release of a held block can panic.
\<close>

theorem buddy_clients_safe:
  assumes "buddy_inv s0" and "client_step\<^sup>*\<^sup>* (s0, []) (s, H)"
  shows "buddy_inv s \<and> held_ok H \<and> held_frames H \<inter> avail s = {} \<and>
         held_frames H \<union> avail s = avail s0 \<and> (\<forall>k. buddy_alloc k s \<noteq> None) \<and>
         (\<forall>(a, k)\<in>set H. buddy_free a k s \<noteq> None)"
proof -
  have "partitioned (avail s0) (s0, [])" using assms(1) by (simp add: partitioned_def)
  from client_run_partitioned [OF assms(2) this]
  have p: "buddy_inv s" "held_ok H" "held_frames H \<inter> avail s = {}" "held_frames H \<union> avail s = avail s0"
    by (auto simp: partitioned_def)
  have "buddy_free a k s \<noteq> None" if mem: "(a, k) \<in> set H" for a k
  proof -
    from mem obtain xs ys where H: "H = xs @ (a, k) # ys" by (auto simp: in_set_conv_decomp)
    note rm = held_ok_remove [OF p(2) [unfolded H]]
    have "block_frames a k \<inter> avail s = {}" using p(3) H by auto
    then show ?thesis using buddy_free_inv [OF p(1) rm(2,3)] by blast
  qed
  with p buddy_alloc_returns [OF p(1)] show ?thesis by auto
qed

text \<open>
  C6. The integrity check run at the start and the end of every operation of a debug build passes
  exactly when each free list, followed through memory from its head, ends with a null link after
  as many blocks as its counter says, all inside the direct map.
\<close>

theorem check_metadata_integrity_iff:
  "check_metadata_integrity s = Some () \<longleftrightarrow>
     (\<forall>k<MAX_ORDER. linked (ram s) (free_heads s ! k) (free_list s k) \<and>
        length (free_list s k) = free_counts s ! k \<and> (\<forall>a\<in>set (free_list s k). unat a < 2 ^ 47))"
proof -
  have "(\<exists>xs. linked (ram s) (free_heads s ! k) xs \<and> length xs = free_counts s ! k \<and> (\<forall>x\<in>set xs. unat x < 2 ^ 47))
    \<longleftrightarrow> linked (ram s) (free_heads s ! k) (free_list s k) \<and>
        length (free_list s k) = free_counts s ! k \<and> (\<forall>a\<in>set (free_list s k). unat a < 2 ^ 47)" for k
    unfolding free_list_def using linked_chain by metis
  then show ?thesis by (auto simp: check_metadata_integrity_def check_orders_iff)
qed

text \<open>Witnesses: four pages at \<open>0x1000\<close> handed to an empty allocator.\<close>

definition demo0 :: buddy where
  "demo0 = buddy_new \<lparr>ram = (\<lambda>_. 0), free_heads = [], free_counts = []\<rparr>"

definition demo :: buddy where
  "demo = the (add_region 0x1000 0x4000 demo0)"

lemma demo0_ok: "buddy_inv demo0" "avail demo0 = {}"
  using buddy_rel_unique(1,2) [OF buddy_rel_new] by (auto simp: demo0_def free_frames_def blocks_def)

theorem add_region_correct_witness:
  "\<exists>s'. add_region 0x1000 0x4000 demo0 = Some s' \<and> buddy_inv s' \<and> avail s' = {1..<5}"
  using add_region_correct [OF demo0_ok(1), of "0x1000" "0x4000"] by (auto simp: demo0_ok(2))

lemma demo_ok: "buddy_inv demo" "avail demo = {1..<5}"
proof -
  have "buddy_rel demo0 (\<lambda>k. [])" unfolding demo0_def by (rule buddy_rel_new)
  then obtain s' L' where r: "add_region_loop 0x1000 0x5000 demo0 = Some s'" "buddy_rel s' L'"
    "free_frames L' = {1..<5} \<union> free_frames (\<lambda>k. [])"
    by (rule buddy_rel_add_region_loop [where f = 1 and e = 5]) (auto simp: free_frames_def blocks_def)
  then have "add_region 0x1000 0x4000 demo0 = Some s'"
    using buddy_rel_check [OF r(2)]
    by (simp add: add_region_def align_up_def align_down_def checked_add_def checked_sub_def PAGE_SIZE_def)
  then show "buddy_inv demo" and "avail demo = {1..<5}"
    using r(3) buddy_rel_unique(1,2) [OF r(2)] by (auto simp: demo_def free_frames_def blocks_def)
qed

lemma demo_alloc: "map_option fst (buddy_alloc 1 demo) = Some (Some 0x2000)"
  by code_simp

theorem buddy_alloc_correct_witness:
  "\<exists>s'. buddy_alloc 1 demo = Some (Some 0x2000, s') \<and> buddy_inv s' \<and> avail s' = {1, 4}"
proof -
  have "{1..<5} - {2..<4} = {1, 4::nat}" by auto
  then show ?thesis
  using buddy_alloc_correct [OF demo_ok(1), of 1] demo_alloc
  by (auto simp: demo_ok(2) block_frames_def frame_def)
qed

theorem buddy_free_correct_witness:
  "\<exists>s'. buddy_free 0x8000 3 demo = Some s' \<and> buddy_inv s' \<and> avail s' = {8..<16} \<union> {1..<5}"
  using buddy_free_correct [OF demo_ok(1), of 3 "0x8000"]
  by (auto simp: demo_ok(2) block_frames_def frame_def MAX_ORDER_def block_ok_def)

theorem buddy_clients_safe_witness:
  "\<exists>s'. client_step\<^sup>*\<^sup>* (demo, []) (s', [(0x2000, 1)]) \<and> buddy_inv s' \<and>
        {2..<4} \<union> avail s' = {1..<5} \<and> buddy_free 0x2000 1 s' \<noteq> None"
proof -
  obtain s' where "buddy_alloc 1 demo = Some (Some 0x2000, s')" using demo_alloc by auto
  then have "client_step\<^sup>*\<^sup>* (demo, []) (s', [(0x2000, 1)])" by (blast intro: client_alloc)
  moreover note buddy_clients_safe [OF demo_ok(1) this]
  ultimately show ?thesis by (auto simp: demo_ok(2) block_frames_def frame_def)
qed

theorem check_metadata_integrity_iff_witness:
  "check_metadata_integrity demo = Some () \<and> linked (ram demo) (free_heads demo ! 1) (free_list demo 1)"
proof -
  have "check_metadata_integrity demo = Some ()"
    using demo_ok(1) by (auto simp: buddy_inv_def intro: buddy_rel_check)
  moreover have "1 < MAX_ORDER" by (simp add: MAX_ORDER_def)
  ultimately show ?thesis using check_metadata_integrity_iff [of demo] by blast
qed

end
