(* ===== verification/Vma_List.thy ===== *)
theory Vma_List
  imports Buddy
begin

text \<open>
  The list of virtual memory areas of an address space (\<^verbatim>\<open>src/kernel/src/vma.rs\<close>): the
  operations of \<^verbatim>\<open>AddressSpace\<close> that touch only its field \<^verbatim>\<open>vmas\<close>. The contract is a partial
  function from addresses to the attributes of the area there (\<open>area_at\<close>); under the sortedness
  invariant that the source states, the binary searches look that function up, and insertion,
  removal, placement and heap growth update it.
\<close>

section \<open>Areas\<close>

record VMAFlags =
  flag_read :: bool
  flag_write :: bool
  flag_exec :: bool

definition VMAFlags_rw :: VMAFlags where
  "VMAFlags_rw = \<lparr>flag_read = True, flag_write = True, flag_exec = False\<rparr>"

definition VMAFlags_rx :: VMAFlags where
  "VMAFlags_rx = \<lparr>flag_read = True, flag_write = False, flag_exec = True\<rparr>"

definition VMAFlags_r :: VMAFlags where
  "VMAFlags_r = \<lparr>flag_read = True, flag_write = False, flag_exec = False\<rparr>"

datatype VMAKind = Anonymous | Stack | Heap

fun owner_tag :: "VMAKind \<Rightarrow> string" where
  "owner_tag Anonymous = ''vma:anon''"
| "owner_tag Stack = ''vma:stack''"
| "owner_tag Heap = ''vma:heap''"

record VMA =
  vma_start :: u64
  vma_end :: u64
  vma_flags :: VMAFlags
  vma_kind :: VMAKind

definition VMA_new :: "u64 \<Rightarrow> u64 \<Rightarrow> VMAFlags \<Rightarrow> VMAKind \<Rightarrow> VMA" where
  "VMA_new start end' flags kind =
     \<lparr>vma_start = start, vma_end = end', vma_flags = flags, vma_kind = kind\<rparr>"

definition vma_contains :: "VMA \<Rightarrow> u64 \<Rightarrow> bool" where
  "vma_contains v addr \<longleftrightarrow> vma_start v \<le> addr \<and> addr < vma_end v"

definition vma_size :: "VMA \<Rightarrow> u64 option" where
  "vma_size v = checked_sub (vma_end v) (vma_start v)"

definition mergeable_with :: "VMA \<Rightarrow> VMA \<Rightarrow> bool" where
  "mergeable_with v w \<longleftrightarrow> vma_flags v = vma_flags w \<and> vma_kind v = vma_kind w"

section \<open>Operations\<close>

text \<open>
  \<^verbatim>\<open>slice::partition_point\<close>: on a slice whose elements satisfying the predicate all come
  first, the number of those elements.
\<close>

definition partition_point :: "('a \<Rightarrow> bool) \<Rightarrow> 'a list \<Rightarrow> nat" where
  "partition_point P xs = length (takeWhile P xs)"

text \<open>\<^verbatim>\<open>Vec::remove\<close> and \<^verbatim>\<open>Vec::insert\<close> at an index in range.\<close>

definition vec_remove :: "nat \<Rightarrow> 'a list \<Rightarrow> 'a list" where
  "vec_remove i xs = take i xs @ drop (Suc i) xs"

definition vec_insert :: "nat \<Rightarrow> 'a \<Rightarrow> 'a list \<Rightarrow> 'a list" where
  "vec_insert i x xs = take i xs @ x # drop i xs"

definition lower_bound :: "VMA list \<Rightarrow> u64 \<Rightarrow> nat" where
  "lower_bound vmas start = partition_point (\<lambda>v. vma_start v < start) vmas"

definition add_vma :: "VMA list \<Rightarrow> VMA \<Rightarrow> string + VMA list" where
  "add_vma vmas vma =
     (let idx = lower_bound vmas (vma_start vma) in
      if 0 < idx \<and> vma_start vma < vma_end (vmas ! (idx - 1)) then Inl ''VMA overlap''
      else if idx < length vmas \<and> vma_start (vmas ! idx) < vma_end vma then Inl ''VMA overlap''
      else
        let (vmas, merged, insert_idx) =
              (if 0 < idx then
                 let prev = vmas ! (idx - 1) in
                 if vma_end prev = vma_start vma \<and> mergeable_with prev vma
                 then (vec_remove (idx - 1) vmas, vma\<lparr>vma_start := vma_start prev\<rparr>, idx - 1)
                 else (vmas, vma, idx)
               else (vmas, vma, idx));
            (vmas, merged) =
              (if insert_idx < length vmas then
                 let next = vmas ! insert_idx in
                 if vma_end merged = vma_start next \<and> mergeable_with merged next
                 then (vec_remove insert_idx vmas, merged\<lparr>vma_end := vma_end next\<rparr>)
                 else (vmas, merged)
               else (vmas, merged))
        in Inr (vec_insert insert_idx merged vmas))"

definition find_vma :: "VMA list \<Rightarrow> u64 \<Rightarrow> VMA option" where
  "find_vma vmas addr =
     (let idx = partition_point (\<lambda>v. vma_start v \<le> addr) vmas in
      if idx = 0 then None
      else let candidate = vmas ! (idx - 1) in
        if vma_contains candidate addr then Some candidate else None)"

definition remove_vma :: "VMA list \<Rightarrow> u64 \<Rightarrow> VMA option \<times> VMA list" where
  "remove_vma vmas start =
     (let idx = lower_bound vmas start in
      if idx < length vmas \<and> vma_start (vmas ! idx) = start
      then (Some (vmas ! idx), vec_remove idx vmas)
      else (None, vmas))"

definition MMAP_ZONE_START :: u64 where
  "MMAP_ZONE_START = 0x600000000000"

definition MMAP_ZONE_END :: u64 where
  "MMAP_ZONE_END = 0x700000000000"

text \<open>\<^verbatim>\<open>find_free_area\<close>: the loop over the areas with its cursor.\<close>

fun find_free_area_loop :: "VMA list \<Rightarrow> u64 \<Rightarrow> u64 \<Rightarrow> u64 option" where
  "find_free_area_loop [] size' cursor =
     (if size' \<le> saturating_sub MMAP_ZONE_END cursor then Some cursor else None)"
| "find_free_area_loop (v # vs) size' cursor =
     (if MMAP_ZONE_END \<le> vma_start v then
        (if size' \<le> saturating_sub MMAP_ZONE_END cursor then Some cursor else None)
      else if vma_end v \<le> MMAP_ZONE_START then find_free_area_loop vs size' cursor
      else if size' \<le> saturating_sub (vma_start v) cursor then Some cursor
      else find_free_area_loop vs size' (max cursor (vma_end v)))"

definition find_free_area :: "VMA list \<Rightarrow> u64 \<Rightarrow> u64 option" where
  "find_free_area vmas size' = find_free_area_loop vmas size' MMAP_ZONE_START"

definition mmap :: "VMA list \<Rightarrow> u64 \<Rightarrow> u64 \<Rightarrow> VMAFlags \<Rightarrow> VMAKind \<Rightarrow> ((string + u64) \<times> VMA list) option" where
  "mmap vmas addr size' flags kind = do {
     aligned_size \<leftarrow> align_up size' PAGE_SIZE;
     start \<leftarrow> (if addr = 0 then Some (find_free_area vmas aligned_size)
              else map_option Some (align_up addr PAGE_SIZE));
     (case start of
        None \<Rightarrow> Some (Inl ''No free area for mmap'', vmas)
      | Some start \<Rightarrow> do {
          top \<leftarrow> checked_add start size';
          end' \<leftarrow> align_up top PAGE_SIZE;
          (case add_vma vmas (VMA_new start end' flags kind) of
             Inl e \<Rightarrow> Some (Inl e, vmas)
           | Inr vmas' \<Rightarrow> Some (Inr start, vmas'))
        })
   }"

text \<open>\<^verbatim>\<open>extend_heap\<close>: the heap area with the largest end is taken out and put back larger.\<close>

definition best_heap :: "VMA list \<Rightarrow> u64 option \<times> u64" where
  "best_heap vmas =
     fold (\<lambda>v (best_start, best_end).
             if vma_kind v = Heap \<and> best_end < vma_end v then (Some (vma_start v), vma_end v)
             else (best_start, best_end)) vmas (None, 0)"

definition extend_heap :: "VMA list \<Rightarrow> u64 \<Rightarrow> u64 \<Rightarrow> ((string + unit) \<times> VMA list) option" where
  "extend_heap vmas brk_start new_end =
     (case fst (best_heap vmas) of
        Some start \<Rightarrow> do {
          let (removed, vmas) = remove_vma vmas start;
          existing \<leftarrow> removed;
          (case add_vma vmas (VMA_new start new_end (vma_flags existing) (vma_kind existing)) of
             Inl e \<Rightarrow> Some (Inl e, vmas)
           | Inr vmas' \<Rightarrow> Some (Inr (), vmas'))
        }
      | None \<Rightarrow>
          (case add_vma vmas (VMA_new brk_start new_end VMAFlags_rw Heap) of
             Inl e \<Rightarrow> Some (Inl e, vmas)
           | Inr vmas' \<Rightarrow> Some (Inr (), vmas')))"

section \<open>The invariant and the contract\<close>

text \<open>
  The invariant stated at the field \<^verbatim>\<open>vmas\<close>: every area ends before the next one starts. Areas
  may be empty (\<^verbatim>\<open>mmap\<close> of length 0 makes one).
\<close>

definition vmas_ok :: "VMA list \<Rightarrow> bool" where
  "vmas_ok vs \<longleftrightarrow> (\<forall>v\<in>set vs. vma_start v \<le> vma_end v) \<and>
     sorted_wrt (\<lambda>v w. vma_end v \<le> vma_start w) vs"

definition all_nonempty :: "VMA list \<Rightarrow> bool" where
  "all_nonempty vs \<longleftrightarrow> (\<forall>v\<in>set vs. vma_start v < vma_end v)"

type_synonym area = "VMAFlags \<times> VMAKind"

definition vma_area :: "VMA \<Rightarrow> area" where
  "vma_area v = (vma_flags v, vma_kind v)"

definition area_at :: "VMA list \<Rightarrow> u64 \<Rightarrow> area option" where
  "area_at vs a = map_option vma_area (find (\<lambda>v. vma_contains v a) vs)"

lemma area_at_simps [simp]:
  "area_at [] a = None"
  "area_at (v # vs) a = (if vma_contains v a then Some (vma_area v) else area_at vs a)"
  by (auto simp: area_at_def)

lemma area_at_append:
  "area_at (xs @ ys) a = (case area_at xs a of None \<Rightarrow> area_at ys a | Some r \<Rightarrow> Some r)"
  by (induction xs) auto

lemma area_at_None: "area_at vs a = None \<longleftrightarrow> (\<forall>v\<in>set vs. \<not> vma_contains v a)"
  by (induction vs) auto

lemma VMA_new_simps [simp]:
  "vma_start (VMA_new s e f k) = s" "vma_end (VMA_new s e f k) = e"
  "vma_flags (VMA_new s e f k) = f" "vma_kind (VMA_new s e f k) = k"
  "vma_contains (VMA_new s e f k) a \<longleftrightarrow> s \<le> a \<and> a < e"
  "vma_area (VMA_new s e f k) = (f, k)"
  by (simp_all add: VMA_new_def vma_contains_def vma_area_def)

lemma vmas_ok_simps [simp]:
  "vmas_ok []"
  "vmas_ok (v # vs) \<longleftrightarrow> vma_start v \<le> vma_end v \<and> (\<forall>w\<in>set vs. vma_end v \<le> vma_start w) \<and> vmas_ok vs"
  by (auto simp: vmas_ok_def)

lemma vmas_ok_append:
  "vmas_ok (xs @ ys) \<longleftrightarrow> vmas_ok xs \<and> vmas_ok ys \<and> (\<forall>x\<in>set xs. \<forall>y\<in>set ys. vma_end x \<le> vma_start y)"
  by (auto simp: vmas_ok_def sorted_wrt_append)

lemma vmas_ok_start: "vmas_ok vs \<Longrightarrow> v \<in> set vs \<Longrightarrow> vma_start v \<le> vma_end v"
  by (simp add: vmas_ok_def)

lemma vmas_ok_sublist: "vmas_ok (xs @ v # ys) \<Longrightarrow> vmas_ok (xs @ ys)"
  by (auto simp: vmas_ok_append)

text \<open>An area of the list is the only one that contains its addresses.\<close>

lemma area_at_middle:
  assumes "vmas_ok (xs @ v # ys)"
  shows "area_at (xs @ v # ys) a = (if vma_contains v a then Some (vma_area v) else area_at (xs @ ys) a)"
proof -
  have "area_at xs a = None" if "vma_contains v a"
    using assms that by (fastforce simp: area_at_None vmas_ok_append vma_contains_def)
  then show ?thesis by (auto simp: area_at_append split: option.splits)
qed

lemma area_at_removed:
  assumes "vmas_ok (xs @ v # ys)" and "vma_contains v a"
  shows "area_at (xs @ ys) a = None"
  using assms by (fastforce simp: area_at_None vmas_ok_append vma_contains_def)

section \<open>Binary searches\<close>

lemma vmas_split:
  assumes "vmas_ok vs" and "\<And>v w. vma_start v \<le> vma_start w \<Longrightarrow> P w \<Longrightarrow> P v"
  obtains xs ys where "vs = xs @ ys" and "partition_point P vs = length xs"
    and "\<forall>x\<in>set xs. P x" and "\<forall>y\<in>set ys. \<not> P y"
proof (rule that)
  show "vs = takeWhile P vs @ dropWhile P vs" by simp
  show "partition_point P vs = length (takeWhile P vs)" by (simp add: partition_point_def)
  show "\<forall>x\<in>set (takeWhile P vs). P x" by (auto dest: set_takeWhileD)
  show "\<forall>y\<in>set (dropWhile P vs). \<not> P y"
  proof (cases "dropWhile P vs")
    case (Cons w ws)
    then have "\<not> P w" using hd_dropWhile [of P vs] by simp
    moreover have "vmas_ok (takeWhile P vs @ w # ws)" using assms(1) Cons [symmetric] by simp
    then have "\<forall>y\<in>set ws. vma_start w \<le> vma_start y"
      by (auto simp: vmas_ok_append intro: order.trans)
    ultimately show ?thesis using Cons assms(2) by auto
  next
    case Nil
    show ?thesis unfolding Nil by simp
  qed
qed

lemma lower_bound_split:
  assumes "vmas_ok vs"
  obtains xs ys where "vs = xs @ ys" and "lower_bound vs s = length xs"
    and "\<forall>x\<in>set xs. vma_start x < s" and "\<forall>y\<in>set ys. s \<le> vma_start y"
  by (rule vmas_split [OF assms, of "\<lambda>v. vma_start v < s"]) (auto simp: lower_bound_def not_less)

lemma find_vma_find:
  assumes "vmas_ok vs"
  shows "find_vma vs a = find (\<lambda>v. vma_contains v a) vs"
proof -
  obtain xs ys where s: "vs = xs @ ys" "partition_point (\<lambda>v. vma_start v \<le> a) vs = length xs"
    "\<forall>x\<in>set xs. vma_start x \<le> a" "\<forall>y\<in>set ys. \<not> vma_start y \<le> a"
    by (rule vmas_split [OF assms, of "\<lambda>v. vma_start v \<le> a"]) auto
  have ys: "find (\<lambda>v. vma_contains v a) ys = None"
    using s(4) by (auto simp: find_None_iff vma_contains_def)
  show ?thesis
  proof (cases xs rule: rev_cases)
    case Nil
    with s ys show ?thesis by (simp add: find_vma_def)
  next
    case (snoc zs p)
    have "find (\<lambda>v. vma_contains v a) zs = None"
    proof -
      have "\<not> vma_contains z a" if "z \<in> set zs" for z
      proof -
        have "vma_end z \<le> vma_start p" using assms s(1) snoc that by (auto simp: vmas_ok_append)
        moreover have "vma_start p \<le> a" using s(3) snoc by simp
        ultimately show ?thesis by (auto simp: vma_contains_def)
      qed
      then show ?thesis by (auto simp: find_None_iff)
    qed
    then have "find (\<lambda>v. vma_contains v a) vs = (if vma_contains p a then Some p else None)"
      using ys by (simp add: s(1) snoc find_append)
    then show ?thesis using s(2) by (simp add: find_vma_def s(1) snoc nth_append)
  qed
qed

section \<open>Insertion\<close>

lemma vec_at_split [simp]:
  "vec_remove (length xs) (xs @ y # ys) = xs @ ys"
  "vec_insert (length xs) v (xs @ ys) = xs @ v # ys"
  by (simp_all add: vec_remove_def vec_insert_def)

text \<open>Two adjacent areas with the same attributes may be replaced by their union.\<close>

lemma vmas_merge:
  assumes "vmas_ok (xs @ p # v # ys)" and "vma_end p = vma_start v" and "mergeable_with p v"
  shows "vmas_ok (xs @ v\<lparr>vma_start := vma_start p\<rparr> # ys)"
    and "area_at (xs @ v\<lparr>vma_start := vma_start p\<rparr> # ys) a = area_at (xs @ p # v # ys) a"
proof -
  have le: "vma_start p \<le> vma_end p" "vma_start v \<le> vma_end v" using assms(1) by (auto simp: vmas_ok_append)
  with assms show "vmas_ok (xs @ v\<lparr>vma_start := vma_start p\<rparr> # ys)"
    by (auto simp: vmas_ok_append)
  have "vma_contains (v\<lparr>vma_start := vma_start p\<rparr>) a \<longleftrightarrow> vma_contains p a \<or> vma_contains v a"
    using le assms(2) by (auto simp: vma_contains_def)
  moreover have "vma_area p = vma_area v" "vma_area (v\<lparr>vma_start := vma_start p\<rparr>) = vma_area v"
    using assms(3) by (auto simp: vma_area_def mergeable_with_def)
  ultimately show "area_at (xs @ v\<lparr>vma_start := vma_start p\<rparr> # ys) a = area_at (xs @ p # v # ys) a"
    by (simp add: area_at_append split: option.splits)
qed

definition glue_left :: "VMA list \<Rightarrow> VMA \<Rightarrow> VMA list \<times> VMA" where
  "glue_left xs v =
     (if xs \<noteq> [] \<and> vma_end (last xs) = vma_start v \<and> mergeable_with (last xs) v
      then (butlast xs, v\<lparr>vma_start := vma_start (last xs)\<rparr>) else (xs, v))"

definition glue_right :: "VMA \<Rightarrow> VMA list \<Rightarrow> VMA list" where
  "glue_right v ys =
     (if ys \<noteq> [] \<and> vma_end v = vma_start (hd ys) \<and> mergeable_with v (hd ys)
      then v\<lparr>vma_end := vma_end (hd ys)\<rparr> # tl ys else v # ys)"

lemma add_vma_split:
  assumes "lower_bound (xs @ ys) (vma_start v) = length xs"
  shows "add_vma (xs @ ys) v =
    (if (xs \<noteq> [] \<and> vma_start v < vma_end (last xs)) \<or> (ys \<noteq> [] \<and> vma_start (hd ys) < vma_end v)
     then Inl ''VMA overlap''
     else Inr (fst (glue_left xs v) @ glue_right (snd (glue_left xs v)) ys))"
proof (cases xs rule: rev_cases)
  case Nil
  then show ?thesis using assms
    by (cases ys) (auto simp: add_vma_def glue_left_def glue_right_def vec_insert_def vec_remove_def Let_def)
next
  case (snoc zs p)
  have "zs @ p # ys = (zs @ [p]) @ ys" by simp
  then show ?thesis using assms vec_at_split(2) [of "zs @ [p]"] vec_at_split(1) [of "zs @ [p]"] unfolding snoc
    by (cases ys) (auto simp: add_vma_def glue_left_def glue_right_def Let_def nth_append vec_insert_def vec_remove_def)
qed

lemma vmas_ok_insert:
  assumes "vmas_ok (xs @ ys)" and "vma_start v \<le> vma_end v"
    and "xs \<noteq> [] \<Longrightarrow> vma_end (last xs) \<le> vma_start v" and "ys \<noteq> [] \<Longrightarrow> vma_end v \<le> vma_start (hd ys)"
  shows "vmas_ok (xs @ v # ys)"
proof -
  have "vma_end x \<le> vma_start v" if "x \<in> set xs" for x
  proof (cases xs rule: rev_cases)
    case (snoc zs p)
    then have "x = p \<or> vma_end x \<le> vma_start p" and "vma_start p \<le> vma_end p"
      using assms(1) that by (auto simp: vmas_ok_append)
    moreover have "vma_end p \<le> vma_start v" using assms(3) snoc by simp
    ultimately show ?thesis by auto
  qed (use that in simp)
  moreover have "vma_end v \<le> vma_start y" if "y \<in> set ys" for y
  proof (cases ys)
    case (Cons w ws)
    then have "y = w \<or> vma_end w \<le> vma_start y" and "vma_start w \<le> vma_end w"
      using assms(1) that by (auto simp: vmas_ok_append)
    moreover have "vma_end v \<le> vma_start w" using assms(4) Cons by simp
    ultimately show ?thesis by auto
  qed (use that in simp)
  ultimately show ?thesis using assms(1,2) by (auto simp: vmas_ok_append)
qed

lemma glue_left_ok:
  assumes "vmas_ok (xs @ v # ys)" and "glue_left xs v = (xs', v')"
  shows "vmas_ok (xs' @ v' # ys)" and "area_at (xs' @ v' # ys) a = area_at (xs @ v # ys) a"
    and "vma_end v' = vma_end v" and "vma_start v' = vma_start v \<or> vma_start v' \<in> vma_start ` set xs"
    and "vma_start v' \<le> vma_start v" and "set xs' \<subseteq> set xs"
proof -
  have "vmas_ok (xs' @ v' # ys) \<and> area_at (xs' @ v' # ys) a = area_at (xs @ v # ys) a \<and>
    vma_end v' = vma_end v \<and> (vma_start v' = vma_start v \<or> vma_start v' \<in> vma_start ` set xs) \<and>
    vma_start v' \<le> vma_start v \<and> set xs' \<subseteq> set xs"
  proof (cases xs rule: rev_cases)
    case (snoc zs p)
    then have ok: "vmas_ok (zs @ p # v # ys)" using assms(1) by simp
    then have "vma_start p \<le> vma_end p" by (simp add: vmas_ok_append)
    with vmas_merge [OF ok] assms snoc show ?thesis
      by (auto simp: glue_left_def split: if_splits)
  qed (use assms in \<open>auto simp: glue_left_def\<close>)
  then show "vmas_ok (xs' @ v' # ys)" and "area_at (xs' @ v' # ys) a = area_at (xs @ v # ys) a"
    and "vma_end v' = vma_end v" and "vma_start v' = vma_start v \<or> vma_start v' \<in> vma_start ` set xs"
    and "vma_start v' \<le> vma_start v" and "set xs' \<subseteq> set xs" by auto
qed

lemma glue_right_ok:
  assumes "vmas_ok (xs @ v # ys)"
  shows "vmas_ok (xs @ glue_right v ys)" and "area_at (xs @ glue_right v ys) a = area_at (xs @ v # ys) a"
    and "w \<in> set (glue_right v ys) \<Longrightarrow> w \<in> set ys \<or>
           (vma_start w = vma_start v \<and> (vma_end w = vma_end v \<or> vma_end v \<le> vma_end w \<and> vma_end w \<in> vma_end ` set ys))"
proof -
  have "vmas_ok (xs @ glue_right v ys) \<and> area_at (xs @ glue_right v ys) a = area_at (xs @ v # ys) a \<and>
    (w \<in> set (glue_right v ys) \<longrightarrow> w \<in> set ys \<or>
      (vma_start w = vma_start v \<and> (vma_end w = vma_end v \<or> vma_end v \<le> vma_end w \<and> vma_end w \<in> vma_end ` set ys)))"
  proof (cases "ys \<noteq> [] \<and> vma_end v = vma_start (hd ys) \<and> mergeable_with v (hd ys)")
    case True
    then obtain z zs where ys: "ys = z # zs" by (cases ys) auto
    have eq: "v\<lparr>vma_end := vma_end z\<rparr> = z\<lparr>vma_start := vma_start v\<rparr>"
      using True ys by (cases v; cases z) (simp add: mergeable_with_def)
    have "vma_start z \<le> vma_end z" using assms ys by (simp add: vmas_ok_append)
    with vmas_merge [of xs v z zs] assms True ys eq show ?thesis by (auto simp: glue_right_def)
  qed (use assms in \<open>auto simp: glue_right_def\<close>)
  then show "vmas_ok (xs @ glue_right v ys)" and "area_at (xs @ glue_right v ys) a = area_at (xs @ v # ys) a"
    and "w \<in> set (glue_right v ys) \<Longrightarrow> w \<in> set ys \<or>
           (vma_start w = vma_start v \<and> (vma_end w = vma_end v \<or> vma_end v \<le> vma_end w \<and> vma_end w \<in> vma_end ` set ys))"
    by auto
qed

lemma add_vma_Inr:
  assumes ok: "vmas_ok vs" and v: "vma_start v \<le> vma_end v" and add: "add_vma vs v = Inr vs'"
  shows "vmas_ok vs'"
    and "area_at vs' a = (if vma_contains v a then Some (vma_area v) else area_at vs a)"
    and "all_nonempty vs \<Longrightarrow> vma_start v < vma_end v \<Longrightarrow> all_nonempty vs'"
    and "w \<in> set vs' \<Longrightarrow> vma_start w \<in> insert (vma_start v) (vma_start ` set vs) \<and>
           vma_end w \<in> insert (vma_end v) (vma_end ` set vs)"
    and "vma_contains v a \<Longrightarrow> area_at vs a = None"
proof -
  obtain xs ys where vs: "vs = xs @ ys" "lower_bound vs (vma_start v) = length xs"
    using lower_bound_split [OF ok] by metis
  obtain xs' v' where gl: "glue_left xs v = (xs', v')" by fastforce
  have res: "vs' = xs' @ glue_right v' ys"
    and noov: "xs \<noteq> [] \<Longrightarrow> vma_end (last xs) \<le> vma_start v" "ys \<noteq> [] \<Longrightarrow> vma_end v \<le> vma_start (hd ys)"
    using add add_vma_split [of xs ys v] vs gl by (auto split: if_splits simp: not_less)
  have mid: "vmas_ok (xs @ v # ys)" using vmas_ok_insert ok v noov vs(1) by simp
  note L = glue_left_ok [OF mid gl]
  note R = glue_right_ok [OF L(1)]
  show "vmas_ok vs'" using R(1) res by simp
  show "area_at vs' a = (if vma_contains v a then Some (vma_area v) else area_at vs a)"
    using R(2) L(2) area_at_middle [OF mid] vs(1) res by simp
  show "vma_contains v a \<Longrightarrow> area_at vs a = None" using area_at_removed [OF mid] vs(1) by simp
  have shape: "w \<in> set vs \<or> (vma_start w = vma_start v' \<and> (vma_end w = vma_end v \<or> vma_end v \<le> vma_end w \<and> vma_end w \<in> vma_end ` set vs))"
    if "w \<in> set vs'" for w
    using that R(3) [of w] L(3,6) vs(1) by (auto simp: res)
  then show "w \<in> set vs' \<Longrightarrow> vma_start w \<in> insert (vma_start v) (vma_start ` set vs) \<and>
           vma_end w \<in> insert (vma_end v) (vma_end ` set vs)"
    using L(4) vs(1) by fastforce
  show "all_nonempty vs'" if ne: "all_nonempty vs" and lt: "vma_start v < vma_end v"
    unfolding all_nonempty_def
  proof
    fix w assume "w \<in> set vs'"
    from shape [OF this] show "vma_start w < vma_end w"
      using ne lt L(5) by (auto simp: all_nonempty_def)
  qed
qed

text \<open>
  Insertion is refused exactly when the new area overlaps an existing one, provided the existing
  ones are not empty.
\<close>

lemma add_vma_overlap:
  assumes ok: "vmas_ok vs" and "all_nonempty vs" and v: "vma_start v < vma_end v"
  shows "(\<exists>a. vma_contains v a \<and> area_at vs a \<noteq> None) \<longleftrightarrow> add_vma vs v = Inl ''VMA overlap''"
    and "(\<nexists>a. vma_contains v a \<and> area_at vs a \<noteq> None) \<longleftrightarrow> (\<exists>vs'. add_vma vs v = Inr vs')"
proof -
  obtain xs ys where vs: "vs = xs @ ys" "lower_bound vs (vma_start v) = length xs"
    "\<forall>x\<in>set xs. vma_start x < vma_start v" "\<forall>y\<in>set ys. vma_start v \<le> vma_start y"
    using lower_bound_split [OF ok] by metis
  have ov: "\<exists>a. vma_contains v a \<and> area_at vs a \<noteq> None" if "add_vma vs v = Inl e" for e
  proof -
    from that add_vma_split [of xs ys v] vs
    have c: "(xs \<noteq> [] \<and> vma_start v < vma_end (last xs)) \<or> (ys \<noteq> [] \<and> vma_start (hd ys) < vma_end v)"
      by (auto split: if_splits)
    then show ?thesis
    proof
      assume x: "xs \<noteq> [] \<and> vma_start v < vma_end (last xs)"
      then have "last xs \<in> set vs" "vma_start (last xs) < vma_start v" using vs by auto
      with x v have "vma_contains (last xs) (vma_start v)" "vma_contains v (vma_start v)"
        by (auto simp: vma_contains_def)
      then show ?thesis using \<open>last xs \<in> set vs\<close> area_at_None by blast
    next
      assume y: "ys \<noteq> [] \<and> vma_start (hd ys) < vma_end v"
      then have m: "hd ys \<in> set vs" using vs by auto
      have "vma_start v \<le> vma_start (hd ys)" using y vs(4) by simp
      with y m assms(2) have "vma_contains (hd ys) (vma_start (hd ys))" "vma_contains v (vma_start (hd ys))"
        by (auto simp: vma_contains_def all_nonempty_def)
      then show ?thesis using m area_at_None by blast
    qed
  qed
  have noov: "\<nexists>a. vma_contains v a \<and> area_at vs a \<noteq> None" if "add_vma vs v = Inr vs'" for vs'
    using add_vma_Inr(5) [OF ok _ that] v by auto
  have err: "e = ''VMA overlap''" if "add_vma vs v = Inl e" for e
    using that add_vma_split [of xs ys v] vs by (auto split: if_splits)
  show "(\<exists>a. vma_contains v a \<and> area_at vs a \<noteq> None) \<longleftrightarrow> add_vma vs v = Inl ''VMA overlap''"
    using ov noov err by (cases "add_vma vs v") auto
  show "(\<nexists>a. vma_contains v a \<and> area_at vs a \<noteq> None) \<longleftrightarrow> (\<exists>vs'. add_vma vs v = Inr vs')"
    using ov noov by (cases "add_vma vs v") auto
qed

section \<open>Removal and heap growth\<close>

lemma remove_vma_present:
  assumes "vmas_ok vs" and "all_nonempty vs" and "h \<in> set vs"
  obtains xs ys where "vs = xs @ h # ys" and "remove_vma vs (vma_start h) = (Some h, xs @ ys)"
proof -
  obtain xs ys where vs: "vs = xs @ ys" "lower_bound vs (vma_start h) = length xs"
    "\<forall>x\<in>set xs. vma_start x < vma_start h" "\<forall>y\<in>set ys. vma_start h \<le> vma_start y"
    using lower_bound_split [OF assms(1)] by metis
  then have "h \<in> set ys" using assms(3) by auto
  then obtain w ws where ys: "ys = w # ws" by (cases ys) auto
  have "w = h"
  proof (rule ccontr)
    assume "w \<noteq> h"
    with \<open>h \<in> set ys\<close> ys have "h \<in> set ws" by simp
    then have "vma_end w \<le> vma_start h" using assms(1) vs(1) ys by (auto simp: vmas_ok_append)
    moreover have "vma_start w < vma_end w" using assms(2) vs(1) ys by (auto simp: all_nonempty_def)
    ultimately show False using vs(4) ys by (auto simp: not_le)
  qed
  with vs ys show ?thesis by (intro that [of xs ws]) (auto simp: remove_vma_def nth_append)
qed

lemma remove_vma_absent:
  assumes "s \<notin> vma_start ` set vs"
  shows "remove_vma vs s = (None, vs)"
proof -
  have "vma_start (vs ! i) \<noteq> s" if "i < length vs" for i using assms nth_mem [OF that] by auto
  then show ?thesis by (simp add: remove_vma_def Let_def)
qed

lemma best_heap_fold:
  assumes "fold (\<lambda>v (s, e). if vma_kind v = Heap \<and> e < vma_end v then (Some (vma_start v), vma_end v) else (s, e))
            vs (s0, e0) = (Some s, e)"
  shows "(s0 = Some s \<and> e = e0 \<or> (\<exists>h\<in>set vs. vma_kind h = Heap \<and> vma_start h = s \<and> vma_end h = e)) \<and>
         e0 \<le> e \<and> (\<forall>w\<in>set vs. vma_kind w = Heap \<longrightarrow> vma_end w \<le> e)"
  using assms
proof (induction vs arbitrary: s0 e0)
  case (Cons v vs)
  show ?case
  proof (cases "vma_kind v = Heap \<and> e0 < vma_end v")
    case True
    with Cons.prems Cons.IH [of "Some (vma_start v)" "vma_end v"] show ?thesis by auto
  next
    case False
    with Cons.prems have "fold (\<lambda>v (s, e). if vma_kind v = Heap \<and> e < vma_end v then (Some (vma_start v), vma_end v) else (s, e))
            vs (s0, e0) = (Some s, e)" by (simp only: fold.simps comp_apply case_prod_conv if_False)
    from Cons.IH [OF this] False show ?thesis by (auto simp: not_less)
  qed
qed auto

lemma best_heap_Some:
  assumes "fst (best_heap vs) = Some s"
  obtains h where "h \<in> set vs" and "vma_kind h = Heap" and "vma_start h = s"
    and "\<forall>w\<in>set vs. vma_kind w = Heap \<longrightarrow> vma_end w \<le> vma_end h"
proof -
  obtain e where "best_heap vs = (Some s, e)" using assms by (cases "best_heap vs") auto
  from best_heap_fold [OF this [unfolded best_heap_def]] that show ?thesis by auto
qed

section \<open>Placement\<close>

definition range_free :: "VMA list \<Rightarrow> u64 \<Rightarrow> nat \<Rightarrow> bool" where
  "range_free vs s n \<longleftrightarrow> (\<forall>a. unat s \<le> unat a \<and> unat a < unat s + n \<longrightarrow> area_at vs a = None)"

definition in_mmap_zone :: "u64 \<Rightarrow> nat \<Rightarrow> bool" where
  "in_mmap_zone s n \<longleftrightarrow> MMAP_ZONE_START \<le> s \<and> unat s + n \<le> unat MMAP_ZONE_END"

lemma unat_saturating_sub: "unat (saturating_sub a b) = unat a - unat b"
  by (auto simp: saturating_sub_def unat_sub_exact word_le_nat_alt)

lemma range_free_bounds:
  assumes "range_free vs s n" and "0 < n" and "v \<in> set vs" and "vma_start v < vma_end v"
  shows "unat s + n \<le> unat (vma_start v) \<or> vma_end v \<le> s"
proof (rule ccontr)
  assume neg: "\<not> ?thesis"
  have no: "\<not> vma_contains v a" if "unat s \<le> unat a \<and> unat a < unat s + n" for a
    using assms(1,3) that by (auto simp: range_free_def area_at_None)
  show False
    using neg no [of s] no [of "vma_start v"] assms(2,4)
    by (fastforce simp: vma_contains_def word_le_nat_alt word_less_nat_alt)
qed

lemma find_free_area_loop_sound:
  assumes "vmas_ok (xs @ ys)" and "\<forall>x\<in>set xs. vma_end x \<le> cursor" and "MMAP_ZONE_START \<le> cursor"
    and "0 < unat sz" and "find_free_area_loop ys sz cursor = Some s"
  shows "in_mmap_zone s (unat sz) \<and> range_free (xs @ ys) s (unat sz)"
  using assms
proof (induction ys arbitrary: xs cursor)
  case Nil
  then have "s = cursor" and "unat sz \<le> unat MMAP_ZONE_END - unat cursor"
    by (auto simp: word_le_nat_alt unat_saturating_sub split: if_splits)
  with Nil show ?case
    by (force simp: in_mmap_zone_def range_free_def area_at_None vma_contains_def word_le_nat_alt word_less_nat_alt)
next
  case (Cons v ys)
  have later: "\<forall>y\<in>set ys. vma_start v \<le> vma_start y"
    using Cons.prems(1) by (auto simp: vmas_ok_append intro: order.trans)
  have hit: "in_mmap_zone cursor (unat sz) \<and> range_free (xs @ v # ys) cursor (unat sz)"
    if "unat cursor + unat sz \<le> unat MMAP_ZONE_END" "unat cursor + unat sz \<le> unat (vma_start v)"
    using that Cons.prems(2,3) later
    by (force simp: in_mmap_zone_def range_free_def area_at_None vma_contains_def word_le_nat_alt word_less_nat_alt)
  have step: "in_mmap_zone s (unat sz) \<and> range_free (xs @ v # ys) s (unat sz)"
    if "find_free_area_loop ys sz c = Some s" "cursor \<le> c" "vma_end v \<le> c" for c
  proof -
    have "\<forall>x\<in>set (xs @ [v]). vma_end x \<le> c" and "MMAP_ZONE_START \<le> c"
      using that(2,3) Cons.prems(2,3) by auto
    then show ?thesis using Cons.IH [of "xs @ [v]" c] Cons.prems(1,4) that(1) by simp
  qed
  consider (past) "MMAP_ZONE_END \<le> vma_start v"
    | (before) "\<not> MMAP_ZONE_END \<le> vma_start v" "vma_end v \<le> MMAP_ZONE_START"
    | (fits) "\<not> MMAP_ZONE_END \<le> vma_start v" "\<not> vma_end v \<le> MMAP_ZONE_START" "sz \<le> saturating_sub (vma_start v) cursor"
    | (skip) "\<not> MMAP_ZONE_END \<le> vma_start v" "\<not> vma_end v \<le> MMAP_ZONE_START" "\<not> sz \<le> saturating_sub (vma_start v) cursor"
    by blast
  then show ?case
  proof cases
    case past
    then have "s = cursor" "unat sz \<le> unat MMAP_ZONE_END - unat cursor"
      using Cons.prems(5) by (auto simp: word_le_nat_alt unat_saturating_sub split: if_splits)
    with past Cons.prems(4) hit show ?thesis by (simp add: word_le_nat_alt)
  next
    case before
    then show ?thesis using Cons.prems(3,5) step [of cursor] by auto
  next
    case fits
    then have "s = cursor" "unat sz \<le> unat (vma_start v) - unat cursor"
      using Cons.prems(5) by (auto simp: word_le_nat_alt unat_saturating_sub)
    with fits(1) Cons.prems(4) hit show ?thesis by (simp add: word_le_nat_alt)
  next
    case skip
    then show ?thesis using Cons.prems(5) step [of "max cursor (vma_end v)"] by simp
  qed
qed

lemma find_free_area_loop_complete:
  assumes "range_free vs t (unat sz)" and "in_mmap_zone t (unat sz)" and "0 < unat sz"
    and "all_nonempty vs" and "set ys \<subseteq> set vs" and "cursor \<le> t"
  shows "\<exists>s. find_free_area_loop ys sz cursor = Some s \<and> s \<le> t"
  using assms(5,6)
proof (induction ys arbitrary: cursor)
  case Nil
  then show ?case using assms(2)
    by (auto simp: in_mmap_zone_def word_le_nat_alt unat_saturating_sub)
next
  case (Cons v ys)
  have zone: "unat sz \<le> unat MMAP_ZONE_END - unat cursor"
    using assms(2) Cons.prems(2) by (auto simp: in_mmap_zone_def word_le_nat_alt)
  have "unat t + unat sz \<le> unat (vma_start v) \<or> vma_end v \<le> t"
    using assms(1,3,4) Cons.prems(1) by (intro range_free_bounds) (auto simp: all_nonempty_def)
  then have "sz \<le> saturating_sub (vma_start v) cursor \<or> max cursor (vma_end v) \<le> t"
    using Cons.prems(2) by (auto simp: word_le_nat_alt unat_saturating_sub)
  then show ?case
    using Cons.IH [of cursor] Cons.IH [of "max cursor (vma_end v)"] Cons.prems zone
    by (auto simp: word_le_nat_alt unat_saturating_sub)
qed

lemmas find_free_area_sound =
  find_free_area_loop_sound [of "[]" vs MMAP_ZONE_START, simplified, folded find_free_area_def] for vs

lemma find_free_area_complete:
  assumes "all_nonempty vs" and "0 < unat sz" and "in_mmap_zone t (unat sz)" and "range_free vs t (unat sz)"
  shows "\<exists>s. find_free_area vs sz = Some s \<and> s \<le> t"
  using find_free_area_loop_complete [OF assms(4,3,2,1)] assms(3)
  by (auto simp: find_free_area_def in_mmap_zone_def)

text \<open>Areas whose bounds are page aligned keep \<^verbatim>\<open>mmap\<close> on page boundaries.\<close>

definition bounds_aligned :: "VMA list \<Rightarrow> bool" where
  "bounds_aligned vs \<longleftrightarrow> (\<forall>v\<in>set vs. 4096 dvd unat (vma_start v) \<and> 4096 dvd unat (vma_end v))"

lemma find_free_area_loop_aligned:
  assumes "bounds_aligned vs" and "4096 dvd unat cursor" and "find_free_area_loop vs sz cursor = Some s"
  shows "4096 dvd unat s"
  using assms
  by (induction vs arbitrary: cursor) (auto simp: bounds_aligned_def max_def split: if_splits)

lemma align_up_page_dvd: "align_up a 4096 = Some b \<Longrightarrow> 4096 dvd unat b"
  by (simp add: align_up_page_eq_Some)

abbreviation page_bytes :: "u64 \<Rightarrow> nat" where
  "page_bytes sz \<equiv> 4096 * ((unat sz + 4095) div 4096)"

text \<open>
  C22. An anonymous \<^verbatim>\<open>mmap\<close> of a non-zero length over non-empty, page-aligned areas either reports that no
  free range of that many pages exists in the mmap zone, and none does, or inserts exactly that many
  pages at a page boundary where nothing was mapped, keeping the invariants.
\<close>

theorem mmap_correct:
  assumes ok: "vmas_ok vs" and ne: "all_nonempty vs" and al: "bounds_aligned vs"
    and sz: "0 < unat sz" "unat sz + 4096 < 2 ^ 64"
  shows "(mmap vs 0 sz f k = Some (Inl ''No free area for mmap'', vs) \<and>
            (\<forall>t. in_mmap_zone t (page_bytes sz) \<longrightarrow> \<not> range_free vs t (page_bytes sz))) \<or>
         (\<exists>s vs'. mmap vs 0 sz f k = Some (Inr s, vs') \<and> 4096 dvd unat s \<and> in_mmap_zone s (page_bytes sz) \<and>
            range_free vs s (page_bytes sz) \<and> vmas_ok vs' \<and> all_nonempty vs' \<and> bounds_aligned vs' \<and>
            (\<forall>a. area_at vs' a = (if unat s \<le> unat a \<and> unat a < unat s + page_bytes sz then Some (f, k)
                                 else area_at vs a)))"
proof -
  obtain n where n: "align_up sz PAGE_SIZE = Some n"
    using align_up_page_None [of sz] sz(2) by (fastforce simp: PAGE_SIZE_def)
  then have un: "unat n = page_bytes sz" by (simp add: align_up_page_eq_Some PAGE_SIZE_def)
  then have pos: "0 < unat n" using sz(1) by (simp add: div_greater_zero_iff)
  show ?thesis
  proof (cases "find_free_area vs n")
    case None
    then have "mmap vs 0 sz f k = Some (Inl ''No free area for mmap'', vs)"
      using n by (simp add: mmap_def)
    then show ?thesis using find_free_area_complete [OF ne pos] None un by auto
  next
    case (Some s)
    then have fr: "in_mmap_zone s (unat n)" "range_free vs s (unat n)"
      using find_free_area_sound [OF ok pos] by auto
    have ds: "4096 dvd unat s"
      using find_free_area_loop_aligned [OF al _ Some [unfolded find_free_area_def]]
      by (simp add: MMAP_ZONE_START_def)
    have lim: "unat s + unat n \<le> 0x700000000000"
      using fr(1) by (simp add: in_mmap_zone_def MMAP_ZONE_END_def)
    moreover have "unat sz \<le> unat n" unfolding un by (simp add: algebra_simps)
    ultimately have lt: "unat s + unat sz < 2 ^ LENGTH(64)" by simp
    have top: "checked_add s sz = Some (s + sz)" using lt by (rule checked_add_ok)
    obtain q where q: "unat s = 4096 * q" using ds by blast
    have lim2: "unat (s + sz) + 4096 < 2 ^ 64"
      using unat_add_exact [OF lt] lim \<open>unat sz \<le> unat n\<close> by simp
    obtain e where e: "align_up (s + sz) PAGE_SIZE = Some e"
      using align_up_page_None [of "s + sz"] lim2 by (fastforce simp: PAGE_SIZE_def)
    have shift: "unat (s + sz) + 4095 = (unat sz + 4095) + q * 4096"
      using unat_add_exact [OF lt] q by simp
    have "(unat (s + sz) + 4095) div 4096 = q + (unat sz + 4095) div 4096"
      unfolding shift by (rule div_mult_self1) simp
    then have ue: "unat e = unat s + unat n"
      using e unfolding un by (simp add: align_up_page_eq_Some PAGE_SIZE_def q)
    let ?v = "VMA_new s e f k"
    have cont: "vma_contains ?v a \<longleftrightarrow> unat s \<le> unat a \<and> unat a < unat s + unat n" for a
      using ue by (simp add: word_le_nat_alt word_less_nat_alt)
    have lt': "vma_start ?v < vma_end ?v" using ue pos by (simp add: word_less_nat_alt)
    have "\<nexists>a. vma_contains ?v a \<and> area_at vs a \<noteq> None"
      unfolding cont using fr(2) [unfolded range_free_def] by metis
    with add_vma_overlap(2) [OF ok ne lt'] obtain vs' where vs': "add_vma vs ?v = Inr vs'" by metis
    note A = add_vma_Inr [OF ok less_imp_le [OF lt'] vs']
    have "mmap vs 0 sz f k = Some (Inr s, vs')" using n Some top e vs' by (simp add: mmap_def)
    moreover have "bounds_aligned vs'"
      unfolding bounds_aligned_def
    proof
      fix w assume "w \<in> set vs'"
      note B = A(4) [OF this]
      have "4096 dvd unat e" using align_up_page_dvd e by (simp add: PAGE_SIZE_def)
      with B al ds show "4096 dvd unat (vma_start w) \<and> 4096 dvd unat (vma_end w)"
        by (auto simp only: bounds_aligned_def VMA_new_simps)
    qed
    moreover have "\<forall>a. area_at vs' a = (if unat s \<le> unat a \<and> unat a < unat s + unat n then Some (f, k) else area_at vs a)"
      using A(2) unfolding cont by simp
    ultimately show ?thesis
      using ds fr A(1) A(3) [OF ne lt'] unfolding un by (intro disjI2 exI [of _ s] exI [of _ vs'] conjI)
  qed
qed

section \<open>Properties\<close>

text \<open>
  C21. Under the invariant the binary search of \<^verbatim>\<open>find_vma\<close> returns an area exactly when the list has one
  that contains the address, and that area is the only one.
\<close>

theorem find_vma_correct:
  assumes "vmas_ok vs"
  shows "find_vma vs a = Some v \<longleftrightarrow> v \<in> set vs \<and> vma_contains v a"
proof
  assume "find_vma vs a = Some v"
  then show "v \<in> set vs \<and> vma_contains v a"
    using find_vma_find [OF assms] by (auto dest!: find_SomeD)
next
  assume v: "v \<in> set vs \<and> vma_contains v a"
  then obtain xs ys where vs: "vs = xs @ v # ys" by (auto simp: in_set_conv_decomp)
  have "find (\<lambda>v. vma_contains v a) xs = None"
    using assms v by (fastforce simp: vs find_None_iff vmas_ok_append vma_contains_def)
  then show "find_vma vs a = Some v" using find_vma_find [OF assms] v by (simp add: vs find_append)
qed

text \<open>
  C20. Inserting a non-empty area among non-empty ones fails exactly when some address of it is already
  covered; otherwise the merged list still satisfies the invariant, covers the new addresses with the
  new attributes and every other address as before.
\<close>

theorem add_vma_correct:
  assumes "vmas_ok vs" and "all_nonempty vs" and "vma_start v < vma_end v"
  shows "if \<exists>a. vma_contains v a \<and> area_at vs a \<noteq> None then add_vma vs v = Inl ''VMA overlap''
         else \<exists>vs'. add_vma vs v = Inr vs' \<and> vmas_ok vs' \<and> all_nonempty vs' \<and>
           area_at vs' = (\<lambda>a. if vma_contains v a then Some (vma_area v) else area_at vs a)"
proof (cases "\<exists>a. vma_contains v a \<and> area_at vs a \<noteq> None")
  case True
  with add_vma_overlap(1) [OF assms] show ?thesis by simp
next
  case False
  then obtain vs' where "add_vma vs v = Inr vs'" using add_vma_overlap(2) [OF assms] by auto
  note A = add_vma_Inr [OF assms(1) less_imp_le [OF assms(3)] this]
  have "area_at vs' = (\<lambda>a. if vma_contains v a then Some (vma_area v) else area_at vs a)"
    using A(2) by (rule ext)
  with False \<open>add_vma vs v = Inr vs'\<close> A(1) A(3) [OF assms(2,3)] show ?thesis by simp
qed

text \<open>
  C23. \<^verbatim>\<open>find_free_area\<close> is first fit: for a non-zero size it returns the lowest address of the mmap zone at
  which that many bytes are free, and nothing only if there is no such address.
\<close>

theorem find_free_area_first_fit:
  assumes "vmas_ok vs" and "all_nonempty vs" and "0 < unat sz"
  shows "find_free_area vs sz = Some s \<longleftrightarrow>
    in_mmap_zone s (unat sz) \<and> range_free vs s (unat sz) \<and>
    (\<forall>t. in_mmap_zone t (unat sz) \<and> range_free vs t (unat sz) \<longrightarrow> s \<le> t)"
    (is "_ \<longleftrightarrow> ?spec s")
proof
  assume f: "find_free_area vs sz = Some s"
  with find_free_area_sound [OF assms(1,3)] find_free_area_complete [OF assms(2,3)]
  show "?spec s" by force
next
  assume spec: "?spec s"
  then obtain s' where s': "find_free_area vs sz = Some s'" "s' \<le> s"
    using find_free_area_complete [OF assms(2,3)] by blast
  then have "s \<le> s'" using find_free_area_sound [OF assms(1,3)] spec by blast
  with s' show "find_free_area vs sz = Some s" by simp
qed



text \<open>Witnesses: code, a heap and a mapping just above it.\<close>

definition demo_vmas :: "VMA list" where
  "demo_vmas = [VMA_new 0x400000 0x402000 VMAFlags_rx Anonymous,
                VMA_new 0x600000 0x601000 VMAFlags_rw Heap,
                VMA_new 0x602000 0x603000 VMAFlags_rw Anonymous]"

lemma demo_vmas_ok: "vmas_ok demo_vmas" "all_nonempty demo_vmas" "bounds_aligned demo_vmas"
  by (auto simp: demo_vmas_def all_nonempty_def bounds_aligned_def)

theorem find_vma_correct_witness:
  "find_vma demo_vmas 0x401008 = Some (VMA_new 0x400000 0x402000 VMAFlags_rx Anonymous)"
  by (subst find_vma_correct [OF demo_vmas_ok(1)]) (simp add: demo_vmas_def)

theorem add_vma_correct_witness:
  "add_vma demo_vmas (VMA_new 0x401000 0x403000 VMAFlags_r Anonymous) = Inl ''VMA overlap''"
proof -
  have "vma_contains (VMA_new 0x401000 0x403000 VMAFlags_r Anonymous) 0x401000 \<and> area_at demo_vmas 0x401000 \<noteq> None"
    by (simp add: demo_vmas_def)
  then show ?thesis
    using add_vma_correct [OF demo_vmas_ok(1,2), of "VMA_new 0x401000 0x403000 VMAFlags_r Anonymous"]
    by (auto split: if_splits)
qed

theorem find_free_area_first_fit_witness:
  "find_free_area demo_vmas 0x1000 = Some 0x600000000000 \<and> range_free demo_vmas 0x600000000000 0x1000"
proof -
  have "find_free_area demo_vmas 0x1000 = Some 0x600000000000" by code_simp
  then show ?thesis using find_free_area_first_fit [OF demo_vmas_ok(1,2), of "0x1000"] by simp
qed

theorem mmap_correct_witness:
  "\<exists>vs'. mmap demo_vmas 0 0x1800 VMAFlags_rw Anonymous = Some (Inr 0x600000000000, vs') \<and> vmas_ok vs' \<and>
         area_at vs' 0x600000001fff = Some (VMAFlags_rw, Anonymous)"
proof -
  have "map_option fst (mmap demo_vmas 0 0x1800 VMAFlags_rw Anonymous) = Some (Inr 0x600000000000)" by code_simp
  then show ?thesis
    using mmap_correct [OF demo_vmas_ok, of "0x1800" VMAFlags_rw Anonymous] by auto
qed



end
