(* ===== verification/Page_Owner.thy ===== *)
theory Page_Owner
  imports Buddy_Spec "HOL-Library.Multiset"
begin

text \<open>
  The register of page owners (\<^verbatim>\<open>src/kernel/src/page_owner.rs\<close>), a vector of tagged block addresses that
  must not grow while the allocator is locked, and the record of the kernel's memory state that the
  later theories share: the buddy allocator, the early table counter and the register.
\<close>

type_synonym Pid = u64

record PageOwner =
  owner_tag' :: string
  owner_pid :: Pid
  owner_order :: nat

record kmem = buddy +
  early_pt_idx :: nat
  page_owners :: "(u64 \<times> PageOwner) list"
  owners_capacity :: nat

section \<open>Operations\<close>

definition RESERVE_CAPACITY :: nat where
  "RESERVE_CAPACITY = 8192"

text \<open>\<^verbatim>\<open>init\<close>: \<^verbatim>\<open>Vec::reserve\<close> on the empty vector.\<close>

definition page_owner_init :: "'a kmem_scheme \<Rightarrow> 'a kmem_scheme" where
  "page_owner_init s =
     s\<lparr>owners_capacity := max (owners_capacity s) (length (page_owners s) + RESERVE_CAPACITY)\<rparr>"

definition track :: "u64 \<Rightarrow> nat \<Rightarrow> string \<Rightarrow> Pid \<Rightarrow> 'a kmem_scheme \<Rightarrow> 'a kmem_scheme option" where
  "track phys order tag pid s =
     (if owners_capacity s \<le> length (page_owners s) then None
      else Some (s\<lparr>page_owners := page_owners s @
                   [(phys, \<lparr>owner_tag' = tag, owner_pid = pid, owner_order = order\<rparr>)]\<rparr>))"

text \<open>\<^verbatim>\<open>Vec::swap_remove\<close>.\<close>

definition swap_remove :: "nat \<Rightarrow> 'a list \<Rightarrow> 'a list" where
  "swap_remove i xs = butlast (xs[i := last xs])"

definition untrack :: "u64 \<Rightarrow> 'a kmem_scheme \<Rightarrow> PageOwner option \<times> 'a kmem_scheme" where
  "untrack phys s =
     (case position (\<lambda>(addr, _). addr = phys) (page_owners s) of
        None \<Rightarrow> (None, s)
      | Some idx \<Rightarrow> (Some (snd (page_owners s ! idx)), s\<lparr>page_owners := swap_remove idx (page_owners s)\<rparr>))"

definition owned_by :: "Pid \<Rightarrow> 'a kmem_scheme \<Rightarrow> (u64 \<times> PageOwner) list" where
  "owned_by pid s = filter (\<lambda>(_, w). owner_pid w = pid) (page_owners s)"

section \<open>Lemmas\<close>

lemma mset_swap_remove:
  assumes "i < length xs"
  shows "mset (swap_remove i xs) = mset xs - {#xs ! i#}"
proof -
  obtain ys z where xs: "xs = ys @ [z]" using assms by (cases xs rule: rev_cases) auto
  show ?thesis
  proof (cases "i < length ys")
    case True
    then have "mset (ys[i := z]) = add_mset z (mset ys - {#ys ! i#})" by (rule mset_update)
    with True show ?thesis by (simp add: swap_remove_def xs list_update_append nth_append)
  next
    case False
    with assms xs have "i = length ys" by simp
    then show ?thesis by (simp add: swap_remove_def xs)
  qed
qed

lemma untrack_simps [simp]:
  "ram (snd (untrack p s)) = ram s" "free_heads (snd (untrack p s)) = free_heads s"
  "free_counts (snd (untrack p s)) = free_counts s" "early_pt_idx (snd (untrack p s)) = early_pt_idx s"
  "owners_capacity (snd (untrack p s)) = owners_capacity s"
  by (auto simp: untrack_def split: option.splits)

text \<open>
  Tracking a block and then dropping it by its address leaves the register as a multiset as it was,
  when the address was not tracked before; the register never outgrows the reserved capacity, so it
  never reallocates.
\<close>

theorem track_untrack:
  assumes "phys \<notin> fst ` set (page_owners s)" and "length (page_owners s) < owners_capacity s"
  shows "\<exists>s'. track phys order tag pid s = Some s' \<and> length (page_owners s') \<le> owners_capacity s' \<and>
           fst (untrack phys s') = Some \<lparr>owner_tag' = tag, owner_pid = pid, owner_order = order\<rparr> \<and>
           mset (page_owners (snd (untrack phys s'))) = mset (page_owners s)"
proof -
  let ?w = "\<lparr>owner_tag' = tag, owner_pid = pid, owner_order = order\<rparr>"
  let ?s' = "s\<lparr>page_owners := page_owners s @ [(phys, ?w)]\<rparr>"
  let ?P = "\<lambda>(addr, _::PageOwner). addr = phys"
  have tr: "track phys order tag pid s = Some ?s'" using assms(2) by (simp add: track_def)
  have "position ?P (page_owners ?s') \<noteq> None" by (auto simp: position_None)
  then obtain i where i: "position ?P (page_owners ?s') = Some i" by blast
  note pos = position_Some [THEN iffD1, OF i]
  have "i = length (page_owners s)"
  proof (rule ccontr)
    assume "i \<noteq> length (page_owners s)"
    with pos have "i < length (page_owners s)" "?P (page_owners s ! i)" by (auto simp: nth_append)
    then show False using assms(1) nth_mem by (fastforce simp: image_iff)
  qed
  then have "fst (untrack phys ?s') = Some ?w"
    "mset (page_owners (snd (untrack phys ?s'))) = mset (page_owners s)"
    using i mset_swap_remove [of i "page_owners ?s'"] pos by (auto simp: untrack_def)
  with tr assms(2) show ?thesis by (intro exI [of _ ?s']) simp
qed

theorem track_untrack_witness:
  "\<exists>s'. track 0x5000 0 ''vma:heap'' 7
          \<lparr>ram = (\<lambda>_. 0), free_heads = [], free_counts = [], early_pt_idx = 0, page_owners = [],
           owners_capacity = RESERVE_CAPACITY\<rparr> = Some s' \<and>
        fst (untrack 0x5000 s') = Some \<lparr>owner_tag' = ''vma:heap'', owner_pid = 7, owner_order = 0\<rparr>"
  using track_untrack [of "0x5000" "\<lparr>ram = (\<lambda>_. 0), free_heads = [], free_counts = [], early_pt_idx = 0,
      page_owners = [], owners_capacity = RESERVE_CAPACITY\<rparr>" 0 "''vma:heap''" 7]
  by (auto simp: RESERVE_CAPACITY_def)

end
