(* ===== verification/Paging.thy ===== *)
theory Paging
  imports Page_Owner
begin

text \<open>
  Four-level page tables (\<^verbatim>\<open>src/kernel/src/paging.rs\<close>): entries, the two page allocators behind the trait
  \<^verbatim>\<open>PageAllocator\<close> and the operations of \<^verbatim>\<open>PageTableManager\<close>, over the bytes of physical memory. A
  \<^verbatim>\<open>PageTableManager\<close> is the physical address of its top-level table. Flushing the TLB has no effect on
  this state; the accessed and dirty bits are only ever set by the processor and are left out.
\<close>

section \<open>Entries and addresses\<close>

definition PF_PRESENT :: u64 where "PF_PRESENT = 0x1"
definition PF_WRITABLE :: u64 where "PF_WRITABLE = 0x2"
definition PF_USER :: u64 where "PF_USER = 0x4"
definition PF_ACCESSED :: u64 where "PF_ACCESSED = 0x20"
definition PF_DIRTY :: u64 where "PF_DIRTY = 0x40"
definition PF_HUGE :: u64 where "PF_HUGE = 0x80"
definition PF_NO_EXEC :: u64 where "PF_NO_EXEC = 0x8000000000000000"

definition PF_ALL :: u64 where
  "PF_ALL = PF_PRESENT OR PF_WRITABLE OR PF_USER OR PF_ACCESSED OR PF_DIRTY OR PF_HUGE OR PF_NO_EXEC"

definition flags_contain :: "u64 \<Rightarrow> u64 \<Rightarrow> bool" where
  "flags_contain flags f \<longleftrightarrow> flags AND f = f"

definition PHYS_ADDR_MASK :: u64 where
  "PHYS_ADDR_MASK = 0xffffffffff000"

definition is_present :: "u64 \<Rightarrow> bool" where
  "is_present e \<longleftrightarrow> e AND PF_PRESENT \<noteq> 0"

definition pte_phys_addr :: "u64 \<Rightarrow> u64" where
  "pte_phys_addr e = e AND PHYS_ADDR_MASK"

definition pte_flags :: "u64 \<Rightarrow> u64" where
  "pte_flags e = e AND PF_ALL"

definition new_table :: "u64 \<Rightarrow> u64 \<Rightarrow> u64" where
  "new_table phys flags = phys OR flags"

definition new_page :: "u64 \<Rightarrow> u64 \<Rightarrow> u64" where
  "new_page phys flags = phys OR flags"

record VirtAddrParts =
  part_pml4 :: u64
  part_pdpt :: u64
  part_pd :: u64
  part_pt :: u64
  part_offset :: u64

definition VirtAddrParts_from_u64 :: "u64 \<Rightarrow> VirtAddrParts" where
  "VirtAddrParts_from_u64 addr =
     \<lparr>part_pml4 = drop_bit 39 addr AND 0x1ff, part_pdpt = drop_bit 30 addr AND 0x1ff,
      part_pd = drop_bit 21 addr AND 0x1ff, part_pt = drop_bit 12 addr AND 0x1ff,
      part_offset = addr AND 0xfff\<rparr>"

definition SIZE_2MB :: u64 where "SIZE_2MB = 0x200000"
definition SIZE_4KB :: u64 where "SIZE_4KB = 0x1000"

text \<open>A table behind a kernel pointer: its 512 entries and clearing it.\<close>

definition table_get :: "pmem \<Rightarrow> u64 \<Rightarrow> u64 \<Rightarrow> u64" where
  "table_get m ptr i = read64 m (deref_phys ptr + 8 * i)"

definition table_set :: "pmem \<Rightarrow> u64 \<Rightarrow> u64 \<Rightarrow> u64 \<Rightarrow> pmem" where
  "table_set m ptr i e = write64 m (deref_phys ptr + 8 * i) e"

definition table_zero :: "pmem \<Rightarrow> u64 \<Rightarrow> pmem" where
  "table_zero m ptr = write_bytes m (deref_phys ptr) 0 4096"

section \<open>Page allocators\<close>

text \<open>A \<^verbatim>\<open>dyn PageAllocator\<close> is the record of its methods.\<close>

record 's allocator_ops =
  alloc_page :: "'s \<Rightarrow> ((u64 \<times> u64) option \<times> 's) option"
  free_page :: "u64 \<Rightarrow> 's \<Rightarrow> 's option"
  phys_to_ptr :: "u64 \<Rightarrow> u64 option"

definition EARLY_PT_COUNT :: nat where
  "EARLY_PT_COUNT = 64"

text \<open>The early allocator hands out the pages of a static array, at \<open>base\<close>, which is identity mapped.\<close>

definition EarlyAllocator :: "u64 \<Rightarrow> 'a kmem_scheme allocator_ops" where
  "EarlyAllocator base =
     \<lparr>alloc_page = (\<lambda>s.
        let idx = early_pt_idx s; s = s\<lparr>early_pt_idx := idx + 1\<rparr> in
        if EARLY_PT_COUNT \<le> idx then None
        else let ptr = base + 4096 * of_nat idx in
          Some (Some (ptr, ptr), s\<lparr>ram := write_bytes (ram s) (deref_phys ptr) 0 4096\<rparr>)),
      free_page = (\<lambda>phys s. Some s),
      phys_to_ptr = (\<lambda>phys. Some phys)\<rparr>"

definition BuddyPages :: "'a kmem_scheme allocator_ops" where
  "BuddyPages =
     \<lparr>alloc_page = (\<lambda>s. do {
        (phys, s) \<leftarrow> buddy_alloc 0 s;
        (case phys of
           None \<Rightarrow> Some (None, s)
         | Some phys \<Rightarrow> do { virt \<leftarrow> phys_to_virt phys; Some (Some (virt, phys), s) })
      }),
      free_page = (\<lambda>phys s. buddy_free phys 0 s),
      phys_to_ptr = phys_to_virt\<rparr>"

section \<open>Operations\<close>

definition ensure_table ::
    "'a kmem_scheme allocator_ops \<Rightarrow> u64 \<Rightarrow> u64 \<Rightarrow> u64 \<Rightarrow> 'a kmem_scheme \<Rightarrow> (u64 option \<times> 'a kmem_scheme) option" where
  "ensure_table A ptr i table_flags s =
     (let entry = table_get (ram s) ptr i in
      if is_present entry then
        if flags_contain (pte_flags entry) PF_HUGE then Some (None, s)
        else
          let s = (if flags_contain table_flags PF_USER \<and> \<not> flags_contain (pte_flags entry) PF_USER
                   then s\<lparr>ram := table_set (ram s) ptr i
                                  (new_table (pte_phys_addr entry) (pte_flags entry OR PF_USER))\<rparr>
                   else s)
          in Some (Some (pte_phys_addr (table_get (ram s) ptr i)), s)
      else do {
        (page, s) \<leftarrow> alloc_page A s;
        (case page of
           None \<Rightarrow> Some (None, s)
         | Some (page_ptr, phys) \<Rightarrow>
             if phys = 0 then None
             else Some (Some phys, s\<lparr>ram := table_set (table_zero (ram s) page_ptr) ptr i
                                               (new_table phys table_flags)\<rparr>))
      })"

definition table_flags_for :: "u64 \<Rightarrow> u64" where
  "table_flags_for flags =
     (if flags_contain flags PF_USER then PF_PRESENT OR PF_WRITABLE OR PF_USER
      else PF_PRESENT OR PF_WRITABLE)"

definition map_4kb ::
    "'a kmem_scheme allocator_ops \<Rightarrow> u64 \<Rightarrow> u64 \<Rightarrow> u64 \<Rightarrow> u64 \<Rightarrow> 'a kmem_scheme \<Rightarrow> (unit option \<times> 'a kmem_scheme) option" where
  "map_4kb A pml4_phys virt phys flags s = do {
     let parts = VirtAddrParts_from_u64 virt;
     let table_flags = table_flags_for flags;
     pml4 \<leftarrow> phys_to_ptr A pml4_phys;
     (pdpt_phys, s) \<leftarrow> ensure_table A pml4 (part_pml4 parts) table_flags s;
     (case pdpt_phys of None \<Rightarrow> Some (None, s) | Some pdpt_phys \<Rightarrow> do {
       pdpt \<leftarrow> phys_to_ptr A pdpt_phys;
       (pd_phys, s) \<leftarrow> ensure_table A pdpt (part_pdpt parts) table_flags s;
       (case pd_phys of None \<Rightarrow> Some (None, s) | Some pd_phys \<Rightarrow> do {
         pd \<leftarrow> phys_to_ptr A pd_phys;
         (pt_phys, s) \<leftarrow> ensure_table A pd (part_pd parts) table_flags s;
         (case pt_phys of None \<Rightarrow> Some (None, s) | Some pt_phys \<Rightarrow> do {
           pt \<leftarrow> phys_to_ptr A pt_phys;
           Some (Some (), s\<lparr>ram := table_set (ram s) pt (part_pt parts) (new_page phys (flags OR PF_PRESENT))\<rparr>)
         })
       })
     })
   }"

definition map_2mb ::
    "'a kmem_scheme allocator_ops \<Rightarrow> u64 \<Rightarrow> u64 \<Rightarrow> u64 \<Rightarrow> u64 \<Rightarrow> 'a kmem_scheme \<Rightarrow> (unit option \<times> 'a kmem_scheme) option" where
  "map_2mb A pml4_phys virt phys flags s = do {
     let parts = VirtAddrParts_from_u64 virt;
     let table_flags = table_flags_for flags;
     pml4 \<leftarrow> phys_to_ptr A pml4_phys;
     (pdpt_phys, s) \<leftarrow> ensure_table A pml4 (part_pml4 parts) table_flags s;
     (case pdpt_phys of None \<Rightarrow> Some (None, s) | Some pdpt_phys \<Rightarrow> do {
       pdpt \<leftarrow> phys_to_ptr A pdpt_phys;
       (pd_phys, s) \<leftarrow> ensure_table A pdpt (part_pdpt parts) table_flags s;
       (case pd_phys of None \<Rightarrow> Some (None, s) | Some pd_phys \<Rightarrow> do {
         pd \<leftarrow> phys_to_ptr A pd_phys;
         Some (Some (), s\<lparr>ram := table_set (ram s) pd (part_pd parts)
                                   (new_page phys (flags OR PF_PRESENT OR PF_HUGE))\<rparr>)
       })
     })
   }"

definition unmap :: "u64 \<Rightarrow> u64 \<Rightarrow> 'a machine_scheme \<Rightarrow> (u64 option \<times> 'a machine_scheme) option" where
  "unmap pml4_phys virt s = do {
     let parts = VirtAddrParts_from_u64 virt;
     pml4 \<leftarrow> phys_to_virt pml4_phys;
     let e = table_get (ram s) pml4 (part_pml4 parts);
     (if \<not> is_present e then Some (None, s) else do {
       pdpt \<leftarrow> phys_to_virt (pte_phys_addr e);
       let e = table_get (ram s) pdpt (part_pdpt parts);
       (if \<not> is_present e then Some (None, s) else do {
         pd \<leftarrow> phys_to_virt (pte_phys_addr e);
         let e = table_get (ram s) pd (part_pd parts);
         (if \<not> is_present e then Some (None, s) else do {
           pt \<leftarrow> phys_to_virt (pte_phys_addr e);
           let e = table_get (ram s) pt (part_pt parts);
           (if \<not> is_present e then Some (None, s)
            else Some (Some (pte_phys_addr e), s\<lparr>ram := table_set (ram s) pt (part_pt parts) 0\<rparr>))
         })
       })
     })
   }"

definition translate :: "u64 \<Rightarrow> u64 \<Rightarrow> 'a machine_scheme \<Rightarrow> u64 option option" where
  "translate pml4_phys virt s = do {
     let parts = VirtAddrParts_from_u64 virt;
     pml4 \<leftarrow> phys_to_virt pml4_phys;
     let e = table_get (ram s) pml4 (part_pml4 parts);
     (if \<not> is_present e then Some None else do {
       pdpt \<leftarrow> phys_to_virt (pte_phys_addr e);
       let e = table_get (ram s) pdpt (part_pdpt parts);
       (if \<not> is_present e then Some None else do {
         pd \<leftarrow> phys_to_virt (pte_phys_addr e);
         let e = table_get (ram s) pd (part_pd parts);
         (if \<not> is_present e then Some None
          else if flags_contain (pte_flags e) PF_HUGE then
            map_option Some (checked_add (pte_phys_addr e) (virt AND (SIZE_2MB - 1)))
          else do {
            pt \<leftarrow> phys_to_virt (pte_phys_addr e);
            let e = table_get (ram s) pt (part_pt parts);
            (if \<not> is_present e then Some None
             else map_option Some (checked_add (pte_phys_addr e) (part_offset parts)))
          })
       })
     })
   }"

definition PageTableManager_new :: "'a kmem_scheme allocator_ops \<Rightarrow> 'a kmem_scheme \<Rightarrow> (u64 option \<times> 'a kmem_scheme) option" where
  "PageTableManager_new A s = do {
     (page, s) \<leftarrow> alloc_page A s;
     (case page of
        None \<Rightarrow> Some (None, s)
      | Some (ptr, pml4_phys) \<Rightarrow> Some (Some pml4_phys, s\<lparr>ram := table_zero (ram s) ptr\<rparr>))
   }"

definition copy_entries :: "u64 \<Rightarrow> u64 \<Rightarrow> u64 list \<Rightarrow> pmem \<Rightarrow> pmem" where
  "copy_entries dst src = fold (\<lambda>i m. table_set m dst i (table_get m src i))"

definition PageTableManager_new_user ::
    "u64 \<Rightarrow> 'a kmem_scheme allocator_ops \<Rightarrow> Pid \<Rightarrow> 'a kmem_scheme \<Rightarrow> (u64 option \<times> 'a kmem_scheme) option" where
  "PageTableManager_new_user kernel_pml4_phys A owner s = do {
     (page, s) \<leftarrow> alloc_page A s;
     (case page of
        None \<Rightarrow> Some (None, s)
      | Some (ptr, new_pml4_phys) \<Rightarrow> do {
          s \<leftarrow> track new_pml4_phys 0 ''page-table:pml4'' owner s;
          kern_pml4 \<leftarrow> phys_to_virt kernel_pml4_phys;
          Some (Some new_pml4_phys,
                s\<lparr>ram := copy_entries ptr kern_pml4 (map of_nat [256..<512]) (table_zero (ram s) ptr)\<rparr>)
        })
   }"

definition sync_higher_half :: "u64 \<Rightarrow> u64 \<Rightarrow> 'a machine_scheme \<Rightarrow> 'a machine_scheme option" where
  "sync_higher_half dst_pml4_phys src s = do {
     dst \<leftarrow> phys_to_virt dst_pml4_phys;
     Some (s\<lparr>ram := copy_entries dst src (map of_nat [256..<512]) (ram s)\<rparr>)
   }"

text \<open>The loop of \<^verbatim>\<open>map_range\<close> ends because every step raises \<open>virt\<close> without overflow.\<close>

function map_range_loop ::
    "'a kmem_scheme allocator_ops \<Rightarrow> u64 \<Rightarrow> u64 \<Rightarrow> u64 \<Rightarrow> u64 \<Rightarrow> u64 \<Rightarrow> 'a kmem_scheme \<Rightarrow> (unit option \<times> 'a kmem_scheme) option" where
  "map_range_loop A pml4_phys virt phys end' flags s =
     (if virt < end' then
        let remaining = end' - virt;
            huge = (virt mod SIZE_2MB = 0 \<and> phys mod SIZE_2MB = 0 \<and> SIZE_2MB \<le> remaining);
            step = (if huge then SIZE_2MB else SIZE_4KB)
        in do {
          (r, s) \<leftarrow> (if huge then map_2mb A pml4_phys virt phys flags s else map_4kb A pml4_phys virt phys flags s);
          (case r of
             None \<Rightarrow> Some (None, s)
           | Some _ \<Rightarrow> do {
               virt' \<leftarrow> checked_add virt step;
               phys' \<leftarrow> checked_add phys step;
               map_range_loop A pml4_phys virt' phys' end' flags s
             })
        }
      else Some (Some (), s))"
  by pat_completeness auto
termination
proof (relation "measure (\<lambda>(A, r, virt, phys, e, f, s). 2 ^ 64 - unat virt)", goal_cases)
  case (2 A pml4_phys virt phys end' flags s remaining huge step r x y u virt' phys')
  have "0 < unat step" using 2(4) by (simp add: SIZE_2MB_def SIZE_4KB_def)
  moreover have "checked_add virt step = Some virt'" by (rule 2)
  then have "unat virt' = unat virt + unat step" by (rule checked_add_unat)
  moreover have "unat virt' < 2 ^ 64" using unsigned_less [of virt'] by simp
  ultimately show ?case by simp
qed simp

declare map_range_loop.simps [simp del]

definition map_range ::
    "'a kmem_scheme allocator_ops \<Rightarrow> u64 \<Rightarrow> u64 \<Rightarrow> u64 \<Rightarrow> u64 \<Rightarrow> u64 \<Rightarrow> 'a kmem_scheme \<Rightarrow> (unit option \<times> 'a kmem_scheme) option" where
  "map_range A pml4_phys virt_start phys_start size' flags s =
     (if size' = 0 then Some (Some (), s)
      else case checked_add virt_start size' of
             None \<Rightarrow> Some (None, s)
           | Some end' \<Rightarrow> map_range_loop A pml4_phys virt_start phys_start end' flags s)"

record MemoryRegion =
  region_start :: u64
  region_size :: u64

definition round_2mb :: "u64 \<Rightarrow> u64 \<Rightarrow> u64 option" where
  "round_2mb start size' = do {
     a \<leftarrow> checked_add start size';
     b \<leftarrow> checked_add a SIZE_2MB;
     c \<leftarrow> checked_sub b 1;
     Some (c AND NOT (SIZE_2MB - 1))
   }"

fun map_identity ::
    "u64 \<Rightarrow> 'a kmem_scheme allocator_ops \<Rightarrow> MemoryRegion list \<Rightarrow> 'a kmem_scheme \<Rightarrow> (unit option \<times> 'a kmem_scheme) option" where
  "map_identity pml4_phys A [] s = Some (Some (), s)"
| "map_identity pml4_phys A (region # regions) s = do {
     let start = region_start region AND NOT (SIZE_2MB - 1);
     end' \<leftarrow> round_2mb (region_start region) (region_size region);
     len \<leftarrow> checked_sub end' start;
     (r, s) \<leftarrow> map_range A pml4_phys start start len (PF_PRESENT OR PF_WRITABLE) s;
     (case r of None \<Rightarrow> Some (None, s) | Some _ \<Rightarrow> map_identity pml4_phys A regions s)
   }"

definition map_higher_half_region ::
    "u64 \<Rightarrow> 'a kmem_scheme allocator_ops \<Rightarrow> u64 \<Rightarrow> u64 \<Rightarrow> 'a kmem_scheme \<Rightarrow> (unit option \<times> 'a kmem_scheme) option" where
  "map_higher_half_region pml4_phys A phys_start size' s = do {
     let phys = phys_start AND NOT (SIZE_2MB - 1);
     end' \<leftarrow> round_2mb phys_start size';
     virt \<leftarrow> checked_add KERNEL_VIRT_BASE phys;
     len \<leftarrow> checked_sub end' phys;
     map_range A pml4_phys virt phys len (PF_PRESENT OR PF_WRITABLE) s
   }"

function map_image_loop :: "u64 \<Rightarrow> u64 \<Rightarrow> u64 \<Rightarrow> 'a kmem_scheme \<Rightarrow> 'a kmem_scheme option" where
  "map_image_loop pt addr end' s =
     (if addr < end' then do {
        (r, s) \<leftarrow> map_4kb BuddyPages pt addr addr (PF_PRESENT OR PF_WRITABLE) s;
        (case r of
           None \<Rightarrow> None
         | Some _ \<Rightarrow> do { addr' \<leftarrow> checked_add addr 0x1000; map_image_loop pt addr' end' s })
      }
      else Some s)"
  by pat_completeness auto
termination
proof (relation "measure (\<lambda>(pt, addr, e, s). 2 ^ 64 - unat addr)", goal_cases)
  case (2 pt addr end' s r x y u addr')
  have "checked_add addr 0x1000 = Some addr'" by (rule 2)
  then have "unat addr' = unat addr + 0x1000" by (auto dest: checked_add_unat)
  moreover have "unat addr' < 2 ^ 64" using unsigned_less [of addr'] by simp
  ultimately show ?case by simp
qed simp

declare map_image_loop.simps [simp del]

definition map_kernel_image :: "u64 \<Rightarrow> u64 \<Rightarrow> u64 \<Rightarrow> 'a kmem_scheme \<Rightarrow> 'a kmem_scheme option" where
  "map_kernel_image pt image_base_phys image_size s = do {
     let start = image_base_phys AND NOT 0xfff;
     a \<leftarrow> checked_add image_base_phys image_size;
     b \<leftarrow> checked_add a 0xfff;
     map_image_loop pt start (b AND NOT 0xfff) s
   }"

text \<open>Giving the tables of the lower half back.\<close>

definition free_pt :: "u64 \<Rightarrow> 'a buddy_scheme \<Rightarrow> 'a buddy_scheme option" where
  "free_pt phys s = do {
     t \<leftarrow> phys_to_virt phys;
     let m = fold (\<lambda>i m. if is_present (table_get m t i) then table_set m t i 0 else m)
               (map of_nat [0..<512]) (ram s);
     buddy_free phys 0 (s\<lparr>ram := m\<rparr>)
   }"

definition free_pd :: "u64 \<Rightarrow> 'a buddy_scheme \<Rightarrow> 'a buddy_scheme option" where
  "free_pd phys s = do {
     t \<leftarrow> phys_to_virt phys;
     s \<leftarrow> for_each (\<lambda>i s. let e = table_get (ram s) t i in
            if is_present e \<and> \<not> flags_contain (pte_flags e) PF_HUGE then free_pt (pte_phys_addr e) s else Some s)
          (map of_nat [0..<512]) s;
     buddy_free phys 0 s
   }"

definition free_pdpt :: "u64 \<Rightarrow> 'a buddy_scheme \<Rightarrow> 'a buddy_scheme option" where
  "free_pdpt phys s = do {
     t \<leftarrow> phys_to_virt phys;
     s \<leftarrow> for_each (\<lambda>i s. let e = table_get (ram s) t i in
            if is_present e \<and> \<not> flags_contain (pte_flags e) PF_HUGE then free_pd (pte_phys_addr e) s else Some s)
          (map of_nat [0..<512]) s;
     buddy_free phys 0 s
   }"

definition free_user_tables :: "u64 \<Rightarrow> 'a buddy_scheme \<Rightarrow> 'a buddy_scheme option" where
  "free_user_tables pml4_phys s = do {
     pml4 \<leftarrow> phys_to_virt pml4_phys;
     for_each (\<lambda>i s. let e = table_get (ram s) pml4 i in
         if is_present e then do {
           s \<leftarrow> free_pdpt (pte_phys_addr e) s;
           Some (s\<lparr>ram := table_set (ram s) pml4 i 0\<rparr>)
         } else Some s)
       (map of_nat [0..<256]) s
   }"

end
