(* ===== verification/Page_Tree.thy ===== *)
theory Page_Tree
  imports Paging
begin

text \<open>
  Page tables as trees in memory: the frames the tables of a tree occupy, that they are distinct
  (\<open>pt_ok\<close>), and the partial function from virtual to physical addresses the tree stands for
  (\<open>leaf\<close>). The contract of a page allocator is the locale \<open>page_allocator\<close>; inside it the walk that
  makes missing tables is shown to change \<open>leaf\<close> at one page only.
\<close>

section \<open>Entries of a table in memory\<close>

lemma entry_addr:
  assumes "in_window t" and "i < 512"
  shows "unat (t + 8 * i) = unat t + 8 * unat i" and "frame (t + 8 * i) = frame t"
    and "unat (t + 8 * i) mod 4096 \<le> 4088"
proof -
  have i: "unat i < 512" using assms(2) by (simp add: word_less_nat_alt)
  then have u8: "unat (8 * i) = 8 * unat i" by (simp add: unat_word_ariths)
  have t: "unat t < 2 ^ 47" "unat t mod 4096 = 0" using assms(1) by (auto simp: in_window_def)
  then have "unat t + unat (8 * i) < 2 ^ LENGTH(64)" using u8 i by simp
  then show u: "unat (t + 8 * i) = unat t + 8 * unat i" using u8 by (simp add: unat_add_exact)
  have "(unat t + 8 * unat i) mod 4096 = 8 * unat i" using t(2) i by (simp add: mod_add_eq [symmetric, of "unat t"])
  then show "unat (t + 8 * i) mod 4096 \<le> 4088" using u i by simp
  have "(unat t + 8 * unat i) div 4096 = unat t div 4096" by (rule div_add_below) (use t i in simp)
  then show "frame (t + 8 * i) = frame t" using u by (simp add: frame_def)
qed

lemma read64_write64_entry:
  assumes "in_window t" and "i < 512" and "j < 512"
  shows "read64 (write64 m (t + 8 * i) v) (t + 8 * j) = (if i = j then v else read64 m (t + 8 * j))"
proof (cases "i = j")
  case True
  then show ?thesis by (simp add: read64_write64_same)
next
  case False
  have "load_bytes (write64 m (t + 8 * i) v) (t + 8 * j) 8 = load_bytes m (t + 8 * j) 8"
  proof (rule load_bytes_cong)
    fix k :: nat assume k: "k < 8"
    have u: "unat i < 512" "unat j < 512" "unat i \<noteq> unat j"
      using assms False by (auto simp: word_less_nat_alt word_unat_eq_iff)
    have t: "unat t < 2 ^ 47" using assms(1) by (simp add: in_window_def)
    have "8 \<le> unat (t + 8 * j + of_nat k - (t + 8 * i))"
    proof (cases "unat i < unat j")
      case True
      have a: "unat (8 * j + of_nat k) = 8 * unat j + k" "unat (8 * i) = 8 * unat i"
        using u k by (simp_all add: unat_word_ariths unat_of_nat)
      have "unat (8 * j + of_nat k - 8 * i) = 8 * unat j + k - 8 * unat i"
        using a True k by (subst unat_sub_exact) (auto simp: word_le_nat_alt)
      with True show ?thesis by (simp add: algebra_simps)
    next
      case nlt: False
      have a: "unat (8 * i) = 8 * unat i" "unat (8 * j + of_nat k) = 8 * unat j + k"
        using u k by (simp_all add: unat_word_ariths unat_of_nat)
      let ?d = "8 * i - (8 * j + of_nat k)"
      have d: "unat ?d = 8 * unat i - (8 * unat j + k)"
        using a nlt u k by (subst unat_sub_exact) (auto simp: word_le_nat_alt)
      have pos: "0 < unat ?d" and le: "unat ?d \<le> 4096" using d nlt u k by auto
      have "t + 8 * j + of_nat k - (t + 8 * i) + ?d = 0" by simp
      then show ?thesis
        using unat_add_exact [of "t + 8 * j + of_nat k - (t + 8 * i)" ?d] pos le by fastforce
    qed
    then show "write64 m (t + 8 * i) v (t + 8 * j + of_nat k) = m (t + 8 * j + of_nat k)"
      unfolding write64_def store_bytes_def uint_less_int length_to_le_bytes by (simp only: not_less [symmetric] if_False)
  qed
  then show ?thesis using False by (simp add: read64_def)
qed

lemma read64_zeroed:
  assumes "in_window t" and "i < 512"
  shows "read64 (write_bytes m t 0 4096) (t + 8 * i) = 0"
proof -
  have i: "unat i < 512" using assms(2) by (simp add: word_less_nat_alt)
  have "load_bytes (write_bytes m t 0 4096) (t + 8 * i) 8 = load_bytes (\<lambda>_. 0) (t + 8 * i) 8"
  proof (rule load_bytes_cong)
    fix k :: nat assume "k < 8"
    then have "unat (8 * i + of_nat k) = 8 * unat i + k" using i by (simp add: unat_word_ariths unat_of_nat)
    moreover have "t + 8 * i + of_nat k - t = 8 * i + of_nat k" by simp
    ultimately have "unat (t + 8 * i + of_nat k - t) < 4096" using i \<open>k < 8\<close> by simp
    then show "write_bytes m t 0 4096 (t + 8 * i + of_nat k) = 0"
      unfolding write_bytes_def uint_less_int by (simp only: if_True)
  qed
  moreover have "read64 (\<lambda>_. 0) a = 0" for a
    by (simp add: read64_def load_bytes_def le_word_def numeral_eq_Suc)
  ultimately show ?thesis by (simp add: read64_def)
qed

section \<open>Entry encodings\<close>

lemma in_window_and_mask:
  assumes "in_window p"
  shows "p AND PHYS_ADDR_MASK = p"
proof (rule bit_word_eqI)
  fix n assume "n < LENGTH(64)"
  have lo: "\<not> bit p n" if "n < 12"
  proof -
    have "2 ^ 12 dvd unat p" using assms by (simp add: in_window_def)
    then have "take_bit 12 p = 0"
      by (metis take_bit_eq_0_iff unsigned_take_bit_eq unsigned_0 unsigned_eq_0_iff)
    then show ?thesis using that by (metis bit_take_bit_iff bit_0_eq bot_apply bot_bool_def)
  qed
  have hi: "\<not> bit p n" if "47 \<le> n"
  proof -
    have "take_bit 47 (unat p) = unat p" using assms by (simp add: take_bit_nat_eq_self_iff in_window_def)
    then have "take_bit 47 p = p" by (metis unsigned_take_bit_eq word_unat_eq_iff)
    then show ?thesis using that by (metis bit_take_bit_iff leD)
  qed
  have m: "PHYS_ADDR_MASK = push_bit 12 (mask 40)" by (simp add: PHYS_ADDR_MASK_def mask_eq_exp_minus_1 push_bit_eq_mult)
  show "bit (p AND PHYS_ADDR_MASK) n = bit p n"
    using lo hi \<open>n < LENGTH(64)\<close> unfolding m
    by (cases "n < 12"; cases "47 \<le> n") (auto simp: bit_simps)
qed

definition flags_ok :: "u64 \<Rightarrow> bool" where
  "flags_ok f \<longleftrightarrow> f AND PF_ALL = f"

lemmas PF_defs = PF_PRESENT_def PF_WRITABLE_def PF_USER_def PF_ACCESSED_def PF_DIRTY_def PF_HUGE_def
  PF_NO_EXEC_def

lemma mask_flags_disjoint: "PHYS_ADDR_MASK AND PF_ALL = 0"
  by (simp add: PHYS_ADDR_MASK_def PF_ALL_def PF_defs)

lemma entry_decode:
  assumes "in_window p" and "flags_ok f"
  shows "pte_phys_addr (p OR f) = p" and "pte_flags (p OR f) = f"
    and "is_present (p OR f) \<longleftrightarrow> flags_contain f PF_PRESENT"
proof -
  have "f AND PHYS_ADDR_MASK = (f AND PF_ALL) AND PHYS_ADDR_MASK"
    using assms(2) by (simp only: flags_ok_def)
  also have "\<dots> = f AND (PHYS_ADDR_MASK AND PF_ALL)" by (simp only: ac_simps)
  finally have f: "f AND PHYS_ADDR_MASK = 0" by (simp only: mask_flags_disjoint and_zero_eq)
  have "p AND PF_ALL = (p AND PHYS_ADDR_MASK) AND PF_ALL" by (simp only: in_window_and_mask [OF assms(1)])
  also have "\<dots> = p AND (PHYS_ADDR_MASK AND PF_ALL)" by (simp only: ac_simps)
  finally have p: "p AND PF_ALL = 0" by (simp only: mask_flags_disjoint and_zero_eq)
  show "pte_phys_addr (p OR f) = p"
    using f in_window_and_mask [OF assms(1)] by (simp add: pte_phys_addr_def bit.conj_disj_distrib2)
  show "pte_flags (p OR f) = f"
    using p assms(2) by (simp add: pte_flags_def flags_ok_def bit.conj_disj_distrib2)
  have "PF_ALL AND PF_PRESENT = PF_PRESENT" by (simp add: PF_ALL_def PF_defs)
  then have "p AND PF_PRESENT = (p AND PF_ALL) AND PF_PRESENT" by (simp only: and.assoc)
  then have "p AND PF_PRESENT = 0" by (simp only: p zero_and_eq)
  then have "(p OR f) AND PF_PRESENT = f AND PF_PRESENT" by (simp add: bit.conj_disj_distrib2)
  moreover have "x AND PF_PRESENT \<noteq> 0 \<longleftrightarrow> x AND PF_PRESENT = PF_PRESENT" for x :: u64
    by (simp add: PF_PRESENT_def and_one_eq)
  ultimately show "is_present (p OR f) \<longleftrightarrow> flags_contain f PF_PRESENT"
    by (simp add: is_present_def flags_contain_def)
qed

lemma flags_ok_simps [simp]:
  "flags_ok PF_PRESENT" "flags_ok PF_USER" "flags_ok PF_WRITABLE" "flags_ok PF_NO_EXEC"
  "flags_ok f \<Longrightarrow> flags_ok g \<Longrightarrow> flags_ok (f OR g)" "flags_ok (pte_flags e)"
  by (auto simp: flags_ok_def PF_ALL_def PF_defs pte_flags_def bit.conj_disj_distrib2 and.assoc)

lemma flags_contain_or:
  "flags_contain f x \<Longrightarrow> flags_contain (f OR g) x" "flags_contain g x \<Longrightarrow> flags_contain (f OR g) x"
  by (auto simp: flags_contain_def bit_eq_iff bit_simps)

section \<open>The tree of tables\<close>

abbreviation pte :: "pmem \<Rightarrow> u64 \<Rightarrow> u64 \<Rightarrow> u64" where
  "pte m t i \<equiv> read64 m (t + 8 * i)"

text \<open>An entry above the last level that refers to a table.\<close>

definition subtable :: "u64 \<Rightarrow> bool" where
  "subtable e \<longleftrightarrow> is_present e \<and> \<not> flags_contain (pte_flags e) PF_HUGE"

definition vidx :: "nat \<Rightarrow> u64 \<Rightarrow> u64" where
  "vidx n v = drop_bit (12 + 9 * n) v AND 0x1ff"

text \<open>
  The tables reachable from the table \<open>t\<close> at level \<open>n\<close> (0 for a last-level table): their frames, that
  they form a tree inside the direct map, and the entry that maps \<open>v\<close>, with its level (1 for a 2 MiB page).
\<close>

primrec pt_frames :: "nat \<Rightarrow> pmem \<Rightarrow> u64 \<Rightarrow> nat set" where
  "pt_frames 0 m t = {frame t}"
| "pt_frames (Suc n) m t =
     insert (frame t) (\<Union>i\<in>{i. i < 512 \<and> subtable (pte m t i)}. pt_frames n m (pte_phys_addr (pte m t i)))"

primrec pt_ok :: "nat \<Rightarrow> pmem \<Rightarrow> u64 \<Rightarrow> bool" where
  "pt_ok 0 m t \<longleftrightarrow> in_window t"
| "pt_ok (Suc n) m t \<longleftrightarrow> in_window t \<and>
     (\<forall>i<512. is_present (pte m t i) \<longrightarrow>
        (if subtable (pte m t i)
         then pt_ok n m (pte_phys_addr (pte m t i)) \<and> frame t \<notin> pt_frames n m (pte_phys_addr (pte m t i))
         else n = 0)) \<and>
     (\<forall>i<512. \<forall>j<512. i \<noteq> j \<and> subtable (pte m t i) \<and> subtable (pte m t j) \<longrightarrow>
        pt_frames n m (pte_phys_addr (pte m t i)) \<inter> pt_frames n m (pte_phys_addr (pte m t j)) = {})"

primrec leaf :: "nat \<Rightarrow> pmem \<Rightarrow> u64 \<Rightarrow> u64 \<Rightarrow> (nat \<times> u64) option" where
  "leaf 0 m t v =
     (let e = pte m t (vidx 0 v) in if is_present e then Some (0, e) else None)"
| "leaf (Suc n) m t v =
     (let e = pte m t (vidx (Suc n) v) in
      if \<not> is_present e then None
      else if subtable e then leaf n m (pte_phys_addr e) v
      else Some (Suc n, e))"

lemma vidx_less [simp]: "vidx n v < 512"
proof -
  have "vidx n v \<le> 0x1ff" unfolding vidx_def by (rule word_and_le1)
  then show ?thesis by (rule order.strict_trans1) simp
qed

lemma pt_ok_window: "pt_ok n m t \<Longrightarrow> in_window t"
  by (cases n) auto

lemma pt_frames_root [simp]: "frame t \<in> pt_frames n m t"
  by (cases n) auto

lemma pt_frames_child:
  "i < 512 \<Longrightarrow> subtable (pte m t i) \<Longrightarrow> pt_frames n m (pte_phys_addr (pte m t i)) \<subseteq> pt_frames (Suc n) m t"
  by auto

text \<open>Changes outside the frames of the tables do not matter.\<close>

lemma pte_mem_eq:
  assumes "mem_eq_off F m m'" and "in_window t" and "frame t \<notin> F" and "i < 512"
  shows "pte m' t i = pte m t i"
  using mem_eq_off_read64 [OF assms(1)] entry_addr [OF assms(2,4)] assms(3) by simp

lemma pt_mem_eq:
  assumes "pt_ok n m t" and "mem_eq_off F m m'" and "pt_frames n m t \<inter> F = {}"
  shows "pt_ok n m' t \<and> pt_frames n m' t = pt_frames n m t \<and> leaf n m' t v = leaf n m t v"
  using assms
proof (induction n arbitrary: t)
  case 0
  then show ?case using pte_mem_eq [OF 0(2)] by simp
next
  case (Suc n)
  have w: "in_window t" and nf: "frame t \<notin> F" using Suc.prems(1,3) by auto
  have e: "pte m' t i = pte m t i" if "i < 512" for i
    by (rule pte_mem_eq [OF Suc.prems(2) w nf that])
  have IH: "pt_ok n m' c" "pt_frames n m' c = pt_frames n m c" "leaf n m' c v = leaf n m c v"
    if "i < 512" "subtable (pte m t i)" "c = pte_phys_addr (pte m t i)" for i c
  proof -
    have "is_present (pte m t i)" using that(2) by (simp add: subtable_def)
    then have "pt_ok n m c" using Suc.prems(1) that by auto
    moreover have "pt_frames n m c \<inter> F = {}" using Suc.prems(3) that by auto
    ultimately show "pt_ok n m' c" "pt_frames n m' c = pt_frames n m c" "leaf n m' c v = leaf n m c v"
      using Suc.IH [of c] Suc.prems(2) by auto
  qed
  have fr: "pt_frames (Suc n) m' t = pt_frames (Suc n) m t" using e IH(2) by auto
  have lk: "leaf (Suc n) m' t v = leaf (Suc n) m t v" using e IH(3) by (simp add: Let_def)
  have "pt_ok (Suc n) m' t"
    using Suc.prems(1) e IH by auto
  with fr lk show ?case by blast
qed

lemma pt_ok_child:
  assumes "pt_ok (Suc n) m t" and "i < 512" and "subtable (pte m t i)"
  shows "pt_ok n m (pte_phys_addr (pte m t i))" and "frame t \<notin> pt_frames n m (pte_phys_addr (pte m t i))"
  using assms by (auto simp: subtable_def)

lemma pt_ok_huge:
  assumes "pt_ok (Suc n) m t" and "i < 512" and "is_present (pte m t i)" and "\<not> subtable (pte m t i)"
  shows "n = 0"
proof -
  from assms(1) have "\<forall>i<512. is_present (pte m t i) \<longrightarrow> \<not> subtable (pte m t i) \<longrightarrow> n = 0" by auto
  with assms(2-4) show ?thesis by blast
qed

text \<open>
  The one step of every change to a tree: below the table \<open>t\<close> only the entry \<open>i\<close> and its subtree
  change, and the new subtree is a tree disjoint from \<open>t\<close> and from the subtrees of the other entries.
\<close>

lemma pt_update:
  assumes ok: "pt_ok (Suc n) m t" and i: "i < 512"
    and ent: "\<And>j. j < 512 \<Longrightarrow> pte m' t j = (if j = i then e else pte m t j)"
    and e: "subtable e" "c = pte_phys_addr e"
    and mem: "mem_eq_off F m m'"
    and new: "pt_ok n m' c" "frame t \<notin> pt_frames n m' c"
    and sib: "\<And>j. j < 512 \<Longrightarrow> j \<noteq> i \<Longrightarrow> subtable (pte m t j) \<Longrightarrow>
                pt_frames n m (pte_phys_addr (pte m t j)) \<inter> (F \<union> pt_frames n m' c) = {}"
  shows "pt_ok (Suc n) m' t" and "pt_frames (Suc n) m' t \<subseteq> pt_frames (Suc n) m t \<union> pt_frames n m' c"
    and "leaf (Suc n) m' t w = (if vidx (Suc n) w = i then leaf n m' c w else leaf (Suc n) m t w)"
proof -
  have pres: "is_present e" using e(1) by (simp add: subtable_def)
  have old: "pt_ok n m' (pte_phys_addr (pte m t j)) \<and>
      pt_frames n m' (pte_phys_addr (pte m t j)) = pt_frames n m (pte_phys_addr (pte m t j)) \<and>
      leaf n m' (pte_phys_addr (pte m t j)) w = leaf n m (pte_phys_addr (pte m t j)) w"
    if "j < 512" "j \<noteq> i" "subtable (pte m t j)" for j w
  proof (rule pt_mem_eq [OF _ mem])
    have "is_present (pte m t j)" using that(3) by (simp add: subtable_def)
    then show "pt_ok n m (pte_phys_addr (pte m t j))" using ok that by auto
    show "pt_frames n m (pte_phys_addr (pte m t j)) \<inter> F = {}" using sib [OF that] by blast
  qed
  show "pt_frames (Suc n) m' t \<subseteq> pt_frames (Suc n) m t \<union> pt_frames n m' c"
  proof -
    have "pt_frames n m' (pte_phys_addr (pte m' t j)) \<subseteq> pt_frames (Suc n) m t \<union> pt_frames n m' c"
      if "j < 512" "subtable (pte m' t j)" for j
    proof (cases "j = i")
      case True
      then show ?thesis using ent [OF that(1)] e by auto
    next
      case False
      then have "subtable (pte m t j)" using that ent by simp
      moreover have "pte m' t j = pte m t j" using ent [OF that(1)] False by simp
      ultimately have "pt_frames n m' (pte_phys_addr (pte m' t j)) = pt_frames n m (pte_phys_addr (pte m t j))"
        using old [OF that(1) False] by simp
      then show ?thesis using pt_frames_child [OF that(1) \<open>subtable (pte m t j)\<close>, of n] by blast
    qed
    then show ?thesis by auto
  qed
  show "leaf (Suc n) m' t w = (if vidx (Suc n) w = i then leaf n m' c w else leaf (Suc n) m t w)"
    using ent [of "vidx (Suc n) w"] old [of "vidx (Suc n) w" w] e pres
    by (auto simp: Let_def)
  have fr: "frame t \<notin> pt_frames n m (pte_phys_addr (pte m t j))" if "j < 512" "subtable (pte m t j)" for j
    using ok that by (auto simp: subtable_def)
  have disj: "pt_frames n m (pte_phys_addr (pte m t j)) \<inter> pt_frames n m (pte_phys_addr (pte m t k)) = {}"
    if "j < 512" "k < 512" "j \<noteq> k" "subtable (pte m t j)" "subtable (pte m t k)" for j k
    using ok that by auto
  have one: "is_present (pte m' t j) \<longrightarrow> (if subtable (pte m' t j)
         then pt_ok n m' (pte_phys_addr (pte m' t j)) \<and> frame t \<notin> pt_frames n m' (pte_phys_addr (pte m' t j))
         else n = 0)" if "j < 512" for j
  proof (cases "j = i")
    case True
    then show ?thesis using ent [OF that] e new by simp
  next
    case False
    then have "pte m' t j = pte m t j" using ent [OF that] by simp
    then show ?thesis using ok that False old [OF that False] fr [OF that] by auto
  qed
  have two: "pt_frames n m' (pte_phys_addr (pte m' t j)) \<inter> pt_frames n m' (pte_phys_addr (pte m' t k)) = {}"
    if jk: "j < 512" "k < 512" "j \<noteq> k" "subtable (pte m' t j)" "subtable (pte m' t k)" for j k
  proof -
    consider "j = i" "k \<noteq> i" | "k = i" "j \<noteq> i" | "j \<noteq> i" "k \<noteq> i" using jk(3) by blast
    then show ?thesis
    proof cases
      case 1
      then show ?thesis using ent [OF jk(1)] ent [OF jk(2)] jk e old [OF jk(2)] sib [OF jk(2)] by auto
    next
      case 2
      then show ?thesis using ent [OF jk(1)] ent [OF jk(2)] jk e old [OF jk(1)] sib [OF jk(1)] by auto
    next
      case 3
      then show ?thesis using ent [OF jk(1)] ent [OF jk(2)] jk old [OF jk(1)] old [OF jk(2)] disj [OF jk(1-3)] by auto
    qed
  qed
  show "pt_ok (Suc n) m' t" using pt_ok_window [OF ok] one two by (simp only: pt_ok.simps) blast
qed

lemma pt_child_update:
  assumes ok: "pt_ok (Suc n) m t" and i: "i < 512" and sub: "subtable (pte m t i)" "c = pte_phys_addr (pte m t i)"
    and mem: "mem_eq_off (pt_frames n m c \<union> P) m m'" and P: "P \<inter> pt_frames (Suc n) m t = {}"
    and new: "pt_ok n m' c" "pt_frames n m' c \<subseteq> pt_frames n m c \<union> Q" "Q \<subseteq> P"
  shows "pt_ok (Suc n) m' t" and "pt_frames (Suc n) m' t \<subseteq> pt_frames (Suc n) m t \<union> Q"
    and "leaf (Suc n) m' t w = (if vidx (Suc n) w = i then leaf n m' c w else leaf (Suc n) m t w)"
proof -
  have ft: "frame t \<notin> pt_frames n m c" using ok i sub by (auto simp: subtable_def)
  then have ft': "frame t \<notin> pt_frames n m c \<union> P" using P by auto
  have ent: "pte m' t j = (if j = i then pte m t i else pte m t j)" if "j < 512" for j
    using pte_mem_eq [OF mem pt_ok_window [OF ok] ft' that] by simp
  have sib: "pt_frames n m (pte_phys_addr (pte m t j)) \<inter> ((pt_frames n m c \<union> P) \<union> pt_frames n m' c) = {}"
    if "j < 512" "j \<noteq> i" "subtable (pte m t j)" for j
  proof -
    have "pt_frames n m (pte_phys_addr (pte m t j)) \<inter> pt_frames n m c = {}" using ok i sub that by auto
    moreover have "pt_frames n m (pte_phys_addr (pte m t j)) \<inter> P = {}"
      using P pt_frames_child [OF that(1,3), of n] by blast
    ultimately show ?thesis using new(2,3) by blast
  qed
  note U = pt_update [OF ok i ent sub mem new(1) _ sib]
  have nf: "frame t \<notin> pt_frames n m' c" using ft' new(2,3) by blast
  show "pt_ok (Suc n) m' t" by (rule U(1) [OF _ nf])
  have "pt_frames (Suc n) m' t \<subseteq> pt_frames (Suc n) m t \<union> pt_frames n m' c" by (rule U(2) [OF _ nf])
  moreover have "pt_frames n m c \<subseteq> pt_frames (Suc n) m t" using pt_frames_child [OF i sub(1), of n] sub(2) by simp
  ultimately show "pt_frames (Suc n) m' t \<subseteq> pt_frames (Suc n) m t \<union> Q" using new(2) by blast
  show "leaf (Suc n) m' t w = (if vidx (Suc n) w = i then leaf n m' c w else leaf (Suc n) m t w)"
    by (rule U(3) [OF _ nf])
qed

section \<open>What the tables rely on: the contract of a page allocator\<close>

text \<open>
  A page allocator owns a pool of frames. A page it hands out is a frame of the pool, reachable through
  the pointer it returns; nothing outside the pool changes; and writes outside the pool do not disturb it.
\<close>

locale page_allocator =
  fixes A :: "'a kmem_scheme allocator_ops" and inv :: "'a kmem_scheme \<Rightarrow> bool" and pool :: "'a kmem_scheme \<Rightarrow> nat set"
  assumes alloc_inv: "inv s \<Longrightarrow> alloc_page A s = Some (r, s') \<Longrightarrow> inv s'"
    and alloc_none: "inv s \<Longrightarrow> alloc_page A s = Some (None, s') \<Longrightarrow> s' = s \<and> pool s = {}"
    and alloc_some: "inv s \<Longrightarrow> alloc_page A s = Some (Some (ptr, p), s') \<Longrightarrow>
      deref_phys ptr = p \<and> in_window p \<and> p \<noteq> 0 \<and> frame p \<in> pool s \<and> pool s' = pool s - {frame p} \<and>
      mem_eq_off (pool s) (ram s) (ram s')"
    and alloc_owners: "inv s \<Longrightarrow> alloc_page A s = Some (r, s') \<Longrightarrow>
      page_owners s' = page_owners s \<and> owners_capacity s' = owners_capacity s"
    and ptr_ok: "unat p < 2 ^ 47 \<Longrightarrow> \<exists>q. phys_to_ptr A p = Some q \<and> deref_phys q = p"
    and write_ok: "inv s \<Longrightarrow> mem_eq_off F (ram s) m \<Longrightarrow> F \<inter> pool s = {} \<Longrightarrow>
      inv (s\<lparr>ram := m\<rparr>) \<and> pool (s\<lparr>ram := m\<rparr>) = pool s"

text \<open>An allocator that in addition always answers.\<close>

locale total_page_allocator = page_allocator +
  assumes alloc_returns: "inv s \<Longrightarrow> alloc_page A s \<noteq> None"

text \<open>Facts on entries and fresh tables that do not depend on the allocator.\<close>

lemma present_flags: "is_present e \<longleftrightarrow> flags_contain (pte_flags e) PF_PRESENT"
proof -
  have "PF_ALL AND PF_PRESENT = PF_PRESENT" by (simp add: PF_ALL_def PF_defs)
  then have "pte_flags e AND PF_PRESENT = e AND PF_PRESENT" by (simp add: pte_flags_def and.assoc)
  then show ?thesis by (simp add: is_present_def flags_contain_def PF_PRESENT_def and_one_eq)
qed

lemma flags_contain_or_disjoint: "g AND x = 0 \<Longrightarrow> flags_contain (f OR g) x \<longleftrightarrow> flags_contain f x"
  by (simp add: flags_contain_def bit.conj_disj_distrib2)

lemma subtable_new:
  assumes "in_window p" and "flags_ok f" and "flags_contain f PF_PRESENT" and "\<not> flags_contain f PF_HUGE"
  shows "subtable (new_table p f)" and "pte_phys_addr (new_table p f) = p"
  using assms entry_decode [OF assms(1,2)] by (auto simp: subtable_def new_table_def)

lemma not_present_0 [simp]: "\<not> is_present 0" "\<not> subtable 0"
  by (auto simp: is_present_def subtable_def)

lemma pt_empty:
  assumes "in_window t" and "\<And>i. i < 512 \<Longrightarrow> pte m t i = 0"
  shows "pt_ok n m t" and "pt_frames n m t = {frame t}" and "leaf n m t v = None"
  using assms by (cases n; force)+

lemma table_set_spec:
  assumes "in_window t" and "deref_phys q = t" and "i < 512"
  shows "mem_eq_off {frame t} m (table_set m q i e)"
    and "j < 512 \<Longrightarrow> pte (table_set m q i e) t j = (if j = i then e else pte m t j)"
  using assms entry_addr [OF assms(1,3)] mem_eq_off_write64 [of "t + 8 * i" m e]
    read64_write64_entry [OF assms(1,3), of j m e]
  by (auto simp: table_set_def)

lemma table_zero_spec:
  assumes "in_window t" and "deref_phys q = t"
  shows "mem_eq_off {frame t} m (table_zero m q)" and "i < 512 \<Longrightarrow> pte (table_zero m q) t i = 0"
  using assms mem_eq_off_write_bytes [of t 4096 m 0] read64_zeroed [OF assms(1), of i m]
  by (auto simp: table_zero_def in_window_def)

text \<open>The recursion that \<^verbatim>\<open>map_4kb\<close> unrolls, with the entry to store at the last level.\<close>

primrec map_level ::
    "'a kmem_scheme allocator_ops \<Rightarrow> nat \<Rightarrow> u64 \<Rightarrow> u64 \<Rightarrow> u64 \<Rightarrow> u64 \<Rightarrow> 'a kmem_scheme \<Rightarrow> (unit option \<times> 'a kmem_scheme) option" where
  "map_level A 0 t v e tf s = do {
     q \<leftarrow> phys_to_ptr A t;
     Some (Some (), s\<lparr>ram := table_set (ram s) q (vidx 0 v) e\<rparr>)
   }"
| "map_level A (Suc n) t v e tf s = do {
     q \<leftarrow> phys_to_ptr A t;
     (c, s) \<leftarrow> ensure_table A q (vidx (Suc n) v) tf s;
     (case c of None \<Rightarrow> Some (None, s) | Some c \<Rightarrow> map_level A n c v e tf s)
   }"

lemma parts_vidx:
  "part_pml4 (VirtAddrParts_from_u64 v) = vidx (Suc (Suc (Suc 0))) v"
  "part_pdpt (VirtAddrParts_from_u64 v) = vidx (Suc (Suc 0)) v"
  "part_pd (VirtAddrParts_from_u64 v) = vidx (Suc 0) v"
  "part_pt (VirtAddrParts_from_u64 v) = vidx 0 v"
  "part_offset (VirtAddrParts_from_u64 v) = v AND 0xfff"
  by (simp_all add: VirtAddrParts_from_u64_def vidx_def)

abbreviation PML4_LEVEL :: nat where
  "PML4_LEVEL \<equiv> Suc (Suc (Suc 0))"

lemma map_4kb_level:
  "map_4kb A t v p f s = map_level A PML4_LEVEL t v (new_page p (f OR PF_PRESENT)) (table_flags_for f) s"
  unfolding map_4kb_def map_level.simps Let_def parts_vidx ..

definition same_path :: "nat \<Rightarrow> u64 \<Rightarrow> u64 \<Rightarrow> bool" where
  "same_path n v w \<longleftrightarrow> (\<forall>k\<le>n. vidx k v = vidx k w)"

lemma same_path_simps [simp]:
  "same_path 0 v w \<longleftrightarrow> vidx 0 v = vidx 0 w"
  "same_path (Suc n) v w \<longleftrightarrow> vidx (Suc n) v = vidx (Suc n) w \<and> same_path n v w"
  by (auto simp: same_path_def le_Suc_eq)

text \<open>No 2 MiB page on the way to \<open>v\<close>.\<close>

primrec small_path :: "nat \<Rightarrow> pmem \<Rightarrow> u64 \<Rightarrow> u64 \<Rightarrow> bool" where
  "small_path 0 m t v \<longleftrightarrow> True"
| "small_path (Suc n) m t v \<longleftrightarrow>
     (let e = pte m t (vidx (Suc n) v) in is_present e \<longrightarrow> subtable e \<and> small_path n m (pte_phys_addr e) v)"

lemma small_path_leaf: "small_path n m t v \<longleftrightarrow> (\<forall>k e. leaf n m t v = Some (k, e) \<longrightarrow> k = 0)"
  by (induction n arbitrary: t) (auto simp: Let_def)

text \<open>What a change to the tree below \<open>t\<close> may do, with frames taken from a pool.\<close>

definition tree_step :: "nat \<Rightarrow> u64 \<Rightarrow> pmem \<Rightarrow> nat set \<Rightarrow> pmem \<Rightarrow> nat set \<Rightarrow> bool" where
  "tree_step n t m P m' P' \<longleftrightarrow> P' \<subseteq> P \<and> pt_ok n m' t \<and>
     pt_frames n m' t \<subseteq> pt_frames n m t \<union> (P - P') \<and> mem_eq_off (pt_frames n m t \<union> P) m m'"

lemma tree_step_refl: "pt_ok n m t \<Longrightarrow> tree_step n t m P m P"
  by (simp add: tree_step_def)

lemma tree_step_trans:
  assumes "tree_step n t m P m1 P1" and "tree_step n t m1 P1 m2 P2"
  shows "tree_step n t m P m2 P2"
proof -
  have "pt_frames n m1 t \<union> P1 \<subseteq> pt_frames n m t \<union> P" using assms(1) by (auto simp: tree_step_def)
  then have "mem_eq_off (pt_frames n m t \<union> P) m1 m2"
    using assms(2) mem_eq_off_mono by (metis tree_step_def)
  then have "mem_eq_off (pt_frames n m t \<union> P) m m2"
    using assms(1) mem_eq_off_trans [of "pt_frames n m t \<union> P" m m1] by (simp add: tree_step_def)
  then show ?thesis using assms unfolding tree_step_def by blast
qed

text \<open>An entry that starts or keeps referring to a table with the same contents as before.\<close>

lemma pt_set_table:
  assumes ok: "pt_ok (Suc n) m t" and i: "i < 512"
    and ent: "\<And>j. j < 512 \<Longrightarrow> pte m' t j = (if j = i then e else pte m t j)"
    and e: "subtable e" "c = pte_phys_addr e"
    and mem: "mem_eq_off (insert (frame t) F) m m'" and F: "F \<inter> pt_frames (Suc n) m t = {}"
    and c: "pt_ok n m' c" "pt_frames n m' c \<subseteq> G"
    and G: "frame t \<notin> G" "\<And>j. j < 512 \<Longrightarrow> j \<noteq> i \<Longrightarrow> subtable (pte m t j) \<Longrightarrow>
                pt_frames n m (pte_phys_addr (pte m t j)) \<inter> G = {}"
    and look: "\<And>v. vidx (Suc n) v = i \<Longrightarrow> leaf n m' c v = leaf (Suc n) m t v"
  shows "pt_ok (Suc n) m' t" and "pt_frames (Suc n) m' t \<subseteq> pt_frames (Suc n) m t \<union> G"
    and "leaf (Suc n) m' t v = leaf (Suc n) m t v"
proof -
  have sib: "pt_frames n m (pte_phys_addr (pte m t j)) \<inter> (insert (frame t) F \<union> pt_frames n m' c) = {}"
    if "j < 512" "j \<noteq> i" "subtable (pte m t j)" for j
  proof -
    have "frame t \<notin> pt_frames n m (pte_phys_addr (pte m t j))" using ok that by (auto simp: subtable_def)
    then show ?thesis using F c(2) G(2) [OF that] pt_frames_child [OF that(1,3), of n] by blast
  qed
  have nf: "frame t \<notin> pt_frames n m' c" using c(2) G(1) by blast
  note U = pt_update [OF ok i ent e mem c(1) nf sib]
  show "pt_ok (Suc n) m' t" by (rule U(1))
  show "pt_frames (Suc n) m' t \<subseteq> pt_frames (Suc n) m t \<union> G" using U(2) c(2) by blast
  show "leaf (Suc n) m' t v = leaf (Suc n) m t v" using U(3) look by simp
qed

context page_allocator
begin

lemma ensure_table_spec:
  assumes inv: "inv s" and ok: "pt_ok (Suc n) (ram s) t" and disj: "pt_frames (Suc n) (ram s) t \<inter> pool s = {}"
    and i: "i < 512" and tf: "flags_ok tf" "flags_contain tf PF_PRESENT" "\<not> flags_contain tf PF_HUGE"
    and q: "deref_phys q = t" and run: "ensure_table A q i tf s = Some (r, s')"
  shows "inv s' \<and> tree_step (Suc n) t (ram s) (pool s) (ram s') (pool s') \<and>
    (\<forall>v. leaf (Suc n) (ram s') t v = leaf (Suc n) (ram s) t v) \<and>
    (case r of None \<Rightarrow> pool s' = {} \<or> is_present (pte (ram s') t i) \<and> \<not> subtable (pte (ram s') t i)
     | Some c \<Rightarrow> subtable (pte (ram s') t i) \<and> pte_phys_addr (pte (ram s') t i) = c) \<and>
    page_owners s' = page_owners s \<and> owners_capacity s' = owners_capacity s"
proof -
  let ?m = "ram s" and ?e = "pte (ram s) t i"
  have w: "in_window t" by (rule pt_ok_window [OF ok])
  have get: "table_get m q j = pte m t j" for m j by (simp add: table_get_def q)
  have ft: "frame t \<notin> pool s" using disj pt_frames_root by blast
  consider (huge) "is_present ?e" "\<not> subtable ?e" | (keep) "subtable ?e" "\<not> (flags_contain tf PF_USER \<and> \<not> flags_contain (pte_flags ?e) PF_USER)"
    | (user) "subtable ?e" "flags_contain tf PF_USER \<and> \<not> flags_contain (pte_flags ?e) PF_USER"
    | (absent) "\<not> is_present ?e" by (auto simp: subtable_def)
  then show ?thesis
  proof cases
    case huge
    then have "r = None" "s' = s" using run by (auto simp: ensure_table_def get subtable_def)
    then show ?thesis using inv ok huge by (simp add: tree_step_refl)
  next
    case keep
    then have "r = Some (pte_phys_addr ?e)" "s' = s" using run by (auto simp: ensure_table_def get subtable_def Let_def)
    then show ?thesis using inv ok keep by (simp add: tree_step_refl)
  next
    case user
    let ?c = "pte_phys_addr ?e" and ?f = "pte_flags ?e OR PF_USER"
    let ?m' = "table_set ?m q i (new_table ?c ?f)"
    have okc: "pt_ok n ?m ?c" and nf: "frame t \<notin> pt_frames n ?m ?c" using ok i user(1) by (auto simp: subtable_def)
    have "PF_USER AND PF_HUGE = 0" by (simp add: PF_defs)
    then have f: "flags_ok ?f" "flags_contain ?f PF_PRESENT" "\<not> flags_contain ?f PF_HUGE"
      using user(1) by (auto simp: subtable_def present_flags flags_contain_or(1) flags_contain_or_disjoint)
    note new = subtable_new [OF pt_ok_window [OF okc] f]
    note set = table_set_spec [OF w q i, where m = ?m and e = "new_table ?c ?f"]
    have res: "s' = s\<lparr>ram := ?m'\<rparr>" "r = Some ?c"
      using run user new(2) set(2) [OF i]
      by (auto simp: ensure_table_def get subtable_def Let_def)
    have same: "pt_ok n ?m' ?c \<and> pt_frames n ?m' ?c = pt_frames n ?m ?c \<and> leaf n ?m' ?c v = leaf n ?m ?c v" for v
      using nf by (intro pt_mem_eq [OF okc set(1)]) simp
    have sib: "pt_frames n ?m (pte_phys_addr (pte ?m t j)) \<inter> pt_frames n ?m ?c = {}"
      if "j < 512" "j \<noteq> i" "subtable (pte ?m t j)" for j using ok i user(1) that by auto
    have look: "leaf n ?m' ?c v = leaf (Suc n) ?m t v" if "vidx (Suc n) v = i" for v
      using same [of v] that user(1) by (simp add: subtable_def)
    have mem: "mem_eq_off (insert (frame t) {}) ?m ?m'" using set(1) by simp
    note U = pt_set_table [OF ok i set(2) new(1) new(2) [symmetric] mem _ _ _ nf sib look]
    have U': "pt_ok (Suc n) ?m' t" "pt_frames (Suc n) ?m' t \<subseteq> pt_frames (Suc n) ?m t \<union> pt_frames n ?m ?c"
      "\<And>v. leaf (Suc n) ?m' t v = leaf (Suc n) ?m t v"
      using U same by auto
    have wr: "inv s'" "pool s' = pool s" using write_ok [OF inv set(1)] ft res(1) by auto
    have "pt_frames n ?m ?c \<subseteq> pt_frames (Suc n) ?m t" by (rule pt_frames_child [OF i user(1)])
    then have "tree_step (Suc n) t ?m (pool s) (ram s') (pool s')"
      using U'(1,2) wr(2) mem_eq_off_mono [OF set(1)] res(1) unfolding tree_step_def by auto
    then show ?thesis using wr(1) res U'(3) set(2) [OF i] new by simp
  next
    case absent
    then have "\<exists>pg s1. alloc_page A s = Some (pg, s1)"
      using run by (auto simp: ensure_table_def get bind_eq_Some_conv)
    then obtain pg s1 where al: "alloc_page A s = Some (pg, s1)" by blast
    show ?thesis
    proof (cases pg)
      case None
      then have "r = None" "s' = s" "pool s = {}"
        using run al absent alloc_none [OF inv] by (auto simp: ensure_table_def get)
      then show ?thesis using inv ok by (simp add: tree_step_refl)
    next
      case (Some pp)
      then obtain ptr p where pp: "pg = Some (ptr, p)" by (cases pp) auto
      note al' = al [unfolded pp]
      note sp = alloc_some [OF inv al']
      let ?z = "table_zero (ram s1) ptr"
      let ?m' = "table_set ?z q i (new_table p tf)"
      have res: "s' = s1\<lparr>ram := ?m'\<rparr>" "r = Some p"
        using run al' absent sp by (auto simp: ensure_table_def get)
      have wp: "in_window p" "deref_phys ptr = p" using sp by auto
      note z = table_zero_spec [OF wp, where m = "ram s1"]
      note set = table_set_spec [OF w q i, where m = ?z and e = "new_table p tf"]
      note new = subtable_new [OF wp(1) tf]
      have fp: "frame p \<in> pool s" and pl: "pool s1 = pool s - {frame p}"
        and ms: "mem_eq_off (pool s) ?m (ram s1)" using sp by blast+
      have np: "frame t \<noteq> frame p" using fp ft by metis
      have m1: "mem_eq_off (pool s) ?m ?z"
        using mem_eq_off_trans [OF ms mem_eq_off_mono [OF z(1), of "pool s"]] fp by simp
      have ent: "pte ?m' t j = (if j = i then new_table p tf else pte ?m t j)" if "j < 512" for j
        using set(2) [OF that] pte_mem_eq [OF m1 w ft that] by simp
      have pz: "pte ?m' p j = 0" if "j < 512" for j
        using pte_mem_eq [OF set(1) wp(1) _ that] np z(2) [OF that] by simp
      note emp = pt_empty [OF wp(1) pz]
      have mem: "mem_eq_off (insert (frame t) (pool s)) ?m ?m'"
        by (rule mem_eq_off_trans [OF m1 set(1)]) auto
      have F: "pool s \<inter> pt_frames (Suc n) ?m t = {}" using disj by blast
      have look: "leaf n ?m' p v = leaf (Suc n) ?m t v" if "vidx (Suc n) v = i" for v
        using emp(3) absent that by simp
      have G: "frame t \<notin> {frame p}" "\<And>j. j < 512 \<Longrightarrow> j \<noteq> i \<Longrightarrow> subtable (pte ?m t j) \<Longrightarrow>
          pt_frames n ?m (pte_phys_addr (pte ?m t j)) \<inter> {frame p} = {}"
        using np F fp pt_frames_child [of _ ?m t n] by blast+
      have emp': "pt_frames n ?m' p \<subseteq> {frame p}" using emp(2) by simp
      note U = pt_set_table [OF ok i ent new(1) new(2) [symmetric] mem F emp(1) emp' G look]
      have inv1: "inv s1" by (rule alloc_inv [OF inv al'])
      have "mem_eq_off {frame p, frame t} (ram s1) ?m'"
        by (rule mem_eq_off_trans [OF z(1) set(1)]) auto
      then have wr: "inv s'" "pool s' = pool s1"
        using write_ok [OF inv1] pl ft res(1) by auto
      have "tree_step (Suc n) t ?m (pool s) (ram s') (pool s')"
        using U(1,2) wr(2) pl fp mem_eq_off_mono [OF mem, of "pt_frames (Suc n) ?m t \<union> pool s"] res(1)
        unfolding tree_step_def by auto
      then show ?thesis using wr(1) res U(3) ent [OF i] new alloc_owners [OF inv al'] by simp
    qed
  qed
qed

end

lemma table_flags_for_ok:
  "flags_ok (table_flags_for f)" "flags_contain (table_flags_for f) PF_PRESENT"
  "\<not> flags_contain (table_flags_for f) PF_HUGE"
  by (auto simp: table_flags_for_def flags_contain_def PF_defs flags_ok_def PF_ALL_def)

context page_allocator
begin

lemma map_level_spec:
  assumes "inv s" and "pt_ok n (ram s) t" and "pt_frames n (ram s) t \<inter> pool s = {}"
    and tf: "flags_ok tf" "flags_contain tf PF_PRESENT" "\<not> flags_contain tf PF_HUGE" and e: "is_present e"
    and "map_level A n t v e tf s = Some (r, s')"
  shows "inv s' \<and> tree_step n t (ram s) (pool s) (ram s') (pool s') \<and>
    (\<forall>w. leaf n (ram s') t w = (if r = Some () \<and> same_path n v w then Some (0, e)
                                  else leaf n (ram s) t w)) \<and>
    (r = None \<longrightarrow> pool s' = {} \<or> \<not> small_path n (ram s') t v) \<and>
    page_owners s' = page_owners s \<and> owners_capacity s' = owners_capacity s"
  using assms(1,2,3,8)
proof (induction n arbitrary: s t)
  case 0
  have w: "in_window t" using 0 by simp
  then obtain q where q: "phys_to_ptr A t = Some q" "deref_phys q = t"
    using ptr_ok in_window_less by metis
  note set = table_set_spec [OF w q(2) vidx_less [of 0 v], where m = "ram s" and e = e]
  have res: "s' = s\<lparr>ram := table_set (ram s) q (vidx 0 v) e\<rparr>" "r = Some ()" using 0(4) q(1) by auto
  have ft: "{frame t} \<inter> pool s = {}" using 0(3) by simp
  note wr = write_ok [OF 0(1) set(1) ft]
  have "tree_step 0 t (ram s) (pool s) (ram s') (pool s')"
    using wr w mem_eq_off_mono [OF set(1)] res(1) by (simp add: tree_step_def)
  moreover have "leaf 0 (ram s') t w' = (if vidx 0 v = vidx 0 w' then Some (0, e)
      else leaf 0 (ram s) t w')" for w'
    using set(2) [OF vidx_less [of 0 w']] e res(1) by (simp add: Let_def)
  ultimately show ?case using wr res by simp
next
  case (Suc n)
  have w: "in_window t" by (rule pt_ok_window [OF Suc.prems(2)])
  then obtain q where q: "phys_to_ptr A t = Some q" "deref_phys q = t" using ptr_ok in_window_less by metis
  let ?i = "vidx (Suc n) v"
  obtain c s1 where en: "ensure_table A q ?i tf s = Some (c, s1)"
    using Suc.prems(4) q(1) by (auto simp: bind_eq_Some_conv)
  note E = ensure_table_spec [OF Suc.prems(1-3) vidx_less tf q(2) en]
  show ?case
  proof (cases c)
    case None
    then have "s' = s1" "r = None" using Suc.prems(4) q(1) en by auto
    then show ?thesis using E None by (auto simp: Let_def)
  next
    case (Some c')
    let ?m1 = "ram s1"
    have run: "map_level A n c' v e tf s1 = Some (r, s')" using Suc.prems(4) q(1) en Some by simp
    have inv1: "inv s1" and ts: "tree_step (Suc n) t (ram s) (pool s) ?m1 (pool s1)"
      and lk: "\<And>v. leaf (Suc n) ?m1 t v = leaf (Suc n) (ram s) t v"
      and sub: "subtable (pte ?m1 t ?i)" "c' = pte_phys_addr (pte ?m1 t ?i)" using E Some by auto
    have ok1: "pt_ok (Suc n) ?m1 t" using ts by (simp add: tree_step_def)
    have d1: "pool s1 \<inter> pt_frames (Suc n) ?m1 t = {}"
      using ts Suc.prems(3) unfolding tree_step_def by blast
    have okc: "pt_ok n ?m1 c'" unfolding sub(2) by (rule pt_ok_child(1) [OF ok1 vidx_less sub(1)])
    have dc: "pt_frames n ?m1 c' \<inter> pool s1 = {}"
      using d1 pt_frames_child [OF vidx_less sub(1), of n] sub(2) by blast
    note IH = Suc.IH [OF inv1 okc dc run]
    then have tc: "tree_step n c' ?m1 (pool s1) (ram s') (pool s')" by blast
    have mem: "mem_eq_off (pt_frames n ?m1 c' \<union> pool s1) ?m1 (ram s')"
      and okc': "pt_ok n (ram s') c'" and frc: "pt_frames n (ram s') c' \<subseteq> pt_frames n ?m1 c' \<union> (pool s1 - pool s')"
      and sp: "pool s' \<subseteq> pool s1" using tc by (auto simp: tree_step_def)
    note U = pt_child_update [OF ok1 vidx_less sub mem d1 okc' frc Diff_subset]
    have "pt_frames n ?m1 c' \<subseteq> pt_frames (Suc n) ?m1 t"
      using pt_frames_child [OF vidx_less sub(1), of n] sub(2) by simp
    then have "mem_eq_off (pt_frames (Suc n) ?m1 t \<union> pool s1) ?m1 (ram s')"
      using mem_eq_off_mono [OF mem] by blast
    then have "tree_step (Suc n) t ?m1 (pool s1) (ram s') (pool s')"
      using U(1,2) sp by (simp only: tree_step_def)
    note ts2 = tree_step_trans [OF ts this]
    have "leaf (Suc n) (ram s') t w' = (if r = Some () \<and> same_path (Suc n) v w' then Some (0, e)
        else leaf (Suc n) (ram s) t w')" for w'
    proof (cases "vidx (Suc n) w' = ?i")
      case True
      then have "leaf (Suc n) (ram s) t w' = leaf n ?m1 c' w'"
        using lk [of w'] sub by (simp add: subtable_def)
      then show ?thesis using U(3) [of w'] IH True by simp
    next
      case False
      then show ?thesis using U(3) [of w'] lk [of w'] by auto
    qed
    moreover have "pool s' = {} \<or> \<not> small_path (Suc n) (ram s') t v" if "r = None"
    proof -
      have "frame t \<notin> pt_frames n ?m1 c' \<union> pool s1"
        using pt_ok_child(2) [OF ok1 vidx_less sub(1)] sub(2) d1 by auto
      then have "pte (ram s') t ?i = pte ?m1 t ?i"
        by (intro pte_mem_eq [OF mem w]) simp_all
      then show ?thesis using IH that sub by (auto simp: Let_def subtable_def)
    qed
    moreover have "page_owners s' = page_owners s \<and> owners_capacity s' = owners_capacity s" and "inv s'"
      using IH E by simp_all
    ultimately show ?thesis using ts2 by blast
  qed
qed

end

context total_page_allocator
begin

lemma ensure_table_returns:
  assumes "inv s"
  shows "ensure_table A q i tf s \<noteq> None"
proof -
  obtain pg s1 where al: "alloc_page A s = Some (pg, s1)" using alloc_returns [OF assms] by fast
  then show ?thesis
    using alloc_some [OF assms, of _ _ s1]
    by (cases pg) (auto simp: ensure_table_def Let_def split: prod.splits)
qed

lemma map_level_returns:
  assumes "inv s" and "pt_ok n (ram s) t" and "pt_frames n (ram s) t \<inter> pool s = {}"
    and tf: "flags_ok tf" "flags_contain tf PF_PRESENT" "\<not> flags_contain tf PF_HUGE"
  shows "map_level A n t v e tf s \<noteq> None"
  using assms(1-3)
proof (induction n arbitrary: s t)
  case 0
  then show ?case using ptr_ok in_window_less by fastforce
next
  case (Suc n)
  have w: "in_window t" by (rule pt_ok_window [OF Suc.prems(2)])
  then obtain q where q: "phys_to_ptr A t = Some q" "deref_phys q = t" using ptr_ok in_window_less by metis
  let ?i = "vidx (Suc n) v"
  obtain c s1 where en: "ensure_table A q ?i tf s = Some (c, s1)"
    using ensure_table_returns [OF Suc.prems(1)] by fast
  note E = ensure_table_spec [OF Suc.prems vidx_less tf q(2) en]
  show ?case
  proof (cases c)
    case None
    then show ?thesis using q en by simp
  next
    case (Some c')
    have ts: "tree_step (Suc n) t (ram s) (pool s) (ram s1) (pool s1)" using E by blast
    have sub: "subtable (pte (ram s1) t ?i)" "c' = pte_phys_addr (pte (ram s1) t ?i)" using E Some by auto
    have "pt_ok (Suc n) (ram s1) t" using ts by (simp only: tree_step_def)
    then have "pt_ok n (ram s1) c'" unfolding sub(2) by (rule pt_ok_child(1) [OF _ vidx_less sub(1)])
    moreover have "pt_frames n (ram s1) c' \<inter> pool s1 = {}"
      using ts Suc.prems(3) pt_frames_child [OF vidx_less sub(1), of n] sub(2) unfolding tree_step_def by blast
    moreover have "inv s1" using E by blast
    ultimately show ?thesis using Suc.IH q en Some by simp
  qed
qed

end

end
