(* ===== verification/Paging_Spec.thy ===== *)
theory Paging_Spec
  imports Page_Tree
begin

text \<open>
  Both page allocators of \<^verbatim>\<open>paging.rs\<close> satisfy the contract of \<open>page_allocator\<close> (the buddy allocator also
  always answers), and \<^verbatim>\<open>map\<close>, \<^verbatim>\<open>unmap\<close> and \<^verbatim>\<open>translate\<close> implement an update, a removal and a leaf of one
  page in the partial function that the page tables stand for.
\<close>

section \<open>The two allocators\<close>

lemma block_frames_0 [simp]: "block_frames p 0 = {frame p}"
  by (auto simp: block_frames_def)

lemma buddy_more_owners:
  fixes s s' :: "'a kmem_scheme"
  assumes "buddy.more s' = buddy.more s"
  shows "page_owners s' = page_owners s" and "owners_capacity s' = owners_capacity s"
    and "early_pt_idx s' = early_pt_idx s" and "kmem.more s' = kmem.more s"
  using assms by (cases s; cases s'; simp)+

lemma buddy_write_ok:
  assumes "buddy_inv s" and "mem_eq_off F (ram s) m" and "F \<inter> avail s = {}"
  shows "buddy_inv (s\<lparr>ram := m\<rparr>)" and "avail (s\<lparr>ram := m\<rparr>) = avail s"
proof -
  have "buddy_rel (s\<lparr>ram := m\<rparr>) (free_list s)"
    using assms by (intro buddy_rel_ram) (auto simp: buddy_inv_def avail_def)
  from buddy_rel_unique(1,2) [OF this] show "buddy_inv (s\<lparr>ram := m\<rparr>)" and "avail (s\<lparr>ram := m\<rparr>) = avail s"
    by (auto simp: avail_def)
qed

lemma buddy_alloc_none_empty:
  assumes "buddy_inv s" and "buddy_alloc 0 s = Some (None, s')"
  shows "avail s = {}"
proof -
  have "\<forall>k\<in>{0..<MAX_ORDER}. free_list s k = []"
    using buddy_rel_alloc [OF assms(1) [unfolded buddy_inv_def], of 0] assms(2) by auto
  then show ?thesis by (auto simp: avail_def free_frames_def blocks_def)
qed

lemma BuddyPages_alloc:
  assumes "buddy_inv s"
  shows "alloc_page BuddyPages s = Some (None, s') \<longleftrightarrow> buddy_alloc 0 s = Some (None, s')"
    and "alloc_page BuddyPages s = Some (Some (q, p), s') \<longleftrightarrow> buddy_alloc 0 s = Some (Some p, s') \<and> q = KERNEL_VIRT_BASE + p"
    and "alloc_page BuddyPages s \<noteq> None"
proof -
  obtain r s1 where r: "buddy_alloc 0 s = Some (r, s1)" using buddy_alloc_returns [OF assms] by fast
  have "phys_to_virt p = Some (KERNEL_VIRT_BASE + p)" if "r = Some p" for p
    using buddy_alloc_inv(4) [OF assms r that] in_window_less [OF block_ok_window]
    by (intro phys_to_virt_ok) blast
  then show "alloc_page BuddyPages s = Some (None, s') \<longleftrightarrow> buddy_alloc 0 s = Some (None, s')"
    and "alloc_page BuddyPages s = Some (Some (q, p), s') \<longleftrightarrow> buddy_alloc 0 s = Some (Some p, s') \<and> q = KERNEL_VIRT_BASE + p"
    and "alloc_page BuddyPages s \<noteq> None"
    using r by (auto simp: BuddyPages_def split: option.splits)
qed

interpretation bp: total_page_allocator "BuddyPages" buddy_inv avail
proof
  fix s s' :: "'a kmem_scheme" and r ptr p F m
  assume inv: "buddy_inv s"
  {
    assume al: "alloc_page BuddyPages s = Some (r, s')"
    then obtain r' where r': "buddy_alloc 0 s = Some (r', s')"
      using BuddyPages_alloc(1) [OF inv, of s'] BuddyPages_alloc(2) [OF inv, of "fst (the r)" "snd (the r)" s']
      by (cases r) auto
    show "buddy_inv s'" by (rule buddy_alloc_inv(1) [OF inv r'])
    show "page_owners s' = page_owners s \<and> owners_capacity s' = owners_capacity s"
      using buddy_alloc_inv(2) [OF inv r'] buddy_more_owners by metis
  }
  {
    assume "alloc_page BuddyPages s = Some (None, s')"
    then have al: "buddy_alloc 0 s = Some (None, s')" using BuddyPages_alloc(1) [OF inv] by blast
    then show "s' = s \<and> avail s = {}"
      using buddy_alloc_inv(3) [OF inv al] buddy_alloc_none_empty [OF inv al] by blast
  }
  {
    assume "alloc_page BuddyPages s = Some (Some (ptr, p), s')"
    then have al: "buddy_alloc 0 s = Some (Some p, s')" "ptr = KERNEL_VIRT_BASE + p"
      using BuddyPages_alloc(2) [OF inv] by blast+
    have sp: "block_ok p 0" "frame p \<in> avail s" "avail s' = avail s - {frame p}" "mem_eq_off (avail s') (ram s) (ram s')"
      using buddy_alloc_inv(4) [OF inv al(1) refl] unfolding block_frames_0 by blast+
    have w: "in_window p" by (rule block_ok_window [OF sp(1)])
    have "deref_phys ptr = p" using al(2) in_window_less [OF w] by simp
    moreover have "p \<noteq> 0" using sp(1) by (simp add: block_ok_def)
    moreover have "mem_eq_off (avail s) (ram s) (ram s')" by (rule mem_eq_off_mono [OF sp(4)]) (simp add: sp(3))
    ultimately show "deref_phys ptr = p \<and> in_window p \<and> p \<noteq> 0 \<and> frame p \<in> avail s \<and>
        avail s' = avail s - {frame p} \<and> mem_eq_off (avail s) (ram s) (ram s')"
      using w sp(2,3) by blast
  }
  {
    assume "mem_eq_off F (ram s) m" "F \<inter> avail s = {}"
    then show "buddy_inv (s\<lparr>ram := m\<rparr>) \<and> avail (s\<lparr>ram := m\<rparr>) = avail s"
      using buddy_write_ok [OF inv] by blast
  }
  show "alloc_page BuddyPages s \<noteq> None" by (rule BuddyPages_alloc(3) [OF inv])
next
  fix p :: u64 assume "unat p < 2 ^ 47"
  then show "\<exists>q. phys_to_ptr BuddyPages p = Some q \<and> deref_phys q = p"
    by (simp add: BuddyPages_def phys_to_virt_ok)
qed

text \<open>The early allocator: the unused part of a page-aligned static array inside the direct map.\<close>

definition early_base_ok :: "u64 \<Rightarrow> bool" where
  "early_base_ok base \<longleftrightarrow> in_window base \<and> base \<noteq> 0 \<and> unat base + 4096 * EARLY_PT_COUNT \<le> 2 ^ 47"

definition early_pool :: "u64 \<Rightarrow> 'a kmem_scheme \<Rightarrow> nat set" where
  "early_pool base s = {frame base + early_pt_idx s ..< frame base + EARLY_PT_COUNT}"

lemma early_page:
  assumes "early_base_ok base" and "i < EARLY_PT_COUNT"
  shows "in_window (base + 4096 * of_nat i)" and "frame (base + 4096 * of_nat i) = frame base + i"
    and "base + 4096 * of_nat i \<noteq> 0" and "deref_phys (base + 4096 * of_nat i) = base + 4096 * of_nat i"
proof -
  obtain k where k: "unat base = 4096 * k" using assms(1) by (auto simp: early_base_ok_def in_window_def)
  have i: "i < 64" using assms(2) by (simp add: EARLY_PT_COUNT_def)
  have b: "unat base + 4096 * 64 \<le> 2 ^ 47" using assms(1) by (simp add: early_base_ok_def EARLY_PT_COUNT_def)
  have "unat (4096 * of_nat i :: u64) = 4096 * i" using i by (simp add: unat_word_ariths unat_of_nat)
  then have u: "unat (base + 4096 * of_nat i) = 4096 * (k + i)"
    using b k i by (subst unat_add_exact) auto
  show "in_window (base + 4096 * of_nat i)" using u b k i by (simp add: in_window_def)
  show "frame (base + 4096 * of_nat i) = frame base + i" using u k by (simp add: frame_def)
  have "base \<noteq> 0" using assms(1) by (simp add: early_base_ok_def)
  then have "0 < k" using k by (auto simp: word_unat_eq_iff)
  then show "base + 4096 * of_nat i \<noteq> 0" using u by (auto simp: word_unat_eq_iff)
  show "deref_phys (base + 4096 * of_nat i) = base + 4096 * of_nat i"
    using u b k i by (simp add: deref_phys_def KERNEL_VIRT_BASE_def word_le_nat_alt)
qed

interpretation early: page_allocator "EarlyAllocator base" "\<lambda>s. early_base_ok base" "early_pool base"
proof
  fix s s' :: "'a kmem_scheme" and r ptr p F m
  assume ok: "early_base_ok base"
  show "early_base_ok base" by (rule ok)
  {
    assume "alloc_page (EarlyAllocator base) s = Some (None, s')"
    then show "s' = s \<and> early_pool base s = {}" by (simp add: EarlyAllocator_def Let_def split: if_splits)
  }
  {
    assume "alloc_page (EarlyAllocator base) s = Some (r, s')"
    then show "page_owners s' = page_owners s \<and> owners_capacity s' = owners_capacity s"
      by (auto simp: EarlyAllocator_def Let_def split: if_splits)
  }
  {
    let ?i = "early_pt_idx s"
    assume al: "alloc_page (EarlyAllocator base) s = Some (Some (ptr, p), s')"
    then have i: "?i < EARLY_PT_COUNT" and p: "p = base + 4096 * of_nat ?i" "ptr = p"
      and s': "s' = s\<lparr>early_pt_idx := ?i + 1, ram := write_bytes (ram s) (deref_phys ptr) 0 4096\<rparr>"
      by (auto simp: EarlyAllocator_def Let_def split: if_splits)
    note pg = early_page [OF ok i, folded p(1)]
    have "mem_eq_off {frame p} (ram s) (ram s')"
      using s' p(2) pg(1,4) mem_eq_off_write_bytes [of p 4096 "ram s" 0] by (simp add: in_window_def)
    then have "mem_eq_off (early_pool base s) (ram s) (ram s')"
      by (rule mem_eq_off_mono) (use pg(2) i in \<open>simp add: early_pool_def\<close>)
    moreover have "early_pool base s' = early_pool base s - {frame p}"
      using s' pg(2) by (auto simp: early_pool_def)
    ultimately show "deref_phys ptr = p \<and> in_window p \<and> p \<noteq> 0 \<and> frame p \<in> early_pool base s \<and>
        early_pool base s' = early_pool base s - {frame p} \<and> mem_eq_off (early_pool base s) (ram s) (ram s')"
      using pg p(2) i by (simp add: early_pool_def)
  }
  show "early_base_ok base \<and> early_pool base (s\<lparr>ram := m\<rparr>) = early_pool base s"
    using ok by (simp add: early_pool_def)
next
  fix p :: u64 assume "unat p < 2 ^ 47"
  then show "\<exists>q. phys_to_ptr (EarlyAllocator base) p = Some q \<and> deref_phys q = p"
    by (simp add: EarlyAllocator_def deref_phys_def KERNEL_VIRT_BASE_def word_le_nat_alt)
qed

section \<open>Translation\<close>

text \<open>The recursions that \<^verbatim>\<open>translate\<close> and \<^verbatim>\<open>unmap\<close> unroll.\<close>

primrec walk_level :: "nat \<Rightarrow> pmem \<Rightarrow> u64 \<Rightarrow> u64 \<Rightarrow> u64 option option" where
  "walk_level 0 m t v = do {
     q \<leftarrow> phys_to_virt t;
     let e = table_get m q (vidx 0 v);
     (if \<not> is_present e then Some None else map_option Some (checked_add (pte_phys_addr e) (v AND 0xfff)))
   }"
| "walk_level (Suc n) m t v = do {
     q \<leftarrow> phys_to_virt t;
     let e = table_get m q (vidx (Suc n) v);
     (if \<not> is_present e then Some None
      else if n = 0 \<and> flags_contain (pte_flags e) PF_HUGE
      then map_option Some (checked_add (pte_phys_addr e) (v AND (SIZE_2MB - 1)))
      else walk_level n m (pte_phys_addr e) v)
   }"

lemma translate_level: "translate t v s = walk_level PML4_LEVEL (ram s) t v"
  by (simp add: translate_def parts_vidx Let_def cong: if_cong)

lemma checked_add_entry:
  assumes "x \<le> 0x1fffff"
  shows "checked_add (pte_phys_addr e) x = Some (pte_phys_addr e + x)"
proof -
  have "pte_phys_addr e \<le> PHYS_ADDR_MASK" unfolding pte_phys_addr_def by (rule word_and_le1)
  then have "unat (pte_phys_addr e) \<le> 0xffffffffff000" by (simp add: PHYS_ADDR_MASK_def word_le_nat_alt)
  moreover have "unat x \<le> 0x1fffff" using assms by (simp add: word_le_nat_alt)
  ultimately show ?thesis by (intro checked_add_ok) simp
qed

lemma checked_add_offsets:
  "checked_add (pte_phys_addr e) (v AND 0xfff) = Some (pte_phys_addr e + (v AND 0xfff))"
  "checked_add (pte_phys_addr e) (v AND (SIZE_2MB - 1)) = Some (pte_phys_addr e + (v AND (SIZE_2MB - 1)))"
proof -
  have "v AND 0xfff \<le> 0xfff" "v AND 0x1fffff \<le> 0x1fffff" by (rule word_and_le1)+
  then show "checked_add (pte_phys_addr e) (v AND 0xfff) = Some (pte_phys_addr e + (v AND 0xfff))"
    and "checked_add (pte_phys_addr e) (v AND (SIZE_2MB - 1)) = Some (pte_phys_addr e + (v AND (SIZE_2MB - 1)))"
    by (auto intro!: checked_add_entry simp: SIZE_2MB_def elim: order.trans)
qed

lemma window_ptr:
  assumes "in_window t"
  shows "phys_to_virt t = Some (KERNEL_VIRT_BASE + t)" and "table_get m (KERNEL_VIRT_BASE + t) i = pte m t i"
    and "deref_phys (KERNEL_VIRT_BASE + t) = t"
  using in_window_less [OF assms] by (simp_all add: phys_to_virt_ok table_get_def)

text \<open>The address an entry of some level maps \<open>v\<close> to.\<close>

definition leaf_addr :: "u64 \<Rightarrow> nat \<times> u64 \<Rightarrow> u64" where
  "leaf_addr v l = pte_phys_addr (snd l) + (v AND (if fst l = 0 then 0xfff else SIZE_2MB - 1))"

lemma walk_level_leaf:
  assumes "pt_ok n m t"
  shows "walk_level n m t v = Some (map_option (leaf_addr v) (leaf n m t v))"
  using assms
proof (induction n arbitrary: t)
  case 0
  then show ?case using window_ptr [of t] by (simp add: checked_add_offsets Let_def leaf_addr_def)
next
  case (Suc n)
  note P = window_ptr [OF pt_ok_window [OF Suc.prems]]
  let ?e = "pte m t (vidx (Suc n) v)"
  consider "\<not> is_present ?e" | "subtable ?e" | "is_present ?e" "\<not> subtable ?e" by blast
  then show ?case
  proof cases
    case 1
    then show ?thesis using P by simp
  next
    case 2
    then have "is_present ?e" "\<not> flags_contain (pte_flags ?e) PF_HUGE" by (auto simp: subtable_def)
    then show ?thesis using P 2 Suc.IH [OF pt_ok_child(1) [OF Suc.prems vidx_less 2]] by simp
  next
    case 3
    then have "n = 0" by (rule pt_ok_huge [OF Suc.prems vidx_less])
    moreover have "flags_contain (pte_flags ?e) PF_HUGE" using 3 by (simp add: subtable_def)
    ultimately show ?thesis using P 3 by (simp add: checked_add_offsets leaf_addr_def)
  qed
qed

lemma translate_leaf:
  "pt_ok PML4_LEVEL (ram s) t \<Longrightarrow> translate t v s = Some (map_option (leaf_addr v) (leaf PML4_LEVEL (ram s) t v))"
  unfolding translate_level by (rule walk_level_leaf)

primrec unmap_level :: "nat \<Rightarrow> u64 \<Rightarrow> u64 \<Rightarrow> 'a machine_scheme \<Rightarrow> (u64 option \<times> 'a machine_scheme) option" where
  "unmap_level 0 t v s = do {
     q \<leftarrow> phys_to_virt t;
     let e = table_get (ram s) q (vidx 0 v);
     (if \<not> is_present e then Some (None, s)
      else Some (Some (pte_phys_addr e), s\<lparr>ram := table_set (ram s) q (vidx 0 v) 0\<rparr>))
   }"
| "unmap_level (Suc n) t v s = do {
     q \<leftarrow> phys_to_virt t;
     let e = table_get (ram s) q (vidx (Suc n) v);
     (if \<not> is_present e then Some (None, s) else unmap_level n (pte_phys_addr e) v s)
   }"

lemma unmap_level_eq: "unmap t v s = unmap_level PML4_LEVEL t v s"
  by (simp add: unmap_def parts_vidx Let_def cong: if_cong)

lemma unmap_level_spec:
  assumes "pt_ok n (ram s) t" and "small_path n (ram s) t v"
  obtains r m' where "unmap_level n t v s = Some (r, s\<lparr>ram := m'\<rparr>)"
    and "r = map_option (\<lambda>l. pte_phys_addr (snd l)) (leaf n (ram s) t v)"
    and "tree_step n t (ram s) {} m' {}"
    and "\<And>w. leaf n m' t w = (if same_path n v w then None else leaf n (ram s) t w)"
  using assms
proof (induction n arbitrary: t thesis)
  case 0
  then have w: "in_window t" by simp
  note P = window_ptr [OF w]
  let ?e = "pte (ram s) t (vidx 0 v)"
  show ?case
  proof (cases "is_present ?e")
    case True
    note set = table_set_spec [OF w P(3) vidx_less [of 0 v], where m = "ram s" and e = 0]
    show ?thesis
    proof (rule 0(1))
      show "unmap_level 0 t v s = Some (Some (pte_phys_addr ?e),
          s\<lparr>ram := table_set (ram s) (KERNEL_VIRT_BASE + t) (vidx 0 v) 0\<rparr>)" using P True by simp
      show "Some (pte_phys_addr ?e) = map_option (\<lambda>l. pte_phys_addr (snd l)) (leaf 0 (ram s) t v)" using True by simp
      show "tree_step 0 t (ram s) {} (table_set (ram s) (KERNEL_VIRT_BASE + t) (vidx 0 v) 0) {}"
        using set(1) w by (simp add: tree_step_def)
      show "leaf 0 (table_set (ram s) (KERNEL_VIRT_BASE + t) (vidx 0 v) 0) t w' =
          (if same_path 0 v w' then None else leaf 0 (ram s) t w')" for w'
        using set(2) [OF vidx_less [of 0 w']] by (simp add: Let_def)
    qed
  next
    case False
    show ?thesis
      by (rule 0(1) [of None "ram s"]) (use P False w in \<open>auto simp: tree_step_def Let_def\<close>)
  qed
next
  case (Suc n)
  note P = window_ptr [OF pt_ok_window [OF Suc.prems(2)]]
  let ?m = "ram s" and ?i = "vidx (Suc n) v"
  let ?e = "pte ?m t ?i"
  let ?c = "pte_phys_addr ?e"
  show ?case
  proof (cases "is_present ?e")
    case False
    show ?thesis
    proof (rule Suc.prems(1) [of None ?m])
      show "unmap_level (Suc n) t v s = Some (None, s\<lparr>ram := ?m\<rparr>)" using P False by simp
      show "None = map_option (\<lambda>l. pte_phys_addr (snd l)) (leaf (Suc n) ?m t v)" using False by simp
      show "tree_step (Suc n) t ?m {} ?m {}" using Suc.prems(2) by (rule tree_step_refl)
      show "leaf (Suc n) ?m t w = (if same_path (Suc n) v w then None else leaf (Suc n) ?m t w)" for w
        using False by (auto simp: Let_def)
    qed
  next
    case True
    then have sub: "subtable ?e" and sm: "small_path n ?m ?c v" using Suc.prems(3) by (auto simp: Let_def)
    note okc = pt_ok_child(1) [OF Suc.prems(2) vidx_less sub]
    obtain r m' where rec: "unmap_level n ?c v s = Some (r, s\<lparr>ram := m'\<rparr>)"
      "r = map_option (\<lambda>l. pte_phys_addr (snd l)) (leaf n ?m ?c v)" "tree_step n ?c ?m {} m' {}"
      "\<And>w. leaf n m' ?c w = (if same_path n v w then None else leaf n ?m ?c w)"
      using Suc.IH [OF _ okc sm] by blast
    have mem: "mem_eq_off (pt_frames n ?m ?c \<union> {}) ?m m'" and okc': "pt_ok n m' ?c"
      and frc: "pt_frames n m' ?c \<subseteq> pt_frames n ?m ?c \<union> {}" using rec(3) by (simp_all only: tree_step_def Diff_empty)
    note U = pt_child_update [OF Suc.prems(2) vidx_less sub refl mem _ okc' frc]
    show ?thesis
    proof (rule Suc.prems(1))
      show "unmap_level (Suc n) t v s = Some (r, s\<lparr>ram := m'\<rparr>)" using P True rec(1) by simp
      show "r = map_option (\<lambda>l. pte_phys_addr (snd l)) (leaf (Suc n) ?m t v)" using True sub rec(2) by simp
      have "pt_frames n ?m ?c \<subseteq> pt_frames (Suc n) ?m t" by (rule pt_frames_child [OF vidx_less sub])
      then have "mem_eq_off (pt_frames (Suc n) ?m t) ?m m'" using mem_eq_off_mono [OF mem] by simp
      then show "tree_step (Suc n) t ?m {} m' {}"
        using U(1,2) by (simp only: tree_step_def) simp
      show "leaf (Suc n) m' t w = (if same_path (Suc n) v w then None else leaf (Suc n) ?m t w)" for w
        using U(3) [of w] rec(4) [of w] True sub by auto
    qed
  qed
qed

text \<open>Two addresses are on the same page when bits 12 to 47 agree.\<close>

definition same_page :: "u64 \<Rightarrow> u64 \<Rightarrow> bool" where
  "same_page v w \<longleftrightarrow> take_bit 36 (drop_bit 12 v) = take_bit 36 (drop_bit 12 w)"

lemma take_drop_eq_iff:
  fixes v w :: "'a::len word"
  shows "take_bit n (drop_bit k v) = take_bit n (drop_bit k w) \<longleftrightarrow> (\<forall>i<n. bit v (k + i) = bit w (k + i))"
proof
  assume "take_bit n (drop_bit k v) = take_bit n (drop_bit k w)"
  then have "bit (take_bit n (drop_bit k v)) i = bit (take_bit n (drop_bit k w)) i" for i by simp
  then show "\<forall>i<n. bit v (k + i) = bit w (k + i)" unfolding bit_take_bit_iff bit_drop_bit_eq comp_apply by blast
next
  assume "\<forall>i<n. bit v (k + i) = bit w (k + i)"
  then show "take_bit n (drop_bit k v) = take_bit n (drop_bit k w)"
    by (intro bit_word_eqI) (auto simp: bit_take_bit_iff bit_drop_bit_eq)
qed

lemma vidx_eq_iff: "vidx k v = vidx k w \<longleftrightarrow> (\<forall>i<9. bit v (12 + 9 * k + i) = bit w (12 + 9 * k + i))"
proof -
  have "vidx k v = take_bit 9 (drop_bit (12 + 9 * k) v)" for v
    by (simp add: vidx_def take_bit_eq_mask mask_eq_exp_minus_1)
  then show ?thesis by (simp only: take_drop_eq_iff)
qed

lemma same_path_page: "same_path PML4_LEVEL v w \<longleftrightarrow> same_page v w"
proof -
  have "same_path PML4_LEVEL v w \<longleftrightarrow> (\<forall>k\<le>3. \<forall>i<9. bit v (12 + 9 * k + i) = bit w (12 + 9 * k + i))"
    unfolding same_path_def vidx_eq_iff by (simp only: numeral_3_eq_3)
  also have "\<dots> \<longleftrightarrow> (\<forall>j<36. bit v (12 + j) = bit w (12 + j))"
  proof safe
    fix j :: nat assume a: "\<forall>k\<le>3. \<forall>i<9. bit v (12 + 9 * k + i) = bit w (12 + 9 * k + i)" and "j < 36"
    then have "j div 9 \<le> 3" "j mod 9 < 9" by auto
    with a have "bit v (12 + 9 * (j div 9) + j mod 9) = bit w (12 + 9 * (j div 9) + j mod 9)" by blast
    then show "bit v (12 + j) \<Longrightarrow> bit w (12 + j)" "bit w (12 + j) \<Longrightarrow> bit v (12 + j)" by (auto simp: add.assoc)
  next
    fix k i :: nat assume "\<forall>j<36. bit v (12 + j) = bit w (12 + j)" "k \<le> 3" "i < 9"
    then show "bit v (12 + 9 * k + i) \<Longrightarrow> bit w (12 + 9 * k + i)" "bit w (12 + 9 * k + i) \<Longrightarrow> bit v (12 + 9 * k + i)"
      by (auto simp: add.assoc)
  qed
  also have "\<dots> \<longleftrightarrow> same_page v w"
    by (simp only: same_page_def take_drop_eq_iff)
  finally show ?thesis .
qed

section \<open>Properties\<close>

text \<open>A page-table tree beside the allocator: well-formed, and none of its tables is free.\<close>

definition table_frames :: "u64 \<Rightarrow> 'a machine_scheme \<Rightarrow> nat set" where
  "table_frames root s = pt_frames PML4_LEVEL (ram s) root"

definition tree_ok :: "u64 \<Rightarrow> 'a buddy_scheme \<Rightarrow> bool" where
  "tree_ok root s \<longleftrightarrow> pt_ok PML4_LEVEL (ram s) root \<and> table_frames root s \<inter> avail s = {}"

definition page_leaf :: "u64 \<Rightarrow> u64 \<Rightarrow> 'a machine_scheme \<Rightarrow> (nat \<times> u64) option" where
  "page_leaf root v s = leaf PML4_LEVEL (ram s) root v"

definition no_huge :: "u64 \<Rightarrow> u64 \<Rightarrow> 'a machine_scheme \<Rightarrow> bool" where
  "no_huge root v s \<longleftrightarrow> (\<forall>k e. page_leaf root v s = Some (k, e) \<longrightarrow> k = 0)"

lemma ram_update_eq: "ram (s\<lparr>ram := m\<rparr>) = m"
  by simp

lemma translate_page_leaf:
  "tree_ok root s \<Longrightarrow> translate root v s = Some (map_option (leaf_addr v) (page_leaf root v s))"
  unfolding tree_ok_def page_leaf_def by (elim conjE) (rule translate_leaf)

text \<open>Writes and allocations elsewhere leave a tree and its translations alone.\<close>

lemma tree_elsewhere:
  fixes s :: "'a buddy_scheme" and s' :: "'b buddy_scheme"
  assumes "tree_ok root s" and "mem_eq_off F (ram s) (ram s')" and "F \<inter> table_frames root s = {}"
  shows "page_leaf root v s' = page_leaf root v s" and "table_frames root s' = table_frames root s"
    and "avail s' \<inter> table_frames root s = {} \<Longrightarrow> tree_ok root s'"
proof -
  have ok: "pt_ok PML4_LEVEL (ram s) root" using assms(1) by (simp only: tree_ok_def)
  have "pt_frames PML4_LEVEL (ram s) root \<inter> F = {}" using assms(3) unfolding table_frames_def by blast
  note E = pt_mem_eq [OF ok assms(2) this]
  show "page_leaf root v s' = page_leaf root v s" using E [of v] by (simp only: page_leaf_def)
  show fr: "table_frames root s' = table_frames root s" using E by (simp only: table_frames_def)
  show "tree_ok root s'" if "avail s' \<inter> table_frames root s = {}"
    using E that fr unfolding tree_ok_def by blast
qed

lemma map_4kb_buddy:
  fixes s :: "'a kmem_scheme"
  assumes inv: "buddy_inv s" and tree: "tree_ok root s" and p: "in_window phys" and f: "flags_ok flags"
  obtains r s' where "map_4kb BuddyPages root v phys flags s = Some (r, s')" and "buddy_inv s'" and "tree_ok root s'"
    and "\<And>w. page_leaf root w s' = (if r = Some () \<and> same_page v w then Some (0, new_page phys (flags OR PF_PRESENT))
                                     else page_leaf root w s)"
    and "r = None \<Longrightarrow> avail s' = {} \<or> \<not> no_huge root v s'"
    and "avail s' \<subseteq> avail s" and "table_frames root s' \<subseteq> table_frames root s \<union> (avail s - avail s')"
    and "mem_eq_off (table_frames root s \<union> avail s) (ram s) (ram s')"
    and "page_owners s' = page_owners s" and "owners_capacity s' = owners_capacity s"
proof -
  let ?e = "new_page phys (flags OR PF_PRESENT)" and ?tf = "table_flags_for flags"
  have fp: "flags_ok (flags OR PF_PRESENT)" using f by simp
  have e: "is_present ?e"
    using entry_decode [OF p fp] flags_contain_or(2) [of PF_PRESENT PF_PRESENT flags]
    by (auto simp: new_page_def flags_contain_def)
  have ok: "pt_ok PML4_LEVEL (ram s) root" and dj: "pt_frames PML4_LEVEL (ram s) root \<inter> avail s = {}"
    using tree by (simp_all only: tree_ok_def table_frames_def)
  obtain r s' where run: "map_level BuddyPages PML4_LEVEL root v ?e ?tf s = Some (r, s')"
    using bp.map_level_returns [OF inv ok dj table_flags_for_ok] by fast
  note S = bp.map_level_spec [OF inv ok dj table_flags_for_ok e run]
  have ts: "tree_step PML4_LEVEL root (ram s) (avail s) (ram s') (avail s')" using S by blast
  show ?thesis
  proof (rule that)
    show "map_4kb BuddyPages root v phys flags s = Some (r, s')" unfolding map_4kb_level by (rule run)
    show "buddy_inv s'" using S by blast
    show "tree_ok root s'" using ts dj unfolding tree_ok_def table_frames_def tree_step_def by blast
    show "page_leaf root w s' = (if r = Some () \<and> same_page v w then Some (0, ?e) else page_leaf root w s)" for w
      using S unfolding same_path_page page_leaf_def by blast
    show "avail s' = {} \<or> \<not> no_huge root v s'" if "r = None"
      using S that unfolding no_huge_def page_leaf_def small_path_leaf by blast
    show "avail s' \<subseteq> avail s" "table_frames root s' \<subseteq> table_frames root s \<union> (avail s - avail s')"
      "mem_eq_off (table_frames root s \<union> avail s) (ram s) (ram s')"
      using ts unfolding tree_step_def table_frames_def by blast+
    show "page_owners s' = page_owners s" "owners_capacity s' = owners_capacity s" using S by blast+
  qed
qed

lemma leaf_addr_new_page:
  assumes "in_window phys" and "flags_ok flags"
  shows "leaf_addr w (0, new_page phys (flags OR PF_PRESENT)) = phys + (w AND 0xfff)"
  using entry_decode(1) [OF assms(1), of "flags OR PF_PRESENT"] assms(2)
  by (simp add: leaf_addr_def new_page_def)

text \<open>
  C14. Mapping a page with the buddy allocator always returns. On success exactly the addresses of that
  page translate to the frame with their offset, through an entry with the flags asked for; every other
  entry, and on failure every entry, is as before; failure means that memory ran out or that a 2 MiB page
  covers the address. The tables stay a tree of non-free frames, and only tables and free frames are written.
\<close>

theorem map_4kb_correct:
  assumes "buddy_inv s" and "tree_ok root s" and "in_window phys" and "flags_ok flags"
  shows "\<exists>r s'. map_4kb BuddyPages root v phys flags s = Some (r, s') \<and> buddy_inv s' \<and> tree_ok root s' \<and>
    (\<forall>w. translate root w s' = (if r = Some () \<and> same_page v w then Some (Some (phys + (w AND 0xfff)))
                               else translate root w s)) \<and>
    (\<forall>w. page_leaf root w s' = (if r = Some () \<and> same_page v w then Some (0, new_page phys (flags OR PF_PRESENT))
                               else page_leaf root w s)) \<and>
    (r = None \<longrightarrow> avail s' = {} \<or> \<not> no_huge root v s') \<and>
    mem_eq_off (table_frames root s \<union> avail s) (ram s) (ram s')"
proof -
  obtain r s' where M: "map_4kb BuddyPages root v phys flags s = Some (r, s')" "buddy_inv s'" "tree_ok root s'"
    "\<And>w. page_leaf root w s' = (if r = Some () \<and> same_page v w then Some (0, new_page phys (flags OR PF_PRESENT))
                                 else page_leaf root w s)"
    "r = None \<Longrightarrow> avail s' = {} \<or> \<not> no_huge root v s'"
    "mem_eq_off (table_frames root s \<union> avail s) (ram s) (ram s')"
    by (rule map_4kb_buddy [OF assms, of v]) blast
  have "translate root w s' = (if r = Some () \<and> same_page v w then Some (Some (phys + (w AND 0xfff)))
      else translate root w s)" for w
    using M(4) [of w] translate_page_leaf [OF M(3), of w] translate_page_leaf [OF assms(2), of w]
      leaf_addr_new_page [OF assms(3,4), of w] by simp
  with M show ?thesis by blast
qed

lemma unmap_tree:
  assumes "tree_ok root s" and "no_huge root v s"
  obtains m' where "unmap root v s = Some (map_option (\<lambda>l. pte_phys_addr (snd l)) (page_leaf root v s), s\<lparr>ram := m'\<rparr>)"
    and "pt_ok PML4_LEVEL m' root" and "pt_frames PML4_LEVEL m' root \<subseteq> table_frames root s"
    and "mem_eq_off (table_frames root s) (ram s) m'"
    and "\<And>w. page_leaf root w (s\<lparr>ram := m'\<rparr>) = (if same_page v w then None else page_leaf root w s)"
proof -
  have ok: "pt_ok PML4_LEVEL (ram s) root" using assms(1) by (simp only: tree_ok_def)
  have sp: "small_path PML4_LEVEL (ram s) root v"
    using assms(2) unfolding no_huge_def page_leaf_def small_path_leaf .
  obtain r m' where U: "unmap_level PML4_LEVEL root v s = Some (r, s\<lparr>ram := m'\<rparr>)"
    "r = map_option (\<lambda>l. pte_phys_addr (snd l)) (leaf PML4_LEVEL (ram s) root v)"
    "tree_step PML4_LEVEL root (ram s) {} m' {}"
    "\<And>w. leaf PML4_LEVEL m' root w = (if same_path PML4_LEVEL v w then None else leaf PML4_LEVEL (ram s) root w)"
    using unmap_level_spec [OF ok sp] by blast
  have ok': "pt_ok PML4_LEVEL m' root" using U(3) by (simp only: tree_step_def)
  show ?thesis
  proof (rule that [OF _ ok'])
    show "unmap root v s = Some (map_option (\<lambda>l. pte_phys_addr (snd l)) (page_leaf root v s), s\<lparr>ram := m'\<rparr>)"
      unfolding unmap_level_eq page_leaf_def using U(1,2) by (simp only:)
    show "pt_frames PML4_LEVEL m' root \<subseteq> table_frames root s" "mem_eq_off (table_frames root s) (ram s) m'"
      using U(3) unfolding tree_step_def table_frames_def Un_empty_right Diff_empty by blast+
    show "page_leaf root w (s\<lparr>ram := m'\<rparr>) = (if same_page v w then None else page_leaf root w s)" for w
      using U(4) [of w] unfolding same_path_page page_leaf_def ram_update_eq .
  qed
qed

text \<open>
  C15. Unmapping an address that no 2 MiB page covers returns the frame it translated to, if any, after
  which exactly the addresses of that page translate to nothing; no other translation changes, and the
  tables and the allocator keep their invariants.
\<close>

theorem unmap_correct:
  assumes "buddy_inv s" and "tree_ok root s" and "no_huge root v s"
  shows "\<exists>r s'. unmap root v s = Some (r, s') \<and> translate root v s = Some (map_option (\<lambda>p. p + (v AND 0xfff)) r) \<and>
    buddy_inv s' \<and> tree_ok root s' \<and> avail s' = avail s \<and>
    (\<forall>w. translate root w s' = (if same_page v w then Some None else translate root w s))"
proof -
  let ?r = "map_option (\<lambda>l. pte_phys_addr (snd l)) (page_leaf root v s)"
  obtain m' where U: "unmap root v s = Some (?r, s\<lparr>ram := m'\<rparr>)" "pt_ok PML4_LEVEL m' root"
    "pt_frames PML4_LEVEL m' root \<subseteq> table_frames root s" "mem_eq_off (table_frames root s) (ram s) m'"
    "\<And>w. page_leaf root w (s\<lparr>ram := m'\<rparr>) = (if same_page v w then None else page_leaf root w s)"
    using unmap_tree [OF assms(2,3)] by blast
  have dj: "table_frames root s \<inter> avail s = {}" using assms(2) by (simp only: tree_ok_def)
  note W = buddy_write_ok [OF assms(1) U(4) dj]
  have tree': "tree_ok root (s\<lparr>ram := m'\<rparr>)"
    using U(2,3) W(2) dj unfolding tree_ok_def table_frames_def ram_update_eq by blast
  have "translate root w (s\<lparr>ram := m'\<rparr>) = (if same_page v w then Some None else translate root w s)" for w
    using U(5) [of w] translate_page_leaf [OF tree', of w] translate_page_leaf [OF assms(2), of w] by simp
  moreover have "translate root v s = Some (map_option (\<lambda>p. p + (v AND 0xfff)) ?r)"
    using translate_page_leaf [OF assms(2), of v] assms(3)
    by (cases "page_leaf root v s") (auto simp: no_huge_def leaf_addr_def)
  ultimately show ?thesis using U(1) W tree' by blast
qed

text \<open>Witnesses: four free pages at \<open>0x1000\<close> and an empty top-level table at \<open>0x8000\<close>.\<close>

definition demo_kmem :: kmem where
  "demo_kmem = the (add_region 0x1000 0x4000
     (buddy_new \<lparr>ram = (\<lambda>_. 0), free_heads = [], free_counts = [], early_pt_idx = 0, page_owners = [],
                owners_capacity = 16\<rparr>))"

lemma demo_kmem_run:
  "buddy_inv demo_kmem" "avail demo_kmem = {1..<5}" "mem_eq_off {1..<5} (\<lambda>_. 0) (ram demo_kmem)"
proof -
  let ?s0 = "buddy_new \<lparr>ram = (\<lambda>_. 0), free_heads = [], free_counts = [], early_pt_idx = 0, page_owners = [],
                owners_capacity = 16\<rparr>"
  have "buddy_rel ?s0 (\<lambda>k. [])" by (rule buddy_rel_new)
  then obtain s' L' where r: "add_region_loop 0x1000 0x5000 ?s0 = Some s'" "buddy_rel s' L'"
    "free_frames L' = {1..<5} \<union> free_frames (\<lambda>k. [])" "mem_eq_off {1..<5} (ram ?s0) (ram s')"
    by (rule buddy_rel_add_region_loop [where f = 1 and e = 5]) (auto simp: free_frames_def blocks_def)
  then have "add_region 0x1000 0x4000 ?s0 = Some s'"
    using buddy_rel_check [OF r(2)]
    by (simp add: add_region_def align_up_def align_down_def checked_add_def checked_sub_def PAGE_SIZE_def)
  then show "buddy_inv demo_kmem" "avail demo_kmem = {1..<5}" "mem_eq_off {1..<5} (\<lambda>_. 0) (ram demo_kmem)"
    using r(3,4) buddy_rel_unique(1,2) [OF r(2)]
    by (auto simp: demo_kmem_def free_frames_def blocks_def buddy_new_def)
qed

lemma demo_kmem_tree: "tree_ok 0x8000 demo_kmem" "no_huge 0x8000 v demo_kmem"
proof -
  have w: "in_window 0x8000" by (simp add: in_window_def)
  have "pte (ram demo_kmem) 0x8000 i = 0" if "i < 512" for i
  proof -
    have "pte (ram demo_kmem) 0x8000 i = pte (\<lambda>_. 0) 0x8000 i"
      by (rule pte_mem_eq [OF demo_kmem_run(3) w _ that]) (simp add: frame_def)
    also have "\<dots> = 0" by (simp add: read64_def load_bytes_def le_word_def numeral_eq_Suc)
    finally show ?thesis .
  qed
  note E = pt_empty [OF w this] and entry = this
  show "tree_ok 0x8000 demo_kmem"
    unfolding tree_ok_def table_frames_def demo_kmem_run(2) using E(1,2) by (simp add: frame_def del: pt_ok.simps pt_frames.simps)
  show "no_huge 0x8000 v demo_kmem" using entry [OF vidx_less] by (simp add: no_huge_def page_leaf_def Let_def)
qed

lemma demo_map: "map_option fst (map_4kb BuddyPages 0x8000 0x400000 0x9000 (PF_WRITABLE OR PF_USER) demo_kmem) = Some (Some ())"
  by code_simp

theorem map_4kb_correct_witness:
  "\<exists>s'. map_4kb BuddyPages 0x8000 0x400000 0x9000 (PF_WRITABLE OR PF_USER) demo_kmem = Some (Some (), s') \<and>
        translate 0x8000 0x400123 s' = Some (Some 0x9123)"
proof -
  have p: "in_window 0x9000" by (simp add: in_window_def)
  have "same_page 0x400000 0x400123" by (simp add: same_page_def)
  then show ?thesis
    using map_4kb_correct [OF demo_kmem_run(1) demo_kmem_tree(1) p, of "PF_WRITABLE OR PF_USER" "0x400000"] demo_map
    by auto
qed

theorem unmap_correct_witness:
  "\<exists>r s'. unmap 0x8000 0x400000 demo_kmem = Some (r, s') \<and> buddy_inv s' \<and> translate 0x8000 0x400008 s' = Some None"
proof -
  have "same_page 0x400000 0x400008" by (simp add: same_page_def)
  then show ?thesis
    using unmap_correct [OF demo_kmem_run(1) demo_kmem_tree, of "0x400000"] by metis
qed

end
