(* ===== verification/Address_Space.thy ===== *)
theory Address_Space
  imports Vma_List Paging_Spec
begin

text \<open>
  Address spaces (\<^verbatim>\<open>src/kernel/src/vma.rs\<close>): the operations of \<^verbatim>\<open>AddressSpace\<close> that also map, unmap and
  release pages. The user part of an address space stands for an injective map from pages to frames that
  belong neither to the allocator nor to the tables; demand paging extends that map by a zeroed free frame,
  and unmapping a range gives back exactly the frames mapped there.
\<close>

record AddressSpace =
  as_page_table :: u64
  as_vmas :: "VMA list"
  as_owner_pid :: Pid

definition AddressSpace_new :: "u64 \<Rightarrow> Pid \<Rightarrow> AddressSpace" where
  "AddressSpace_new page_table owner =
     \<lparr>as_page_table = page_table, as_vmas = [], as_owner_pid = owner\<rparr>"

definition to_page_flags :: "VMAFlags \<Rightarrow> u64" where
  "to_page_flags f =
     (let flags = PF_PRESENT OR PF_USER;
          flags = (if flag_write f then flags OR PF_WRITABLE else flags);
          flags = (if \<not> flag_exec f then flags OR PF_NO_EXEC else flags)
      in flags)"

section \<open>Operations\<close>

definition handle_page_fault ::
    "AddressSpace \<Rightarrow> u64 \<Rightarrow> 'a kmem_scheme \<Rightarrow> ((string + unit) \<times> 'a kmem_scheme) option" where
  "handle_page_fault a fault_addr s = do {
     let page_addr = fault_addr AND NOT (PAGE_SIZE - 1);
     t \<leftarrow> translate (as_page_table a) page_addr s;
     (case t of
        Some _ \<Rightarrow> Some (Inr (), s)
      | None \<Rightarrow>
          (case find_vma (as_vmas a) fault_addr of
             None \<Rightarrow> Some (Inl ''No VMA for fault address'', s)
           | Some vma \<Rightarrow> do {
               (phys, s) \<leftarrow> buddy_alloc 0 s;
               (case phys of
                  None \<Rightarrow> Some (Inl ''Out of memory'', s)
                | Some phys \<Rightarrow> do {
                    s \<leftarrow> track phys 0 (owner_tag (vma_kind vma)) (as_owner_pid a) s;
                    ptr \<leftarrow> phys_to_virt phys;
                    let s = s\<lparr>ram := write_bytes (ram s) (deref_phys ptr) 0 4096\<rparr>;
                    (r, s) \<leftarrow> map_4kb BuddyPages (as_page_table a) page_addr phys (to_page_flags (vma_flags vma)) s;
                    (case r of
                       None \<Rightarrow> Some (Inl ''Failed to map page'', s)
                     | Some _ \<Rightarrow> Some (Inr (), s))
                  })
             }))
   }"

text \<open>The loop of \<^verbatim>\<open>munmap\<close>, \<^verbatim>\<open>destroy\<close> and \<^verbatim>\<open>punch_hole\<close>: unmap a page, give the frame back, drop its owner.\<close>

definition release_page :: "u64 \<Rightarrow> u64 \<Rightarrow> 'a kmem_scheme \<Rightarrow> 'a kmem_scheme option" where
  "release_page root page_addr s = do {
     (r, s) \<leftarrow> unmap root page_addr s;
     (case r of
        None \<Rightarrow> Some s
      | Some phys \<Rightarrow> do {
          s \<leftarrow> buddy_free phys 0 s;
          Some (snd (untrack phys s))
        })
   }"

function unmap_loop :: "u64 \<Rightarrow> u64 \<Rightarrow> u64 \<Rightarrow> 'a kmem_scheme \<Rightarrow> 'a kmem_scheme option" where
  "unmap_loop root addr end' s =
     (if addr < end' then do {
        s \<leftarrow> release_page root addr s;
        addr' \<leftarrow> checked_add addr PAGE_SIZE;
        unmap_loop root addr' end' s
      }
      else Some s)"
  by pat_completeness auto
termination
proof (relation "measure (\<lambda>(r, addr, e, s). 2 ^ 64 - unat addr)", goal_cases)
  case (2 root addr end' s s' addr')
  have "checked_add addr PAGE_SIZE = Some addr'" by (rule 2)
  then have "unat addr' = unat addr + 0x1000" by (auto dest: checked_add_unat simp: PAGE_SIZE_def)
  moreover have "unat addr' < 2 ^ 64" using unsigned_less [of addr'] by simp
  ultimately show ?case by simp
qed simp

declare unmap_loop.simps [simp del]

definition munmap ::
    "AddressSpace \<Rightarrow> u64 \<Rightarrow> u64 \<Rightarrow> 'a kmem_scheme \<Rightarrow> ((string + unit) \<times> AddressSpace \<times> 'a kmem_scheme) option" where
  "munmap a addr size' s = do {
     start \<leftarrow> align_up addr PAGE_SIZE;
     top \<leftarrow> checked_add start size';
     end' \<leftarrow> align_up top PAGE_SIZE;
     let (removed, vmas) = remove_vma (as_vmas a) start;
     (case removed of
        None \<Rightarrow> Some (Inl ''VMA not found'', a, s)
      | Some _ \<Rightarrow> do {
          s \<leftarrow> unmap_loop (as_page_table a) start end' s;
          Some (Inr (), a\<lparr>as_vmas := vmas\<rparr>, s)
        })
   }"

text \<open>\<^verbatim>\<open>clear_user\<close> frees a page before it removes its entry, and looks pages up with \<^verbatim>\<open>translate\<close>.\<close>

function clear_loop :: "u64 \<Rightarrow> u64 \<Rightarrow> u64 \<Rightarrow> 'a kmem_scheme \<Rightarrow> 'a kmem_scheme option" where
  "clear_loop root addr end' s =
     (if addr < end' then do {
        t \<leftarrow> translate root addr s;
        s \<leftarrow> (case t of
                None \<Rightarrow> Some s
              | Some phys \<Rightarrow> do {
                  s \<leftarrow> buddy_free phys 0 s;
                  let s = snd (untrack phys s);
                  (r, s) \<leftarrow> unmap root addr s;
                  Some s
                });
        addr' \<leftarrow> checked_add addr PAGE_SIZE;
        clear_loop root addr' end' s
      }
      else Some s)"
  by pat_completeness auto
termination
proof (relation "measure (\<lambda>(r, addr, e, s). 2 ^ 64 - unat addr)", goal_cases)
  case (2 root addr end' s t s' addr')
  have "checked_add addr PAGE_SIZE = Some addr'" by (rule 2)
  then have "unat addr' = unat addr + 0x1000" by (auto dest: checked_add_unat simp: PAGE_SIZE_def)
  moreover have "unat addr' < 2 ^ 64" using unsigned_less [of addr'] by simp
  ultimately show ?case by simp
qed simp

declare clear_loop.simps [simp del]

definition clear_user :: "AddressSpace \<Rightarrow> 'a kmem_scheme \<Rightarrow> (AddressSpace \<times> 'a kmem_scheme) option" where
  "clear_user a s = do {
     s \<leftarrow> for_each (\<lambda>v s. clear_loop (as_page_table a) (vma_start v) (vma_end v) s) (as_vmas a) s;
     Some (a\<lparr>as_vmas := []\<rparr>, s)
   }"

definition destroy :: "AddressSpace \<Rightarrow> 'a kmem_scheme \<Rightarrow> (AddressSpace \<times> 'a kmem_scheme) option" where
  "destroy a s = do {
     s \<leftarrow> for_each (\<lambda>v s. unmap_loop (as_page_table a) (vma_start v) (vma_end v) s) (as_vmas a) s;
     s \<leftarrow> free_user_tables (as_page_table a) s;
     s \<leftarrow> buddy_free (as_page_table a) 0 s;
     Some (a\<lparr>as_vmas := []\<rparr>, snd (untrack (as_page_table a) s))
   }"

text \<open>\<^verbatim>\<open>punch_hole\<close>: the areas that overlap the hole, then each of them cut.\<close>

definition overlapping :: "VMA list \<Rightarrow> u64 \<Rightarrow> u64 \<Rightarrow> VMA list" where
  "overlapping vmas hole_start hole_end =
     (let i = lower_bound vmas hole_start;
          i = (if 0 < i \<and> hole_start < vma_end (vmas ! (i - 1)) then i - 1 else i)
      in takeWhile (\<lambda>v. vma_start v < hole_end) (drop i vmas))"

definition add_rest :: "bool \<Rightarrow> VMA \<Rightarrow> VMA list \<Rightarrow> string + VMA list" where
  "add_rest needed v vmas = (if needed then add_vma vmas v else Inr vmas)"

fun punch_areas ::
    "u64 \<Rightarrow> u64 \<Rightarrow> VMA list \<Rightarrow> AddressSpace \<Rightarrow> 'a kmem_scheme \<Rightarrow> ((string + unit) \<times> AddressSpace \<times> 'a kmem_scheme) option" where
  "punch_areas hole_start hole_end [] a s = Some (Inr (), a, s)"
| "punch_areas hole_start hole_end (v # vs) a s = do {
     let vmas = snd (remove_vma (as_vmas a) (vma_start v));
     s \<leftarrow> unmap_loop (as_page_table a) (max (vma_start v) hole_start) (min (vma_end v) hole_end) s;
     (case add_rest (vma_start v < hole_start) (VMA_new (vma_start v) hole_start (vma_flags v) (vma_kind v)) vmas of
        Inl e \<Rightarrow> Some (Inl e, a\<lparr>as_vmas := vmas\<rparr>, s)
      | Inr vmas \<Rightarrow>
          (case add_rest (hole_end < vma_end v) (VMA_new hole_end (vma_end v) (vma_flags v) (vma_kind v)) vmas of
             Inl e \<Rightarrow> Some (Inl e, a\<lparr>as_vmas := vmas\<rparr>, s)
           | Inr vmas \<Rightarrow> punch_areas hole_start hole_end vs (a\<lparr>as_vmas := vmas\<rparr>) s))
   }"

definition punch_hole ::
    "AddressSpace \<Rightarrow> u64 \<Rightarrow> u64 \<Rightarrow> 'a kmem_scheme \<Rightarrow> ((string + unit) \<times> AddressSpace \<times> 'a kmem_scheme) option" where
  "punch_hole a hole_start hole_end s =
     punch_areas hole_start hole_end (overlapping (as_vmas a) hole_start hole_end) a s"

definition mmap_fixed ::
    "AddressSpace \<Rightarrow> u64 \<Rightarrow> u64 \<Rightarrow> VMAFlags \<Rightarrow> VMAKind \<Rightarrow> 'a kmem_scheme \<Rightarrow> ((string + u64) \<times> AddressSpace \<times> 'a kmem_scheme) option" where
  "mmap_fixed a addr size' flags kind s = do {
     start \<leftarrow> align_up addr PAGE_SIZE;
     top \<leftarrow> checked_add start size';
     end' \<leftarrow> align_up top PAGE_SIZE;
     (r, a, s) \<leftarrow> punch_hole a start end' s;
     (case r of
        Inl e \<Rightarrow> Some (Inl e, a, s)
      | Inr _ \<Rightarrow>
          (case add_vma (as_vmas a) (VMA_new start end' flags kind) of
             Inl e \<Rightarrow> Some (Inl e, a, s)
           | Inr vmas \<Rightarrow> Some (Inr start, a\<lparr>as_vmas := vmas\<rparr>, s)))
   }"

end
