(* ===== verification/Address_Space_Spec.thy ===== *)
theory Address_Space_Spec
  imports Address_Space
begin

text \<open>
  What the operations of an address space promise. The tables below the top-level table stand for a finite
  injective map from user pages to frames (\<open>user_map\<close>); \<open>aspace_ok\<close> says that those frames belong neither to
  the allocator nor to the tables, and \<open>space_ok\<close> adds the areas. Demand paging, \<^verbatim>\<open>munmap\<close> and \<^verbatim>\<open>mmap_fixed\<close> are
  specified by what they do to the map, to the areas and to the set of free frames.
\<close>

section \<open>The user map\<close>

text \<open>Pages of the lower half, and the frame address the tables give each of them.\<close>

definition user_page :: "u64 \<Rightarrow> bool" where
  "user_page v \<longleftrightarrow> 4096 dvd unat v \<and> unat v < 2 ^ 47"

definition user_map :: "u64 \<Rightarrow> 'a machine_scheme \<Rightarrow> u64 \<Rightarrow> u64 option" where
  "user_map root s v = (if user_page v then map_option (\<lambda>l. pte_phys_addr (snd l)) (page_leaf root v s) else None)"

definition aspace_ok :: "u64 \<Rightarrow> 'a buddy_scheme \<Rightarrow> bool" where
  "aspace_ok root s \<longleftrightarrow> buddy_inv s \<and> tree_ok root s \<and>
     (\<forall>v. user_page v \<longrightarrow> no_huge root v s) \<and>
     (\<forall>v p. user_map root s v = Some p \<longrightarrow>
        in_window p \<and> p \<noteq> 0 \<and> frame p \<notin> avail s \<and> frame p \<notin> table_frames root s) \<and>
     (\<forall>v w p. user_map root s v = Some p \<and> user_map root s w = Some p \<longrightarrow> v = w)"

definition mapped_frames :: "u64 \<Rightarrow> 'a machine_scheme \<Rightarrow> u64 \<Rightarrow> u64 \<Rightarrow> nat set" where
  "mapped_frames root s a b = {frame p | v p. a \<le> v \<and> v < b \<and> user_map root s v = Some p}"

lemma user_page_window: "user_page v \<longleftrightarrow> in_window v"
  by (simp add: user_page_def in_window_def)

lemma same_page_user:
  assumes "user_page v" and "user_page w"
  shows "same_page v w \<longleftrightarrow> v = w"
proof
  assume eq: "same_page v w"
  have key: "unat x = 4096 * unat (take_bit 36 (drop_bit 12 x))" if "user_page x" for x :: u64
  proof -
    obtain k where k: "unat x = 4096 * k" using \<open>user_page x\<close> by (auto simp: user_page_def)
    then have "k < 2 ^ 36" using \<open>user_page x\<close> by (simp add: user_page_def)
    moreover have "unat (drop_bit 12 x) = k" by (simp add: unat_drop_bit_eq) (simp add: drop_bit_eq_div k)
    ultimately have "unat (take_bit 36 (drop_bit 12 x)) = k"
      by (simp add: unsigned_take_bit_eq take_bit_nat_eq_self_iff)
    with k show ?thesis by simp
  qed
  have "unat v = unat w" using key [OF assms(1)] key [OF assms(2)] eq by (simp add: same_page_def)
  then show "v = w" by (simp add: word_unat_eq_iff)
qed (simp add: same_page_def)

lemma window_block: "in_window p \<Longrightarrow> p \<noteq> 0 \<Longrightarrow> block_ok p 0"
  by (auto simp: block_ok_def in_window_def elim!: dvdE)

lemma user_page_offset: "user_page v \<Longrightarrow> v AND 0xfff = 0"
proof -
  assume "user_page v"
  then have "take_bit 12 (unat v) = 0" by (simp add: user_page_def take_bit_eq_mod)
  then have "unat (take_bit 12 v) = 0" by (simp add: unsigned_take_bit_eq)
  then have "take_bit 12 v = 0" by (simp add: word_unat_eq_iff)
  then show "v AND 0xfff = 0" by (simp add: take_bit_eq_mask mask_eq_exp_minus_1)
qed

lemma translate_user:
  assumes "aspace_ok root s" and "user_page v"
  shows "translate root v s = Some (user_map root s v)"
proof -
  have tree: "tree_ok root s" and nh: "no_huge root v s" using assms by (auto simp: aspace_ok_def)
  show ?thesis
    using translate_page_leaf [OF tree, of v] nh assms(2) user_page_offset [OF assms(2)]
    by (cases "page_leaf root v s") (auto simp: user_map_def no_huge_def leaf_addr_def)
qed

lemma aspace_okD:
  assumes "aspace_ok root s"
  shows "buddy_inv s" "tree_ok root s" "user_page v \<Longrightarrow> no_huge root v s"
    and "user_map root s v = Some p \<Longrightarrow> in_window p \<and> p \<noteq> 0 \<and> frame p \<notin> avail s \<and> frame p \<notin> table_frames root s"
    and "user_map root s v = Some p \<Longrightarrow> user_map root s w = Some p \<Longrightarrow> v = w"
  using assms by (auto simp: aspace_ok_def)

lemma user_map_frame_inj:
  assumes "aspace_ok root s" and "user_map root s v = Some p" and "user_map root s w = Some q" and "frame p = frame q"
  shows "v = w"
proof -
  have "p = q" using aspace_okD(4) [OF assms(1,2)] aspace_okD(4) [OF assms(1,3)] assms(4) frame_inj by blast
  then show ?thesis using aspace_okD(5) [OF assms(1,2)] assms(3) by blast
qed

text \<open>The invariant over a change of memory away from the tables and a change of the free frames.\<close>

lemma aspace_elsewhere:
  fixes s :: "'a buddy_scheme" and s' :: "'b buddy_scheme"
  assumes ok: "aspace_ok root s" and inv: "buddy_inv s'" and mem: "mem_eq_off F (ram s) (ram s')"
    and F: "F \<inter> table_frames root s = {}" and av: "avail s' \<inter> table_frames root s = {}"
    and av': "\<And>v p. user_map root s v = Some p \<Longrightarrow> frame p \<notin> avail s'"
  shows "aspace_ok root s'" and "user_map root s' = user_map root s"
    and "page_leaf root w s' = page_leaf root w s" and "table_frames root s' = table_frames root s"
proof -
  note T = tree_elsewhere [OF aspace_okD(2) [OF ok] mem F]
  show um: "user_map root s' = user_map root s" using T(1) by (intro ext) (simp add: user_map_def)
  have "no_huge root v s'" if "user_page v" for v
    using aspace_okD(3) [OF ok that] T(1) by (simp add: no_huge_def)
  then show "aspace_ok root s'"
    using aspace_okD(4,5) [OF ok] inv T(2) T(3) [OF av] av' unfolding aspace_ok_def um by blast
  show "page_leaf root w s' = page_leaf root w s" "table_frames root s' = table_frames root s"
    using T(1,2) by auto
qed

lemma untrack_eqs:
  "buddy_inv (snd (untrack p s)) = buddy_inv s" "avail (snd (untrack p s)) = avail s"
proof -
  have "free_list (snd (untrack p s)) = free_list s" by (rule ext) (simp add: free_list_def)
  then show "avail (snd (untrack p s)) = avail s" "buddy_inv (snd (untrack p s)) = buddy_inv s"
    by (simp_all add: avail_def buddy_inv_def buddy_rel_def)
qed

section \<open>Releasing pages\<close>

text \<open>Removing the entry of a page, before its frame is given back.\<close>

lemma unmap_user:
  fixes s :: "'a kmem_scheme"
  assumes ok: "aspace_ok root s" and v: "user_page v"
  obtains s' where "unmap root v s = Some (user_map root s v, s')" and "aspace_ok root s'"
    and "user_map root s' = (user_map root s)(v := None)" and "avail s' = avail s"
    and "\<forall>w. \<not> same_page v w \<longrightarrow> page_leaf root w s' = page_leaf root w s"
    and "table_frames root s' \<subseteq> table_frames root s" and "mem_eq_off (table_frames root s) (ram s) (ram s')"
    and "kmem.more s' = kmem.more s" and "page_owners s' = page_owners s"
proof -
  note D = aspace_okD [OF ok]
  obtain m' where U: "unmap root v s = Some (map_option (\<lambda>l. pte_phys_addr (snd l)) (page_leaf root v s), s\<lparr>ram := m'\<rparr>)"
    "pt_ok PML4_LEVEL m' root" "pt_frames PML4_LEVEL m' root \<subseteq> table_frames root s"
    "mem_eq_off (table_frames root s) (ram s) m'"
    "\<And>w. page_leaf root w (s\<lparr>ram := m'\<rparr>) = (if same_page v w then None else page_leaf root w s)"
    using unmap_tree [OF D(2) D(3) [OF v]] by blast
  let ?s' = "s\<lparr>ram := m'\<rparr>"
  have dj: "table_frames root s \<inter> avail s = {}" using D(2) by (simp only: tree_ok_def)
  note W = buddy_write_ok [OF D(1) U(4) dj]
  have fr: "table_frames root ?s' \<subseteq> table_frames root s" using U(3) by (simp only: table_frames_def ram_update_eq)
  have tree: "tree_ok root ?s'" using U(2) W(2) dj fr unfolding tree_ok_def ram_update_eq by blast
  have um: "user_map root ?s' = (user_map root s)(v := None)"
    using U(5) same_page_user [OF v] v by (intro ext) (auto simp: user_map_def)
  have nh: "no_huge root w ?s'" if "user_page w" for w
    using D(3) [OF that] U(5) [of w] by (simp add: no_huge_def)
  have sub: "user_map root s w = Some p" if "user_map root ?s' w = Some p" for w p
    using that um by (auto split: if_splits)
  have "aspace_ok root ?s'"
    unfolding aspace_ok_def using W tree nh D(4,5) sub fr by blast
  then show ?thesis using that [of ?s'] U um W fr v by (simp add: user_map_def)
qed

lemma release_page_ok:
  fixes s :: "'a kmem_scheme"
  assumes ok: "aspace_ok root s" and v: "user_page v"
  obtains s' where "release_page root v s = Some s'" and "aspace_ok root s'"
    and "user_map root s' = (user_map root s)(v := None)"
    and "avail s' = avail s \<union> frame ` set_option (user_map root s v)"
    and "\<forall>w. \<not> same_page v w \<longrightarrow> page_leaf root w s' = page_leaf root w s"
    and "table_frames root s' \<subseteq> table_frames root s"
proof -
  obtain s1 where U: "unmap root v s = Some (user_map root s v, s1)" "aspace_ok root s1"
    "user_map root s1 = (user_map root s)(v := None)" "avail s1 = avail s"
    "\<forall>w. \<not> same_page v w \<longrightarrow> page_leaf root w s1 = page_leaf root w s"
    "table_frames root s1 \<subseteq> table_frames root s" "mem_eq_off (table_frames root s) (ram s) (ram s1)"
    "kmem.more s1 = kmem.more s" "page_owners s1 = page_owners s"
    using unmap_user [OF assms] .
  show ?thesis
  proof (cases "user_map root s v")
    case None
    then show ?thesis using that [of s1] U by (simp add: release_page_def)
  next
    case (Some p)
    note P = aspace_okD(4) [OF ok Some]
    have fp: "frame p \<notin> avail s1" using P U(4) by simp
    have "block_frames p 0 \<inter> avail s1 = {}" using fp by simp
    then obtain s2 where F: "buddy_free p 0 s1 = Some s2" "buddy_inv s2" "avail s2 = block_frames p 0 \<union> avail s1"
      "mem_eq_off (avail s2) (ram s1) (ram s2)"
      using buddy_free_inv [OF aspace_okD(1) [OF U(2)], of 0 p] P window_block by (force simp: MAX_ORDER_def)
    let ?s' = "snd (untrack p s2)"
    have av: "avail ?s' = insert (frame p) (avail s1)" using F(3) by (simp add: untrack_eqs)
    have tf: "frame p \<notin> table_frames root s1" using P U(6) by blast
    have dj: "avail s1 \<inter> table_frames root s1 = {}"
      using aspace_okD(2) [OF U(2)] unfolding tree_ok_def by blast
    have un: "user_map root s1 w \<noteq> Some q" if "frame q = frame p" for w q
      using user_map_frame_inj [OF ok _ Some that, of w] U(3) by (auto split: if_splits)
    have av': "frame q \<notin> avail ?s'" if "user_map root s1 w = Some q" for w q
      using aspace_okD(4) [OF U(2) that] un that unfolding av by blast
    have mem: "mem_eq_off (avail ?s') (ram s1) (ram ?s')" using F(4) by (simp add: untrack_eqs)
    have dj': "avail ?s' \<inter> table_frames root s1 = {}" using tf dj unfolding av by blast
    have inv: "buddy_inv ?s'" using F(2) by (simp add: untrack_eqs)
    note E = aspace_elsewhere [OF U(2) inv mem dj' dj' av']
    show ?thesis
    proof (rule that [of ?s'])
      show "release_page root v s = Some ?s'" using U(1) Some F(1) by (simp add: release_page_def)
      show "aspace_ok root ?s'" by (rule E(1))
      show "user_map root ?s' = (user_map root s)(v := None)" using E(2) U(3) by simp
      show "avail ?s' = avail s \<union> frame ` set_option (user_map root s v)" using av U(4) Some by auto
      show "\<forall>w. \<not> same_page v w \<longrightarrow> page_leaf root w ?s' = page_leaf root w s" using E(3) U(5) by simp
      show "table_frames root ?s' \<subseteq> table_frames root s" using E(4) U(6) by simp
    qed
  qed
qed

lemma unmap_loop_ok:
  fixes s :: "'a kmem_scheme"
  assumes "aspace_ok root s" and "4096 dvd unat a" and "unat b \<le> 2 ^ 47"
  obtains s' where "unmap_loop root a b s = Some s'" and "aspace_ok root s'"
    and "user_map root s' = (\<lambda>w. if a \<le> w \<and> w < b then None else user_map root s w)"
    and "avail s' = avail s \<union> mapped_frames root s a b"
    and "table_frames root s' \<subseteq> table_frames root s"
  using assms
proof (induction root a b s arbitrary: thesis rule: unmap_loop.induct)
  case (1 root a b s)
  show ?case
  proof (cases "a < b")
    case False
    then have no: "\<not> (a \<le> w \<and> w < b)" for w by auto
    then have "mapped_frames root s a b = {}" by (auto simp: mapped_frames_def)
    then show ?thesis
      using 1(2) [of s] 1(3) False no by (simp add: unmap_loop.simps [of root a])
  next
    case True
    then have "unat a < 2 ^ 47" using 1(5) unfolding word_less_nat_alt by linarith
    then have up: "user_page a" using 1(4) by (simp add: user_page_def)
    have lt: "unat a + unat PAGE_SIZE < 2 ^ LENGTH(64)" using up by (simp add: user_page_def PAGE_SIZE_def)
    note ca = checked_add_ok [OF lt]
    have ua: "unat (a + PAGE_SIZE) = unat a + 4096" using unat_add_exact [OF lt] by (simp add: PAGE_SIZE_def)
    obtain s1 where R: "release_page root a s = Some s1" "aspace_ok root s1"
      "user_map root s1 = (user_map root s)(a := None)"
      "avail s1 = avail s \<union> frame ` set_option (user_map root s a)"
      "\<forall>w. \<not> same_page a w \<longrightarrow> page_leaf root w s1 = page_leaf root w s"
      "table_frames root s1 \<subseteq> table_frames root s"
      using release_page_ok [OF 1(3) up] .
    have al: "4096 dvd unat (a + PAGE_SIZE)" using 1(4) ua by simp
    obtain s' where L: "unmap_loop root (a + PAGE_SIZE) b s1 = Some s'" "aspace_ok root s'"
      "user_map root s' = (\<lambda>w. if a + PAGE_SIZE \<le> w \<and> w < b then None else user_map root s1 w)"
      "avail s' = avail s1 \<union> mapped_frames root s1 (a + PAGE_SIZE) b"
      "table_frames root s' \<subseteq> table_frames root s1"
      by (rule 1(1) [OF True R(1) ca _ R(2) al 1(5)])
    have step: "a \<le> w \<and> w < b \<longleftrightarrow> w = a \<or> a + PAGE_SIZE \<le> w \<and> w < b" if upw: "user_page w" for w
    proof -
      obtain i j where "unat a = 4096 * i" "unat w = 4096 * j" using 1(4) upw unfolding user_page_def dvd_def by blast
      then show ?thesis using True ua by (auto simp: word_le_nat_alt word_less_nat_alt word_unat_eq_iff)
    qed
    have um: "user_map root s w = None" if "\<not> user_page w" for w using that by (simp add: user_map_def)
    have "user_map root s' = (\<lambda>w. if a \<le> w \<and> w < b then None else user_map root s w)"
    proof
      fix w show "user_map root s' w = (if a \<le> w \<and> w < b then None else user_map root s w)"
        using step [of w] um [of w] unfolding L(3) R(3) by (cases "user_page w") auto
    qed
    moreover have "avail s' = avail s \<union> mapped_frames root s a b"
    proof -
      have "mapped_frames root s a b = frame ` set_option (user_map root s a) \<union> mapped_frames root s1 (a + PAGE_SIZE) b"
      proof (intro equalityI subsetI)
        fix f assume "f \<in> mapped_frames root s a b"
        then obtain v p where vp: "f = frame p" "a \<le> v \<and> v < b" "user_map root s v = Some p"
          by (auto simp: mapped_frames_def)
        have "user_page v" using vp(3) um by fastforce
        then show "f \<in> frame ` set_option (user_map root s a) \<union> mapped_frames root s1 (a + PAGE_SIZE) b"
          using step [of v] vp unfolding mapped_frames_def R(3) by auto
      next
        fix f assume "f \<in> frame ` set_option (user_map root s a) \<union> mapped_frames root s1 (a + PAGE_SIZE) b"
        then show "f \<in> mapped_frames root s a b"
        proof
          assume "f \<in> frame ` set_option (user_map root s a)"
          then show ?thesis using True by (auto simp: mapped_frames_def)
        next
          assume "f \<in> mapped_frames root s1 (a + PAGE_SIZE) b"
          then obtain v p where vp: "f = frame p" "a + PAGE_SIZE \<le> v \<and> v < b" "user_map root s v = Some p"
            by (auto simp: mapped_frames_def R(3) split: if_splits)
          have "user_page v" using vp(3) um by fastforce
          then show ?thesis using step [of v] vp unfolding mapped_frames_def by auto
        qed
      qed
      then show ?thesis using L(4) R(4) by auto
    qed
    moreover have "unmap_loop root a b s = Some s'" using True R(1) ca L(1) by (simp add: unmap_loop.simps [of root a])
    ultimately show ?thesis using 1(2) [of s'] L(2) L(5) R(6) by blast
  qed
qed

section \<open>Mapping a frame for the user\<close>

lemma flags_ok_to_page_flags: "flags_ok (to_page_flags f)"
  by (simp add: to_page_flags_def Let_def)

lemma map_user:
  fixes s :: "'a kmem_scheme"
  assumes ok: "aspace_ok root s" and v: "user_page v" and p: "in_window p" "p \<noteq> 0" and f: "flags_ok f"
    and fp: "frame p \<notin> avail s" "frame p \<notin> table_frames root s" "\<forall>w q. user_map root s w = Some q \<longrightarrow> frame q \<noteq> frame p"
  obtains r s' where "map_4kb BuddyPages root v p f s = Some (r, s')" and "aspace_ok root s'"
    and "user_map root s' = (if r = Some () then (user_map root s)(v := Some p) else user_map root s)"
    and "\<forall>w. page_leaf root w s' = (if r = Some () \<and> same_page v w then Some (0, new_page p (f OR PF_PRESENT))
                                     else page_leaf root w s)"
    and "avail s' \<subseteq> avail s" and "mem_eq_off (table_frames root s \<union> avail s) (ram s) (ram s')"
    and "r = None \<longrightarrow> avail s' = {}"
    and "page_owners s' = page_owners s \<and> owners_capacity s' = owners_capacity s"
    and "table_frames root s' \<subseteq> table_frames root s \<union> (avail s - avail s')"
proof -
  note D = aspace_okD [OF ok]
  let ?e = "new_page p (f OR PF_PRESENT)"
  obtain r s' where M: "map_4kb BuddyPages root v p f s = Some (r, s')" "buddy_inv s'" "tree_ok root s'"
    "\<And>w. page_leaf root w s' = (if r = Some () \<and> same_page v w then Some (0, ?e) else page_leaf root w s)"
    "r = None \<Longrightarrow> avail s' = {} \<or> \<not> no_huge root v s'"
    "avail s' \<subseteq> avail s" "table_frames root s' \<subseteq> table_frames root s \<union> (avail s - avail s')"
    "mem_eq_off (table_frames root s \<union> avail s) (ram s) (ram s')"
    "page_owners s' = page_owners s" "owners_capacity s' = owners_capacity s"
    by (rule map_4kb_buddy [OF D(1,2) p(1) f, of v]) blast
  have e: "pte_phys_addr ?e = p"
    using entry_decode(1) [OF p(1), of "f OR PF_PRESENT"] f by (simp add: new_page_def)
  have um: "user_map root s' w = (if r = Some () \<and> w = v then Some p else user_map root s w)" for w
    using M(4) [of w] same_page_user [OF v, of w] v e by (auto simp: user_map_def)
  have nh: "no_huge root w s'" if "user_page w" for w
    using D(3) [OF that] M(4) [of w] by (auto simp: no_huge_def split: if_splits)
  have "aspace_ok root s'"
    unfolding aspace_ok_def
  proof (intro conjI allI impI)
    fix w q assume "user_map root s' w = Some q"
    then have "r = Some () \<and> w = v \<and> q = p \<or> user_map root s w = Some q" using um [of w] by (auto split: if_splits)
    then have "in_window q \<and> q \<noteq> 0 \<and> frame q \<notin> avail s \<and> frame q \<notin> table_frames root s"
      using D(4) [of w q] p fp by blast
    then show "in_window q" "q \<noteq> 0" "frame q \<notin> avail s'" "frame q \<notin> table_frames root s'" using M(6,7) by blast+
  next
    fix w w' q assume "user_map root s' w = Some q \<and> user_map root s' w' = Some q"
    then show "w = w'" using um [of w] um [of w'] D(5) [of w q w'] fp(3) by (auto split: if_splits)
  qed (use M(2,3) nh in auto)
  moreover have "r = None \<longrightarrow> avail s' = {}" using M(5) nh [OF v] by blast
  moreover have "user_map root s' = (if r = Some () then (user_map root s)(v := Some p) else user_map root s)"
    using um by (intro ext) auto
  ultimately show ?thesis using that [of r s'] M by blast
qed

lemma aspace_ok_cong:
  assumes "ram s' = ram s" and "free_heads s' = free_heads s" and "free_counts s' = free_counts s"
  shows "aspace_ok root s' = aspace_ok root s" and "user_map root s' = user_map root s"
    and "avail s' = avail s" and "buddy_inv s' = buddy_inv s" and "table_frames root s' = table_frames root s"
    and "page_leaf root w s' = page_leaf root w s"
proof -
  have "free_list s' = free_list s" by (rule ext) (simp add: free_list_def assms)
  then show av: "avail s' = avail s" and bi: "buddy_inv s' = buddy_inv s"
    by (simp_all add: avail_def buddy_inv_def buddy_rel_def assms)
  show tf: "table_frames root s' = table_frames root s" and pl: "page_leaf root w s' = page_leaf root w s" for w
    by (simp_all add: table_frames_def page_leaf_def assms)
  show um: "user_map root s' = user_map root s" by (rule ext) (simp add: user_map_def pl)
  show "aspace_ok root s' = aspace_ok root s"
    by (simp add: aspace_ok_def av bi um tf tree_ok_def no_huge_def pl assms(1))
qed

lemma frame_bytes: "in_window p \<Longrightarrow> i < 4096 \<Longrightarrow> frame (p + of_nat i) = frame p"
  by (rule frame_add) (simp add: in_window_def)

lemma zeroed_page:
  assumes "\<forall>i<4096. m' (p + of_nat i) = write_bytes m p 0 4096 (p + of_nat i)"
  shows "load_bytes m' p 4096 = replicate 4096 0"
proof (rule nth_equalityI)
  fix i assume "i < length (load_bytes m' p 4096)"
  then have i: "i < 4096" by (simp add: load_bytes_def)
  then have "unat (p + of_nat i - p) < 4096" by (simp add: unat_of_nat)
  then have "write_bytes m p 0 4096 (p + of_nat i) = 0"
    unfolding write_bytes_def uint_less_int by (simp only: if_True)
  then show "load_bytes m' p 4096 ! i = replicate 4096 0 ! i" using i assms by (simp add: load_bytes_def)
qed (simp add: load_bytes_def)

text \<open>Taking a frame from the allocator leaves an address space as it is, and the frame is nobody's.\<close>

lemma alloc_user:
  fixes s :: "'a kmem_scheme"
  assumes ok: "aspace_ok root s" and al: "buddy_alloc 0 s = Some (Some p, s')"
  shows "aspace_ok root s'" and "user_map root s' = user_map root s" and "page_leaf root w s' = page_leaf root w s"
    and "table_frames root s' = table_frames root s" and "in_window p" and "p \<noteq> 0" and "frame p \<in> avail s"
    and "avail s' = avail s - {frame p}" and "frame p \<notin> table_frames root s"
    and "\<forall>w q. user_map root s w = Some q \<longrightarrow> frame q \<noteq> frame p"
    and "page_owners s' = page_owners s" and "owners_capacity s' = owners_capacity s"
proof -
  note D = aspace_okD [OF ok]
  note A = buddy_alloc_inv [OF D(1) al]
  have B: "block_ok p 0" "frame p \<in> avail s" "avail s' = avail s - {frame p}" "mem_eq_off (avail s') (ram s) (ram s')"
    using A(4) [OF refl] unfolding block_frames_0 by blast+
  have tf: "avail s \<inter> table_frames root s = {}" using D(2) unfolding tree_ok_def by blast
  then have F: "avail s' \<inter> table_frames root s = {}" using B(3) by blast
  have un: "frame q \<notin> avail s'" if "user_map root s v = Some q" for v q using D(4) [OF that] B(3) by blast
  note E = aspace_elsewhere [OF ok A(1) B(4) F F un]
  show "aspace_ok root s'" "user_map root s' = user_map root s" "page_leaf root w s' = page_leaf root w s"
    "table_frames root s' = table_frames root s" using E by auto
  show "in_window p" by (rule block_ok_window [OF B(1)])
  show "p \<noteq> 0" using B(1) by (simp add: block_ok_def)
  show "frame p \<in> avail s" "avail s' = avail s - {frame p}" by (rule B)+
  show "frame p \<notin> table_frames root s" using B(2) tf by blast
  show "\<forall>w q. user_map root s w = Some q \<longrightarrow> frame q \<noteq> frame p" using D(4) B(2) by metis
  show "page_owners s' = page_owners s" "owners_capacity s' = owners_capacity s"
    using buddy_more_owners [OF A(2)] by auto
qed

text \<open>Writing to a frame that belongs to nobody.\<close>

lemma write_user:
  fixes s :: "'a kmem_scheme"
  assumes ok: "aspace_ok root s" and mem: "mem_eq_off F (ram s) m" and F: "F \<inter> avail s = {}" "F \<inter> table_frames root s = {}"
  shows "aspace_ok root (s\<lparr>ram := m\<rparr>)" and "user_map root (s\<lparr>ram := m\<rparr>) = user_map root s"
    and "page_leaf root w (s\<lparr>ram := m\<rparr>) = page_leaf root w s" and "avail (s\<lparr>ram := m\<rparr>) = avail s"
    and "table_frames root (s\<lparr>ram := m\<rparr>) = table_frames root s"
proof -
  note D = aspace_okD [OF ok]
  note W = buddy_write_ok [OF D(1) mem F(1)]
  have tf: "avail (s\<lparr>ram := m\<rparr>) \<inter> table_frames root s = {}" using D(2) W(2) unfolding tree_ok_def by blast
  have un: "frame q \<notin> avail (s\<lparr>ram := m\<rparr>)" if "user_map root s v = Some q" for v q using D(4) [OF that] W(2) by blast
  have mem': "mem_eq_off F (ram s) (ram (s\<lparr>ram := m\<rparr>))" using mem by simp
  note E = aspace_elsewhere [OF ok W(1) mem' F(2) tf un]
  show "aspace_ok root (s\<lparr>ram := m\<rparr>)" "user_map root (s\<lparr>ram := m\<rparr>) = user_map root s"
    "page_leaf root w (s\<lparr>ram := m\<rparr>) = page_leaf root w s" "table_frames root (s\<lparr>ram := m\<rparr>) = table_frames root s"
    using E by auto
  show "avail (s\<lparr>ram := m\<rparr>) = avail s" by (rule W(2))
qed

section \<open>Demand paging\<close>

lemma page_of_user:
  assumes "unat f < 2 ^ 47"
  shows "user_page (f AND NOT (PAGE_SIZE - 1))"
proof -
  have eq: "f AND NOT (PAGE_SIZE - 1) = align_down f 4096" by (simp add: align_down_def PAGE_SIZE_def)
  have "4096 * (unat f div 4096) \<le> unat f" by simp
  then show ?thesis unfolding eq user_page_def unat_align_down_page using assms by (simp add: frame_def)
qed

lemma track_eqs:
  assumes "track p k t i s = Some s'"
  shows "ram s' = ram s" "free_heads s' = free_heads s" "free_counts s' = free_counts s"
    and "page_owners s' = page_owners s @ [(p, \<lparr>owner_tag' = t, owner_pid = i, owner_order = k\<rparr>)]"
    and "owners_capacity s' = owners_capacity s"
  using assms by (auto simp: track_def split: if_splits)

text \<open>
  The contents of a mapped page, and what any operation that adds one page does: a frame is taken from the
  allocator, recorded, filled by \<open>upd\<close> and mapped.
\<close>

definition page_is :: "u64 \<Rightarrow> 'a machine_scheme \<Rightarrow> u64 \<Rightarrow> u64 \<Rightarrow> (nat \<Rightarrow> u8) \<Rightarrow> bool" where
  "page_is root s v f c \<longleftrightarrow> (\<exists>p. user_map root s v = Some p \<and>
     page_leaf root v s = Some (0, new_page p (f OR PF_PRESENT)) \<and> (\<forall>i<4096. ram s (p + of_nat i) = c i))"

lemma page_is_elsewhere:
  assumes "aspace_ok root s" and "page_is root s v f c" and "page_leaf root v s' = page_leaf root v s"
    and "mem_eq_off (table_frames root s \<union> avail s) (ram s) (ram s')"
  shows "page_is root s' v f c"
proof -
  obtain p where p: "user_map root s v = Some p" "page_leaf root v s = Some (0, new_page p (f OR PF_PRESENT))"
    "\<forall>i<4096. ram s (p + of_nat i) = c i"
    using assms(2) by (auto simp: page_is_def)
  have w: "in_window p" "frame p \<notin> table_frames root s \<union> avail s" using aspace_okD(4) [OF assms(1) p(1)] by auto
  then have "ram s' (p + of_nat i) = ram s (p + of_nat i)" if "i < 4096" for i
    using assms(4) frame_bytes [OF w(1) that] by (simp add: mem_eq_off_def)
  moreover have "user_map root s' v = user_map root s v" using assms(3) by (simp add: user_map_def)
  ultimately show ?thesis using p assms(3) by (auto simp: page_is_def)
qed

lemma fresh_page_ok:
  fixes s :: "'a kmem_scheme"
  assumes ok: "aspace_ok root s" and v: "user_page v" and f: "flags_ok f"
    and cap: "length (page_owners s) < owners_capacity s"
    and upd: "\<forall>p m. in_window p \<longrightarrow> mem_eq_off {frame p} m (upd p m)"
  obtains (no_memory) "buddy_alloc 0 s = Some (None, s)" and "avail s = {}"
  | (page) p s1 s2 r s' where "buddy_alloc 0 s = Some (Some p, s1)" and "track p 0 tag pid s1 = Some s2"
    and "phys_to_virt p = Some (KERNEL_VIRT_BASE + p)" and "deref_phys (KERNEL_VIRT_BASE + p) = p" and "in_window p"
    and "map_4kb BuddyPages root v p f (s2\<lparr>ram := upd p (ram s2)\<rparr>) = Some (r, s')"
    and "aspace_ok root s'"
    and "user_map root s' = (if r = Some () then (user_map root s)(v := Some p) else user_map root s)"
    and "r = Some () \<longrightarrow> page_is root s' v f (\<lambda>i. upd p (ram s2) (p + of_nat i))"
    and "\<forall>w. \<not> (r = Some () \<and> same_page v w) \<longrightarrow> page_leaf root w s' = page_leaf root w s"
    and "r = None \<longrightarrow> avail s' = {}"
    and "frame p \<in> avail s" and "avail s' \<subseteq> avail s - {frame p}"
    and "mem_eq_off (avail s - {frame p}) (ram s) (ram s2)"
    and "mem_eq_off (table_frames root s \<union> avail s) (ram s) (ram s')"
    and "table_frames root s' \<subseteq> table_frames root s \<union> (avail s - {frame p} - avail s')"
    and "page_owners s' = page_owners s @ [(p, \<lparr>owner_tag' = tag, owner_pid = pid, owner_order = 0\<rparr>)]"
    and "owners_capacity s' = owners_capacity s"
proof -
  obtain r1 s1 where al: "buddy_alloc 0 s = Some (r1, s1)" using buddy_alloc_returns [OF aspace_okD(1) [OF ok]] by fast
  show ?thesis
  proof (cases r1)
    case None
    then have "s1 = s" "avail s = {}"
      using buddy_alloc_inv(3) [OF aspace_okD(1) [OF ok] al] al buddy_alloc_none_empty [OF aspace_okD(1) [OF ok]] by auto
    then show ?thesis using no_memory al None by simp
  next
    case (Some p)
    note A = alloc_user [OF ok al [unfolded Some]]
    have m1: "mem_eq_off (avail s1) (ram s) (ram s1)"
      using buddy_alloc_inv(4) [OF aspace_okD(1) [OF ok] al Some] by blast
    obtain s2 where tr: "track p 0 tag pid s1 = Some s2" using cap A(11,12) by (simp add: track_def)
    note T = track_eqs(1-3) [OF tr]
    note C = aspace_ok_cong [OF T]
    have ok2: "aspace_ok root s2" using A(1) C(1) by simp
    have ptr: "phys_to_virt p = Some (KERNEL_VIRT_BASE + p)" "deref_phys (KERNEL_VIRT_BASE + p) = p"
      using window_ptr [OF A(5)] by auto
    let ?m = "upd p (ram s2)"
    have mem: "mem_eq_off {frame p} (ram s2) ?m" using upd A(5) by blast
    have F: "{frame p} \<inter> avail s2 = {}" "{frame p} \<inter> table_frames root s2 = {}" using A(4,8,9) C(3,5) by auto
    note W = write_user [OF ok2 mem F]
    let ?s3 = "s2\<lparr>ram := ?m\<rparr>"
    have fp: "frame p \<notin> avail ?s3" "frame p \<notin> table_frames root ?s3" "\<forall>w q. user_map root ?s3 w = Some q \<longrightarrow> frame q \<noteq> frame p"
      using F W(2,4,5) A(2,10) C(2) by auto
    obtain r s' where M: "map_4kb BuddyPages root v p f ?s3 = Some (r, s')" "aspace_ok root s'"
      "user_map root s' = (if r = Some () then (user_map root ?s3)(v := Some p) else user_map root ?s3)"
      "\<forall>w. page_leaf root w s' = (if r = Some () \<and> same_page v w then Some (0, new_page p (f OR PF_PRESENT))
                                     else page_leaf root w ?s3)"
      "avail s' \<subseteq> avail ?s3" "mem_eq_off (table_frames root ?s3 \<union> avail ?s3) (ram ?s3) (ram s')"
      "r = None \<longrightarrow> avail s' = {}"
      "page_owners s' = page_owners ?s3 \<and> owners_capacity s' = owners_capacity ?s3"
      "table_frames root s' \<subseteq> table_frames root ?s3 \<union> (avail ?s3 - avail s')"
      using map_user [OF W(1) v A(5,6) f fp] .
    have um: "user_map root ?s3 = user_map root s" using W(2) C(2) A(2) by simp
    have av: "avail ?s3 = avail s - {frame p}" using W(4) C(3) A(8) by simp
    have tf: "table_frames root ?s3 = table_frames root s" using W(5) C(5) A(4) by simp
    have m2: "mem_eq_off (avail s - {frame p}) (ram s) (ram s2)" using m1 A(8) T(1) by simp
    have "mem_eq_off (avail s) (ram s) ?m" by (rule mem_eq_off_trans [OF m2 mem]) (use A(7) in blast)
    then have "mem_eq_off (avail s) (ram s) (ram ?s3)" by simp
    then have m': "mem_eq_off (table_frames root s \<union> avail s) (ram s) (ram s')"
      by (rule mem_eq_off_trans [OF _ M(6)]) (use tf av in blast)
    have c: "\<forall>i<4096. ram s' (p + of_nat i) = ?m (p + of_nat i)"
    proof (intro allI impI)
      fix i :: nat assume "i < 4096"
      then have "frame (p + of_nat i) = frame p" by (rule frame_bytes [OF A(5)])
      then show "ram s' (p + of_nat i) = ?m (p + of_nat i)" using M(6) fp by (simp add: mem_eq_off_def)
    qed
    have um': "user_map root s' = (if r = Some () then (user_map root s)(v := Some p) else user_map root s)"
      using M(3) um by simp
    have pl: "\<forall>w. \<not> (r = Some () \<and> same_page v w) \<longrightarrow> page_leaf root w s' = page_leaf root w s"
      using M(4) W(3) C(6) A(3) by simp
    have "r = Some () \<longrightarrow> page_is root s' v f (\<lambda>i. ?m (p + of_nat i))"
      using um' M(4) c by (auto simp: page_is_def same_page_def)
    then show ?thesis
      by (rule page [OF al [unfolded Some] tr ptr A(5) M(1,2) um' _ pl M(7) A(7) _ m2 m'])
        (use M av tf track_eqs(4,5) [OF tr] A(11,12) in auto)
  qed
qed

text \<open>A fresh zeroed frame for a page: the part of the fault handler after the area has been found.\<close>

definition fill_page ::
    "AddressSpace \<Rightarrow> u64 \<Rightarrow> VMA \<Rightarrow> 'a kmem_scheme \<Rightarrow> ((string + unit) \<times> 'a kmem_scheme) option" where
  "fill_page a page_addr vma s = do {
     (phys, s) \<leftarrow> buddy_alloc 0 s;
     (case phys of
        None \<Rightarrow> Some (Inl ''Out of memory'', s)
      | Some phys \<Rightarrow> do {
          s \<leftarrow> track phys 0 (owner_tag (vma_kind vma)) (as_owner_pid a) s;
          ptr \<leftarrow> phys_to_virt phys;
          let s = s\<lparr>ram := write_bytes (ram s) (deref_phys ptr) 0 4096\<rparr>;
          (r, s) \<leftarrow> map_4kb BuddyPages (as_page_table a) page_addr phys (to_page_flags (vma_flags vma)) s;
          (case r of
             None \<Rightarrow> Some (Inl ''Failed to map page'', s)
           | Some _ \<Rightarrow> Some (Inr (), s))
        })
   }"

lemma fill_page_ok:
  fixes s :: "'a kmem_scheme"
  assumes ok: "aspace_ok (as_page_table a) s" and v: "user_page v" and none: "user_map (as_page_table a) s v = None"
    and cap: "length (page_owners s) < owners_capacity s"
  obtains r s' where "fill_page a v vma s = Some (r, s')" and "aspace_ok (as_page_table a) s'"
    and "case r of
      Inr _ \<Rightarrow> \<exists>p. user_map (as_page_table a) s' = (user_map (as_page_table a) s)(v := Some p) \<and> frame p \<in> avail s \<and>
        load_bytes (ram s') p 4096 = replicate 4096 0 \<and>
        page_leaf (as_page_table a) v s' = Some (0, new_page p (to_page_flags (vma_flags vma) OR PF_PRESENT))
    | Inl e \<Rightarrow> user_map (as_page_table a) s' = user_map (as_page_table a) s \<and> avail s' = {}"
proof -
  let ?root = "as_page_table a" and ?f = "to_page_flags (vma_flags vma)"
  have upd: "\<forall>p m. in_window p \<longrightarrow> mem_eq_off {frame p} m (write_bytes m p 0 4096)"
    by (auto intro!: mem_eq_off_write_bytes simp: in_window_def)
  show ?thesis
  proof (cases rule: fresh_page_ok [where upd = "\<lambda>p m. write_bytes m p 0 4096" and f = ?f
        and tag = "owner_tag (vma_kind vma)" and pid = "as_owner_pid a", OF ok v flags_ok_to_page_flags cap upd, case_names no_memory page])
    case no_memory
    then show ?thesis using that [of "Inl ''Out of memory''" s] ok by (simp add: fill_page_def)
  next
    case (page p s1 s2 r s')
    show ?thesis
    proof (cases r)
      case None
      then have "fill_page a v vma s = Some (Inl ''Failed to map page'', s')" using page(1-6) by (simp add: fill_page_def)
      then show ?thesis using that [of "Inl ''Failed to map page''" s'] page None by simp
    next
      case (Some u)
      then have "fill_page a v vma s = Some (Inr (), s')" using page(1-6) by (simp add: fill_page_def)
      moreover have um: "user_map ?root s' = (user_map ?root s)(v := Some p)" using page(8) Some by simp
      moreover have P: "page_is ?root s' v ?f (\<lambda>i. write_bytes (ram s2) p 0 4096 (p + of_nat i))" using page(9) Some by simp
      moreover have "load_bytes (ram s') p 4096 = replicate 4096 0"
        using P um by (intro zeroed_page) (auto simp: page_is_def)
      moreover have "page_leaf ?root v s' = Some (0, new_page p (?f OR PF_PRESENT))"
        using P um by (auto simp: page_is_def)
      ultimately show ?thesis using that [of "Inr ()" s'] page(7,12) by auto
    qed
  qed
qed

lemma handle_page_fault_fill:
  assumes "aspace_ok (as_page_table a) s" and "unat fault < 2 ^ 47"
  shows "handle_page_fault a fault s =
    (let v = fault AND NOT (PAGE_SIZE - 1) in
     if user_map (as_page_table a) s v \<noteq> None then Some (Inr (), s)
     else case find_vma (as_vmas a) fault of
            None \<Rightarrow> Some (Inl ''No VMA for fault address'', s)
          | Some vma \<Rightarrow> fill_page a v vma s)"
  using translate_user [OF assms(1) page_of_user [OF assms(2)]]
  by (auto simp: handle_page_fault_def fill_page_def Let_def split: option.splits)


section \<open>Holes in the list of areas\<close>

definition meets :: "u64 \<Rightarrow> u64 \<Rightarrow> VMA \<Rightarrow> bool" where
  "meets hs he v \<longleftrightarrow> vma_start v < he \<and> hs < vma_end v"

lemma takeWhile_filter_sorted:
  assumes "vmas_ok ys"
  shows "takeWhile (\<lambda>v. vma_start v < he) ys = filter (\<lambda>v. vma_start v < he) ys"
  using assms
proof (induction ys)
  case (Cons y ys)
  have "\<forall>z\<in>set ys. vma_start y \<le> vma_start z" using Cons.prems by (auto intro: order.trans)
  then have "filter (\<lambda>v. vma_start v < he) ys = []" if "\<not> vma_start y < he"
    using that by (auto simp: filter_empty_conv)
  then show ?case using Cons by auto
qed simp

lemma overlapping_filter:
  assumes ok: "vmas_ok vs" and ne: "all_nonempty vs" and h: "hs < he"
  shows "overlapping vs hs he = filter (meets hs he) vs"
proof -
  obtain xs ys where vs: "vs = xs @ ys" "lower_bound vs hs = length xs"
    "\<forall>x\<in>set xs. vma_start x < hs" "\<forall>y\<in>set ys. hs \<le> vma_start y"
    using lower_bound_split [OF ok] by metis
  have "hs < vma_end y" if "y \<in> set ys" for y
    using vs(4) that ne by (auto simp: vs(1) all_nonempty_def intro: le_less_trans)
  then have fy: "filter (meets hs he) ys = takeWhile (\<lambda>v. vma_start v < he) ys"
    using takeWhile_filter_sorted [of ys he] ok by (auto simp: vs(1) vmas_ok_append meets_def intro: filter_cong)
  show ?thesis
  proof (cases xs rule: rev_cases)
    case Nil
    then show ?thesis using vs fy by (simp add: overlapping_def)
  next
    case (snoc zs p)
    have pl: "vma_start p < hs" "vma_start p < he" using vs(3) snoc h by auto
    have "filter (meets hs he) zs = []"
      unfolding filter_empty_conv meets_def
    proof (intro ballI notI)
      fix z assume "z \<in> set zs" "vma_start z < he \<and> hs < vma_end z"
      moreover have "vma_end z \<le> vma_start p" using ok \<open>z \<in> set zs\<close> by (auto simp: vs(1) snoc vmas_ok_append)
      ultimately show False using pl(1) by auto
    qed
    then have fl: "filter (meets hs he) vs = (if hs < vma_end p then [p] else []) @ filter (meets hs he) ys"
      using pl(2) by (simp add: vs(1) snoc meets_def)
    show ?thesis
    proof (cases "hs < vma_end p")
      case True
      then have "overlapping vs hs he = takeWhile (\<lambda>v. vma_start v < he) (p # ys)"
        using vs(2) by (simp add: overlapping_def vs(1) snoc nth_append)
      then show ?thesis using fl fy True pl(2) by simp
    next
      case False
      then show ?thesis using fl fy vs(2) by (simp add: overlapping_def vs(1) snoc nth_append)
    qed
  qed
qed

lemma add_vma_keep:
  assumes ok: "vmas_ok vs" and add: "add_vma vs v = Inr vs'" and w: "w \<in> set vs"
    and "vma_end w \<noteq> vma_start v" and "vma_start w \<noteq> vma_end v"
  shows "w \<in> set vs'"
proof -
  obtain xs ys where vs: "vs = xs @ ys" "lower_bound vs (vma_start v) = length xs"
    using lower_bound_split [OF ok] by metis
  have res: "vs' = fst (glue_left xs v) @ glue_right (snd (glue_left xs v)) ys"
    using add add_vma_split [of xs ys v] vs by (auto split: if_splits)
  have "w \<in> set (fst (glue_left xs v))" if "w \<in> set xs"
    using that assms(4) by (cases xs rule: rev_cases) (auto simp: glue_left_def)
  moreover have "w \<in> set (glue_right (snd (glue_left xs v)) ys)" if "w \<in> set ys"
    using that assms(5) by (cases ys) (auto simp: glue_right_def glue_left_def)
  ultimately show ?thesis using w vs(1) res by auto
qed

lemma add_vma_free:
  assumes "vmas_ok vs" and "all_nonempty vs" and "vma_start v < vma_end v"
    and "\<And>a. vma_contains v a \<Longrightarrow> area_at vs a = None"
  shows "\<exists>vs'. add_vma vs v = Inr vs'"
proof -
  have "\<nexists>a. vma_contains v a \<and> area_at vs a \<noteq> None" using assms(4) by (auto simp del: not_None_eq)
  then show ?thesis using add_vma_overlap(2) [OF assms(1-3)] by (rule iffD1 [rotated])
qed

text \<open>One area cut by the hole: taken out, and its parts outside the hole put back.\<close>

lemma cut_area:
  assumes ok: "vmas_ok vs" and ne: "all_nonempty vs" and al: "bounds_aligned vs"
    and v: "v \<in> set vs" "meets hs he v" and h: "hs < he" and ha: "4096 dvd unat hs" "4096 dvd unat he"
  obtains vs2 vs3 where
    "add_rest (vma_start v < hs) (VMA_new (vma_start v) hs (vma_flags v) (vma_kind v)) (snd (remove_vma vs (vma_start v))) = Inr vs2"
    and "add_rest (he < vma_end v) (VMA_new he (vma_end v) (vma_flags v) (vma_kind v)) vs2 = Inr vs3"
    and "vmas_ok vs3" and "all_nonempty vs3" and "bounds_aligned vs3"
    and "\<forall>x. area_at vs3 x = (if vma_contains v x \<and> hs \<le> x \<and> x < he then None else area_at vs x)"
    and "\<forall>w\<in>set vs. w \<noteq> v \<and> meets hs he w \<longrightarrow> w \<in> set vs3"
proof -
  obtain xs ys where vs: "vs = xs @ v # ys" "remove_vma vs (vma_start v) = (Some v, xs @ ys)"
    using remove_vma_present [OF ok ne v(1)] .
  let ?vs1 = "xs @ ys" and ?l = "VMA_new (vma_start v) hs (vma_flags v) (vma_kind v)"
    and ?r = "VMA_new he (vma_end v) (vma_flags v) (vma_kind v)"
  have m: "vma_start v < he" "hs < vma_end v" using v(2) by (auto simp: meets_def)
  have ok1: "vmas_ok ?vs1" using ok vmas_ok_sublist by (simp add: vs(1))
  have ne1: "all_nonempty ?vs1" and al1: "bounds_aligned ?vs1"
    using ne al by (auto simp: vs(1) all_nonempty_def bounds_aligned_def)
  have a1: "area_at ?vs1 x = (if vma_contains v x then None else area_at vs x)" for x
    using area_at_middle area_at_removed ok unfolding vs(1) by auto
  have area: "vma_area ?l = vma_area v" "vma_area ?r = vma_area v" by (simp_all add: vma_area_def)
  have av: "area_at vs x = Some (vma_area v)" if "vma_contains v x" for x
    using area_at_middle [OF ok [unfolded vs(1)]] that by (simp add: vs(1))
  have sep: "vma_end w \<le> vma_start v \<or> vma_end v \<le> vma_start w" if "w \<in> set ?vs1" for w
    using ok that by (auto simp: vs(1) vmas_ok_append)
  have bal: "4096 dvd unat (vma_start v)" "4096 dvd unat (vma_end v)" using al v(1) by (auto simp: bounds_aligned_def)
  have L: "\<exists>vs2. add_rest (vma_start v < hs) ?l ?vs1 = Inr vs2 \<and> vmas_ok vs2 \<and> all_nonempty vs2 \<and> bounds_aligned vs2 \<and>
      (\<forall>x. area_at vs2 x = (if vma_start v \<le> x \<and> x < hs \<and> vma_start v < hs then Some (vma_area v) else area_at ?vs1 x)) \<and>
      (\<forall>w\<in>set ?vs1. meets hs he w \<longrightarrow> w \<in> set vs2)"
  proof (cases "vma_start v < hs")
    case True
    then have lt: "vma_start ?l < vma_end ?l" by simp
    have "area_at ?vs1 x = None" if "vma_contains ?l x" for x
    proof -
      have "x < vma_end v" using that m(2) by (auto intro: less_trans)
      then have "vma_contains v x" using that by (simp add: vma_contains_def)
      then show ?thesis using a1 by simp
    qed
    then obtain vs2 where add: "add_vma ?vs1 ?l = Inr vs2" using add_vma_free [OF ok1 ne1 lt] by metis
    note A = add_vma_Inr [OF ok1 less_imp_le [OF lt] add]
    have "w \<in> set vs2" if "w \<in> set ?vs1" "meets hs he w" for w
      using add_vma_keep [OF ok1 add that(1)] sep [OF that(1)] that(2) m True by (auto simp: meets_def)
    moreover have "bounds_aligned vs2"
      unfolding bounds_aligned_def
    proof
      fix w assume "w \<in> set vs2"
      from A(4) [OF this] show "4096 dvd unat (vma_start w) \<and> 4096 dvd unat (vma_end w)"
        using al1 bal(1) ha(1) by (auto simp only: bounds_aligned_def VMA_new_simps)
    qed
    ultimately show ?thesis using add A(1) A(2) A(3) [OF ne1 lt] True area(1) by (auto simp: add_rest_def)
  next
    case False
    then show ?thesis using ok1 ne1 al1 by (simp add: add_rest_def)
  qed
  then obtain vs2 where L2: "add_rest (vma_start v < hs) ?l ?vs1 = Inr vs2" "vmas_ok vs2" "all_nonempty vs2" "bounds_aligned vs2"
    "\<And>x. area_at vs2 x = (if vma_start v \<le> x \<and> x < hs \<and> vma_start v < hs then Some (vma_area v) else area_at ?vs1 x)"
    "\<And>w. w \<in> set ?vs1 \<Longrightarrow> meets hs he w \<Longrightarrow> w \<in> set vs2" by blast
  have R: "\<exists>vs3. add_rest (he < vma_end v) ?r vs2 = Inr vs3 \<and> vmas_ok vs3 \<and> all_nonempty vs3 \<and> bounds_aligned vs3 \<and>
      (\<forall>x. area_at vs3 x = (if he \<le> x \<and> x < vma_end v \<and> he < vma_end v then Some (vma_area v) else area_at vs2 x)) \<and>
      (\<forall>w\<in>set vs2. w \<noteq> v \<and> w \<in> set ?vs1 \<and> meets hs he w \<longrightarrow> w \<in> set vs3)"
  proof (cases "he < vma_end v")
    case True
    then have lt: "vma_start ?r < vma_end ?r" by simp
    have "area_at vs2 x = None" if "vma_contains ?r x" for x
    proof -
      have c: "he \<le> x" "x < vma_end v" using that by auto
      then have "vma_contains v x" using m(1) by (auto simp: vma_contains_def intro: less_imp_le less_le_trans)
      moreover have "\<not> x < hs" using c(1) h by auto
      ultimately show ?thesis using L2(5) a1 by simp
    qed
    then obtain vs3 where add: "add_vma vs2 ?r = Inr vs3" using add_vma_free [OF L2(2,3) lt] by metis
    note A = add_vma_Inr [OF L2(2) less_imp_le [OF lt] add]
    have "w \<in> set vs3" if "w \<in> set vs2" "w \<in> set ?vs1" "meets hs he w" for w
      using add_vma_keep [OF L2(2) add that(1)] sep [OF that(2)] that(3) m True by (auto simp: meets_def)
    moreover have "bounds_aligned vs3"
      unfolding bounds_aligned_def
    proof
      fix w assume "w \<in> set vs3"
      from A(4) [OF this] show "4096 dvd unat (vma_start w) \<and> 4096 dvd unat (vma_end w)"
        using L2(4) bal(2) ha(2) by (auto simp only: bounds_aligned_def VMA_new_simps)
    qed
    ultimately show ?thesis using add A(1) A(2) A(3) [OF L2(3) lt] True area(2) by (auto simp: add_rest_def)
  next
    case False
    then show ?thesis using L2 by (simp add: add_rest_def)
  qed
  then obtain vs3 where R3: "add_rest (he < vma_end v) ?r vs2 = Inr vs3" "vmas_ok vs3" "all_nonempty vs3" "bounds_aligned vs3"
    "\<And>x. area_at vs3 x = (if he \<le> x \<and> x < vma_end v \<and> he < vma_end v then Some (vma_area v) else area_at vs2 x)"
    "\<And>w. w \<in> set vs2 \<Longrightarrow> w \<noteq> v \<Longrightarrow> w \<in> set ?vs1 \<Longrightarrow> meets hs he w \<Longrightarrow> w \<in> set vs3" by blast
  have "area_at vs3 x = (if vma_contains v x \<and> hs \<le> x \<and> x < he then None else area_at vs x)" for x
  proof (cases "vma_contains v x")
    case True
    then have "vma_start v \<le> x" "x < vma_end v" by (auto simp: vma_contains_def)
    then show ?thesis using R3(5) [of x] L2(5) [of x] a1 [of x] av [OF True] True h by (auto simp: not_less not_le)
  next
    case False
    then have "\<not> (vma_start v \<le> x \<and> x < hs \<and> vma_start v < hs)" "\<not> (he \<le> x \<and> x < vma_end v \<and> he < vma_end v)"
      using m by (auto simp: vma_contains_def)
    then show ?thesis using R3(5) [of x] L2(5) [of x] a1 [of x] False by (simp only: if_False) simp
  qed
  moreover have "\<forall>w\<in>set vs. w \<noteq> v \<and> meets hs he w \<longrightarrow> w \<in> set vs3"
    using L2(6) R3(6) by (auto simp: vs(1))
  ultimately show ?thesis using that [of vs2 vs3] L2(1) R3(1-4) vs(2) by simp
qed

section \<open>Holes in an address space\<close>

text \<open>The areas and the tables together: every mapped page lies in an area.\<close>

definition covered :: "AddressSpace \<Rightarrow> 'a machine_scheme \<Rightarrow> bool" where
  "covered a s \<longleftrightarrow> (\<forall>w. user_map (as_page_table a) s w \<noteq> None \<longrightarrow> area_at (as_vmas a) w \<noteq> None)"

definition space_ok :: "AddressSpace \<Rightarrow> 'a buddy_scheme \<Rightarrow> bool" where
  "space_ok a s \<longleftrightarrow> aspace_ok (as_page_table a) s \<and> vmas_ok (as_vmas a) \<and> all_nonempty (as_vmas a) \<and>
     bounds_aligned (as_vmas a) \<and> covered a s"

definition in_areas :: "VMA list \<Rightarrow> u64 \<Rightarrow> bool" where
  "in_areas vs x \<longleftrightarrow> (\<exists>v\<in>set vs. vma_contains v x)"

lemma in_areas_simps [simp]: "\<not> in_areas [] x" "in_areas (v # vs) x \<longleftrightarrow> vma_contains v x \<or> in_areas vs x"
  by (auto simp: in_areas_def)

lemma dvd_max_min: "4096 dvd unat a \<Longrightarrow> 4096 dvd unat (b :: u64) \<Longrightarrow> 4096 dvd unat (max a b)"
  by (simp add: max_def)

lemma punch_areas_ok:
  fixes s :: "'a kmem_scheme"
  assumes "aspace_ok (as_page_table a) s" and "vmas_ok (as_vmas a)" and "all_nonempty (as_vmas a)"
    and "bounds_aligned (as_vmas a)" and "distinct vs" and "\<forall>v\<in>set vs. v \<in> set (as_vmas a) \<and> meets hs he v"
    and h: "hs < he" and ha: "4096 dvd unat hs" "4096 dvd unat he" and top: "unat he \<le> 2 ^ 47"
  shows "\<exists>as' s'. punch_areas hs he vs a s = Some (Inr (), a\<lparr>as_vmas := as'\<rparr>, s') \<and>
    vmas_ok as' \<and> all_nonempty as' \<and> bounds_aligned as' \<and> aspace_ok (as_page_table a) s' \<and>
    (\<forall>x. area_at as' x = (if hs \<le> x \<and> x < he \<and> in_areas vs x then None else area_at (as_vmas a) x)) \<and>
    (\<forall>w. user_map (as_page_table a) s' w =
       (if hs \<le> w \<and> w < he \<and> in_areas vs w then None else user_map (as_page_table a) s w)) \<and>
    avail s' = avail s \<union> {frame p | w p. hs \<le> w \<and> w < he \<and> in_areas vs w \<and> user_map (as_page_table a) s w = Some p}"
  using assms(1-6)
proof (induction vs arbitrary: a s)
  case Nil
  then show ?case by (intro exI [of _ "as_vmas a"] exI [of _ s]) simp
next
  case (Cons v vs)
  let ?root = "as_page_table a"
  have v: "v \<in> set (as_vmas a)" "meets hs he v" using Cons.prems(6) by auto
  let ?lo = "max (vma_start v) hs" and ?hi = "min (vma_end v) he"
  have lo: "4096 dvd unat ?lo" using v(1) Cons.prems(4) ha(1) by (auto simp: bounds_aligned_def max_def)
  have hi: "unat ?hi \<le> 2 ^ 47" using top unfolding min_def word_le_nat_alt by auto
  obtain s1 where S: "unmap_loop ?root ?lo ?hi s = Some s1" "aspace_ok ?root s1"
    "user_map ?root s1 = (\<lambda>w. if ?lo \<le> w \<and> w < ?hi then None else user_map ?root s w)"
    "avail s1 = avail s \<union> mapped_frames ?root s ?lo ?hi" "table_frames ?root s1 \<subseteq> table_frames ?root s"
    using unmap_loop_ok [OF Cons.prems(1) lo hi] .
  have lh: "?lo \<le> w \<and> w < ?hi \<longleftrightarrow> hs \<le> w \<and> w < he \<and> vma_contains v w" for w
    by (auto simp: vma_contains_def)
  obtain vs2 vs3 where C:
    "add_rest (vma_start v < hs) (VMA_new (vma_start v) hs (vma_flags v) (vma_kind v)) (snd (remove_vma (as_vmas a) (vma_start v))) = Inr vs2"
    "add_rest (he < vma_end v) (VMA_new he (vma_end v) (vma_flags v) (vma_kind v)) vs2 = Inr vs3"
    "vmas_ok vs3" "all_nonempty vs3" "bounds_aligned vs3"
    "\<forall>x. area_at vs3 x = (if vma_contains v x \<and> hs \<le> x \<and> x < he then None else area_at (as_vmas a) x)"
    "\<forall>w\<in>set (as_vmas a). w \<noteq> v \<and> meets hs he w \<longrightarrow> w \<in> set vs3"
    using cut_area [OF Cons.prems(2-4) v h ha] .
  let ?a = "a\<lparr>as_vmas := vs3\<rparr>"
  have rest: "\<forall>w\<in>set vs. w \<in> set (as_vmas ?a) \<and> meets hs he w" "distinct vs"
    using Cons.prems(5,6) C(7) by auto
  obtain as' s' where I: "punch_areas hs he vs ?a s1 = Some (Inr (), a\<lparr>as_vmas := as'\<rparr>, s')"
    "vmas_ok as'" "all_nonempty as'" "bounds_aligned as'" "aspace_ok ?root s'"
    "\<forall>x. area_at as' x = (if hs \<le> x \<and> x < he \<and> in_areas vs x then None else area_at vs3 x)"
    "\<forall>w. user_map ?root s' w = (if hs \<le> w \<and> w < he \<and> in_areas vs w then None else user_map ?root s1 w)"
    "avail s' = avail s1 \<union> {frame p | w p. hs \<le> w \<and> w < he \<and> in_areas vs w \<and> user_map ?root s1 w = Some p}"
    using Cons.IH [of ?a s1] S(2) C(3-5) rest by force
  have "punch_areas hs he (v # vs) a s = Some (Inr (), a\<lparr>as_vmas := as'\<rparr>, s')"
    using S(1) C(1,2) I(1) by simp
  moreover have "avail s' = avail s \<union>
      {frame p | w p. hs \<le> w \<and> w < he \<and> in_areas (v # vs) w \<and> user_map ?root s w = Some p}"
  proof -
    have "mapped_frames ?root s ?lo ?hi = {frame p | w p. hs \<le> w \<and> w < he \<and> vma_contains v w \<and> user_map ?root s w = Some p}"
      unfolding mapped_frames_def using lh by blast
    moreover have "user_map ?root s1 w = Some p \<longleftrightarrow> \<not> (hs \<le> w \<and> w < he \<and> vma_contains v w) \<and> user_map ?root s w = Some p" for w p
      unfolding S(3) lh by simp
    ultimately show ?thesis unfolding I(8) S(4) in_areas_simps by blast
  qed
  moreover have "\<forall>x. area_at as' x = (if hs \<le> x \<and> x < he \<and> in_areas (v # vs) x then None else area_at (as_vmas a) x)"
    using I(6) C(6) by auto
  moreover have "\<forall>w. user_map ?root s' w = (if hs \<le> w \<and> w < he \<and> in_areas (v # vs) w then None else user_map ?root s w)"
    using I(7) unfolding S(3) lh by auto
  ultimately show ?case using I(2-5) by blast
qed

lemma area_at_in_areas: "area_at vs x \<noteq> None \<longleftrightarrow> in_areas vs x"
  by (auto simp: area_at_None in_areas_def)

lemma in_areas_meets: "hs \<le> x \<Longrightarrow> x < he \<Longrightarrow> in_areas (filter (meets hs he) vs) x \<longleftrightarrow> in_areas vs x"
  by (auto simp: in_areas_def meets_def vma_contains_def intro: le_less_trans order.strict_trans1)

lemma vmas_ok_distinct: "vmas_ok vs \<Longrightarrow> all_nonempty vs \<Longrightarrow> distinct vs"
proof (induction vs)
  case (Cons v vs)
  then have "v \<notin> set vs" by (fastforce simp: all_nonempty_def)
  then show ?case using Cons by (simp add: all_nonempty_def)
qed simp

lemma punch_hole_ok:
  fixes s :: "'a kmem_scheme"
  assumes ok: "space_ok a s" and h: "hs < he" and ha: "4096 dvd unat hs" "4096 dvd unat he" and top: "unat he \<le> 2 ^ 47"
  obtains as' s' where "punch_hole a hs he s = Some (Inr (), a\<lparr>as_vmas := as'\<rparr>, s')"
    and "space_ok (a\<lparr>as_vmas := as'\<rparr>) s'"
    and "\<forall>x. area_at as' x = (if hs \<le> x \<and> x < he then None else area_at (as_vmas a) x)"
    and "user_map (as_page_table a) s' = (\<lambda>w. if hs \<le> w \<and> w < he then None else user_map (as_page_table a) s w)"
    and "avail s' = avail s \<union> mapped_frames (as_page_table a) s hs he"
proof -
  have O: "aspace_ok (as_page_table a) s" "vmas_ok (as_vmas a)" "all_nonempty (as_vmas a)" "bounds_aligned (as_vmas a)"
    and cov: "covered a s" using ok by (auto simp: space_ok_def)
  let ?vs = "filter (meets hs he) (as_vmas a)"
  have vs: "distinct ?vs" "\<forall>v\<in>set ?vs. v \<in> set (as_vmas a) \<and> meets hs he v"
    using vmas_ok_distinct [OF O(2,3)] by auto
  obtain as' s' where P: "punch_areas hs he ?vs a s = Some (Inr (), a\<lparr>as_vmas := as'\<rparr>, s')"
    "vmas_ok as'" "all_nonempty as'" "bounds_aligned as'" "aspace_ok (as_page_table a) s'"
    "\<forall>x. area_at as' x = (if hs \<le> x \<and> x < he \<and> in_areas ?vs x then None else area_at (as_vmas a) x)"
    "\<forall>w. user_map (as_page_table a) s' w =
       (if hs \<le> w \<and> w < he \<and> in_areas ?vs w then None else user_map (as_page_table a) s w)"
    "avail s' = avail s \<union> {frame p | w p. hs \<le> w \<and> w < he \<and> in_areas ?vs w \<and> user_map (as_page_table a) s w = Some p}"
    using punch_areas_ok [OF O vs h ha top] by blast
  have c: "in_areas (as_vmas a) w" if "user_map (as_page_table a) s w = Some p" for w p
    using cov that area_at_in_areas unfolding covered_def by fastforce
  have A: "area_at as' x = (if hs \<le> x \<and> x < he then None else area_at (as_vmas a) x)" for x
    using P(6) in_areas_meets [of hs x he "as_vmas a"] area_at_in_areas [of "as_vmas a" x]
    by (cases "area_at (as_vmas a) x") auto
  have U: "user_map (as_page_table a) s' w = (if hs \<le> w \<and> w < he then None else user_map (as_page_table a) s w)" for w
    using P(7) in_areas_meets [of hs w he "as_vmas a"] c [of w] by (cases "user_map (as_page_table a) s w") auto
  show ?thesis
  proof (rule that)
    show "punch_hole a hs he s = Some (Inr (), a\<lparr>as_vmas := as'\<rparr>, s')"
      using P(1) overlapping_filter [OF O(2,3) h] by (simp add: punch_hole_def)
    show "\<forall>x. area_at as' x = (if hs \<le> x \<and> x < he then None else area_at (as_vmas a) x)" using A by blast
    show "user_map (as_page_table a) s' = (\<lambda>w. if hs \<le> w \<and> w < he then None else user_map (as_page_table a) s w)"
      by (rule ext) (rule U)
    show "avail s' = avail s \<union> mapped_frames (as_page_table a) s hs he"
      unfolding P(8) mapped_frames_def using c in_areas_meets [of hs _ he "as_vmas a"] by blast
    show "space_ok (a\<lparr>as_vmas := as'\<rparr>) s'" using P(2-5) cov by (auto simp: space_ok_def covered_def A U)
  qed
qed

text \<open>\<^verbatim>\<open>mmap_fixed\<close> replaces whatever was mapped in its range.\<close>

lemma mmap_range:
  assumes "align_up addr 4096 = Some st" and "0 < unat sz" and "unat st + page_bytes sz \<le> 2 ^ 47"
  obtains e where "checked_add st sz = Some (st + sz)" and "align_up (st + sz) 4096 = Some e"
    and "unat e = unat st + page_bytes sz" and "4096 dvd unat st" and "4096 dvd unat e" and "st < e"
    and "\<forall>x. x < e \<longleftrightarrow> unat x < unat st + page_bytes sz"
proof -
  have d: "4096 dvd unat st" by (rule align_up_page_dvd [OF assms(1)])
  then obtain k where k: "unat st = 4096 * k" by (elim dvdE)
  have le: "unat sz \<le> page_bytes sz" by simp
  have lt: "unat st + unat sz < 2 ^ LENGTH(64)" using assms(3) le by simp
  have u: "unat (st + sz) = unat st + unat sz" using unat_add_exact [OF lt] .
  then have "unat (st + sz) + 4096 < 2 ^ 64" using assms(3) le by simp
  then obtain e where e: "align_up (st + sz) 4096 = Some e"
    using align_up_page_None [of "st + sz"] by (cases "align_up (st + sz) 4096") auto
  then have ue: "unat e = 4096 * ((unat st + unat sz + 4095) div 4096)" by (simp add: align_up_page_eq_Some u)
  have "unat st + unat sz + 4095 = unat sz + 4095 + 4096 * k" using k by simp
  then have "(unat st + unat sz + 4095) div 4096 = k + (unat sz + 4095) div 4096"
    using div_mult_self2 [of "4096 :: nat" "unat sz + 4095" k] by (simp only: numeral_neq_zero)
  then have ue': "unat e = unat st + page_bytes sz" using ue k by (simp only: distrib_left)
  have "4096 dvd unat e" unfolding ue by (rule dvd_triv_left)
  moreover have "st < e" using ue' assms(2) by (simp add: word_less_nat_alt)
  moreover note ue'
  ultimately show ?thesis using that [OF checked_add_ok [OF lt] e] d by (simp add: word_less_nat_alt)
qed



section \<open>Witnesses\<close>

text \<open>A three-page heap over the empty table and the four free pages of \<^const>\<open>demo_kmem\<close>.\<close>

definition demo_space :: AddressSpace where
  "demo_space = \<lparr>as_page_table = 0x8000, as_vmas = [VMA_new 0x400000 0x403000 VMAFlags_rw Heap], as_owner_pid = 1\<rparr>"

lemma demo_kmem_leaf: "page_leaf 0x8000 v demo_kmem = None"
proof -
  have w: "in_window 0x8000" by (simp add: in_window_def)
  have "pte (ram demo_kmem) 0x8000 i = pte (\<lambda>_. 0) 0x8000 i" if "i < 512" for i
    by (rule pte_mem_eq [OF demo_kmem_run(3) w _ that]) (simp add: frame_def)
  moreover have "pte (\<lambda>_. 0) 0x8000 i = 0" for i by (simp add: read64_def load_bytes_def le_word_def numeral_eq_Suc)
  ultimately show ?thesis using vidx_less by (simp add: page_leaf_def Let_def)
qed

lemma demo_space_ok: "space_ok demo_space demo_kmem"
proof -
  have "user_map 0x8000 demo_kmem v = None" for v by (simp add: user_map_def demo_kmem_leaf)
  then have "aspace_ok 0x8000 demo_kmem"
    using demo_kmem_run(1) demo_kmem_tree by (simp add: aspace_ok_def)
  then show ?thesis
    using \<open>\<And>v. user_map 0x8000 demo_kmem v = None\<close>
    by (simp add: space_ok_def covered_def demo_space_def all_nonempty_def bounds_aligned_def VMA_new_def)
qed

lemma demo_space_simps:
  "as_page_table demo_space = 0x8000" "aspace_ok 0x8000 demo_kmem" "vmas_ok (as_vmas demo_space)"
  "user_map 0x8000 demo_kmem v = None" "as_vmas demo_space = [VMA_new 0x400000 0x403000 VMAFlags_rw Heap]"
  using demo_space_ok by (simp_all add: space_ok_def demo_space_def user_map_def demo_kmem_leaf)

lemma demo_fault: "map_option fst (handle_page_fault demo_space 0x401234 demo_kmem) = Some (Inr ())"
  by code_simp

lemma demo_owners: "length (page_owners demo_kmem) < owners_capacity demo_kmem"
  by code_simp




end
