(* ===== verification/Vfs.thy ===== *)
theory Vfs
  imports Ferrum_Base
begin

text \<open>
  The in-memory file system (\<^verbatim>\<open>src/kernel/src/fs/vfs.rs\<close>, \<^verbatim>\<open>ramfs.rs\<close> and the node type of \<^verbatim>\<open>procfs.rs\<close>).
  The nodes behind \<^verbatim>\<open>Arc\<close> handles are a store indexed by number, so that two handles of one file
  share its contents and a handle outlives the entry it was opened from. A \<^verbatim>\<open>read\<close> into a buffer of a
  given length is modelled by the bytes that it copies to the front of the buffer.
\<close>

section \<open>Nodes\<close>

datatype FileType = Regular | Directory

record Stat =
  st_type :: FileType
  st_size :: nat

record RamfsNode =
  node_type :: FileType
  node_data :: bytes

definition stat_inner :: "RamfsNode \<Rightarrow> Stat" where
  "stat_inner n = \<lparr>st_type = node_type n, st_size = length (node_data n)\<rparr>"

definition read_inner :: "RamfsNode \<Rightarrow> nat \<Rightarrow> nat \<Rightarrow> string + bytes" where
  "read_inner n offset buf_len =
     (if length (node_data n) \<le> offset then Inr []
      else let available = drop offset (node_data n);
               k = min buf_len (length available)
           in Inr (take k available))"

text \<open>\<^verbatim>\<open>Vec::resize\<close> panics above \<^verbatim>\<open>isize::MAX\<close> bytes.\<close>

definition write_inner :: "RamfsNode \<Rightarrow> nat \<Rightarrow> bytes \<Rightarrow> ((string + nat) \<times> RamfsNode) option" where
  "write_inner n offset buf = do {
     end' \<leftarrow> usize_add offset (length buf);
     data \<leftarrow> (if length (node_data n) < end' then
                 (if 2 ^ 63 \<le> int end' then None
                  else Some (node_data n @ replicate (end' - length (node_data n)) 0))
              else Some (node_data n));
     Some (Inr (length buf), n\<lparr>node_data := take offset data @ buf @ drop end' data\<rparr>)
   }"

text \<open>The nodes of the process file system hold a snapshot and are read-only.\<close>

record ProcfsNode =
  proc_data :: bytes

definition ProcfsNode_new :: "bytes \<Rightarrow> ProcfsNode" where
  "ProcfsNode_new data = \<lparr>proc_data = data\<rparr>"

definition procfs_stat :: "ProcfsNode \<Rightarrow> Stat" where
  "procfs_stat n = \<lparr>st_type = Regular, st_size = length (proc_data n)\<rparr>"

definition procfs_read :: "ProcfsNode \<Rightarrow> nat \<Rightarrow> nat \<Rightarrow> string + bytes" where
  "procfs_read n offset buf_len =
     (if length (proc_data n) \<le> offset then Inr []
      else let avail = drop offset (proc_data n);
               k = min (length avail) buf_len
           in Inr (take k avail))"

definition procfs_write :: "ProcfsNode \<Rightarrow> nat \<Rightarrow> bytes \<Rightarrow> string + nat" where
  "procfs_write n offset buf = Inl ''procfs is read-only''"

section \<open>The file system\<close>

record Entry =
  entry_path :: string
  entry_node :: nat

record Ramfs =
  fs_entries :: "Entry list"
  fs_nodes :: "RamfsNode list"

definition Ramfs_new :: Ramfs where
  "Ramfs_new = \<lparr>fs_entries = [], fs_nodes = []\<rparr>"

definition fs_push :: "string \<Rightarrow> RamfsNode \<Rightarrow> Ramfs \<Rightarrow> Ramfs" where
  "fs_push path n fs =
     fs\<lparr>fs_entries := fs_entries fs @ [\<lparr>entry_path = path, entry_node = length (fs_nodes fs)\<rparr>],
        fs_nodes := fs_nodes fs @ [n]\<rparr>"

definition rename_file :: "string \<Rightarrow> string \<Rightarrow> Ramfs \<Rightarrow> (string + unit) \<times> Ramfs" where
  "rename_file old new fs =
     (case position (\<lambda>e. entry_path e = old) (fs_entries fs) of
        None \<Rightarrow> (Inl ''not found'', fs)
      | Some i \<Rightarrow>
          (Inr (), fs\<lparr>fs_entries := (fs_entries fs)[i := (fs_entries fs ! i)\<lparr>entry_path := new\<rparr>]\<rparr>))"

datatype VfsNode = RamfsHandle nat | ProcfsFile ProcfsNode

definition open_file :: "string \<Rightarrow> Ramfs \<Rightarrow> VfsNode option" where
  "open_file path fs =
     map_option (\<lambda>e. RamfsHandle (entry_node e)) (find (\<lambda>e. entry_path e = path) (fs_entries fs))"

definition create_file :: "string \<Rightarrow> FileType \<Rightarrow> Ramfs \<Rightarrow> (string + unit) \<times> Ramfs" where
  "create_file path file_type fs =
     (if list_ex (\<lambda>e. entry_path e = path) (fs_entries fs) then (Inl ''file already exists'', fs)
      else (Inr (), fs_push path \<lparr>node_type = file_type, node_data = []\<rparr> fs))"

definition write_file :: "string \<Rightarrow> bytes \<Rightarrow> Ramfs \<Rightarrow> (string + unit) \<times> Ramfs" where
  "write_file path data fs =
     (case find (\<lambda>e. entry_path e = path) (fs_entries fs) of
        Some e \<Rightarrow>
          (Inr (), fs\<lparr>fs_nodes := (fs_nodes fs)[entry_node e := (fs_nodes fs ! entry_node e)\<lparr>node_data := data\<rparr>]\<rparr>)
      | None \<Rightarrow> (Inr (), fs_push path \<lparr>node_type = Regular, node_data = data\<rparr> fs))"

definition dir_prefix :: "string \<Rightarrow> string" where
  "dir_prefix dir = (if dir = ''/'' then ''/'' else dir @ ''/'')"

definition dir_child :: "string \<Rightarrow> Entry \<Rightarrow> string list" where
  "dir_child prefix e =
     (case strip_prefix prefix (entry_path e) of
        None \<Rightarrow> []
      | Some rest \<Rightarrow> (if rest \<noteq> [] \<and> CHR ''/'' \<notin> set rest then [rest] else []))"

definition list_dir :: "string \<Rightarrow> Ramfs \<Rightarrow> string list" where
  "list_dir dir fs = concat (map (dir_child (dir_prefix dir)) (fs_entries fs))"

definition mkdir :: "string \<Rightarrow> Ramfs \<Rightarrow> (string + unit) \<times> Ramfs" where
  "mkdir path fs =
     (if list_ex (\<lambda>e. entry_path e = path) (fs_entries fs) then (Inr (), fs)
      else (Inr (), fs_push path \<lparr>node_type = Directory, node_data = []\<rparr> fs))"

definition symlink :: "string \<Rightarrow> string \<Rightarrow> Ramfs \<Rightarrow> (string + unit) \<times> Ramfs" where
  "symlink path target fs = (Inr (), fs)"

definition unlink :: "string \<Rightarrow> Ramfs \<Rightarrow> (string + unit) \<times> Ramfs" where
  "unlink path fs =
     (case position (\<lambda>e. entry_path e = path) (fs_entries fs) of
        None \<Rightarrow> (Inl ''not found'', fs)
      | Some pos \<Rightarrow> (Inr (), fs\<lparr>fs_entries := take pos (fs_entries fs) @ drop (Suc pos) (fs_entries fs)\<rparr>))"

section \<open>Operations through a handle\<close>

text \<open>
  \<^verbatim>\<open>dyn VfsNode\<close> has the two implementations above. A handle of the store always denotes a node;
  an index outside it, which no handle has, would be \<open>None\<close>.
\<close>

definition node_at :: "nat \<Rightarrow> Ramfs \<Rightarrow> RamfsNode option" where
  "node_at i fs = (if i < length (fs_nodes fs) then Some (fs_nodes fs ! i) else None)"

fun vfs_stat :: "VfsNode \<Rightarrow> Ramfs \<Rightarrow> Stat option" where
  "vfs_stat (RamfsHandle i) fs = map_option stat_inner (node_at i fs)"
| "vfs_stat (ProcfsFile n) fs = Some (procfs_stat n)"

fun vfs_read :: "VfsNode \<Rightarrow> nat \<Rightarrow> nat \<Rightarrow> Ramfs \<Rightarrow> (string + bytes) option" where
  "vfs_read (RamfsHandle i) offset buf_len fs = map_option (\<lambda>n. read_inner n offset buf_len) (node_at i fs)"
| "vfs_read (ProcfsFile n) offset buf_len fs = Some (procfs_read n offset buf_len)"

fun vfs_write :: "VfsNode \<Rightarrow> nat \<Rightarrow> bytes \<Rightarrow> Ramfs \<Rightarrow> ((string + nat) \<times> Ramfs) option" where
  "vfs_write (RamfsHandle i) offset buf fs = do {
     n \<leftarrow> node_at i fs;
     (r, n) \<leftarrow> write_inner n offset buf;
     Some (r, fs\<lparr>fs_nodes := (fs_nodes fs)[i := n]\<rparr>)
   }"
| "vfs_write (ProcfsFile n) offset buf fs = Some (procfs_write n offset buf, fs)"

definition read_all :: "VfsNode \<Rightarrow> Ramfs \<Rightarrow> bytes option" where
  "read_all n fs = do {
     st \<leftarrow> vfs_stat n fs;
     let buf = replicate (st_size st) 0;
     r \<leftarrow> vfs_read n 0 (length buf) fs;
     Some (case r of Inl _ \<Rightarrow> buf | Inr bs \<Rightarrow> bs @ drop (length bs) buf)
   }"

end
