(* ===== verification/Fd_Table.thy ===== *)
theory Fd_Table
  imports Vfs
begin

text \<open>
  Open files, file descriptor tables and pipes (\<^verbatim>\<open>src/kernel/src/fd.rs\<close> and \<^verbatim>\<open>pipe.rs\<close>). An \<^verbatim>\<open>OpenFile\<close> and
  a \<^verbatim>\<open>PipeInner\<close> live behind an \<^verbatim>\<open>Arc\<close>, so they are elements of a store and tables hold their numbers:
  descriptors that were duplicated or inherited share the file and its offset. A pipe counts its open ends,
  and the table operations keep these counts.
\<close>

section \<open>Pipes\<close>

definition PIPE_BUF_SIZE :: nat where
  "PIPE_BUF_SIZE = 4096"

record PipeInner =
  pipe_buf :: bytes
  write_ends :: nat
  read_ends :: nat

definition PipeInner_new :: PipeInner where
  "PipeInner_new = \<lparr>pipe_buf = [], write_ends = 1, read_ends = 1\<rparr>"

section \<open>Open files\<close>

datatype FdKind = FdSerial | FdFile | FdDevNull | FdDevZero | FdDirectory | FdPipe

record OpenFile =
  of_kind :: FdKind
  of_readable :: bool
  of_writable :: bool
  of_append :: bool
  of_node :: "VfsNode option"
  of_pipe :: "nat option"
  of_offset :: nat
  of_dir_entries :: "string list option"

definition pipe_read :: "nat \<Rightarrow> OpenFile" where
  "pipe_read pipe =
     \<lparr>of_kind = FdPipe, of_readable = True, of_writable = False, of_append = False, of_node = None,
      of_pipe = Some pipe, of_offset = 0, of_dir_entries = None\<rparr>"

definition pipe_write :: "nat \<Rightarrow> OpenFile" where
  "pipe_write pipe =
     \<lparr>of_kind = FdPipe, of_readable = False, of_writable = True, of_append = False, of_node = None,
      of_pipe = Some pipe, of_offset = 0, of_dir_entries = None\<rparr>"

definition stdin_file :: OpenFile where
  "stdin_file =
     \<lparr>of_kind = FdSerial, of_readable = True, of_writable = True, of_append = False, of_node = None,
      of_pipe = None, of_offset = 0, of_dir_entries = None\<rparr>"

definition stdout_file :: OpenFile where
  "stdout_file =
     \<lparr>of_kind = FdSerial, of_readable = True, of_writable = True, of_append = False, of_node = None,
      of_pipe = None, of_offset = 0, of_dir_entries = None\<rparr>"

definition node_file :: "VfsNode \<Rightarrow> bool \<Rightarrow> bool \<Rightarrow> bool \<Rightarrow> OpenFile" where
  "node_file node readable writable append' =
     \<lparr>of_kind = FdFile, of_readable = readable, of_writable = writable, of_append = append', of_node = Some node,
      of_pipe = None, of_offset = 0, of_dir_entries = None\<rparr>"

definition device_file :: "FdKind \<Rightarrow> OpenFile" where
  "device_file kind =
     \<lparr>of_kind = kind, of_readable = True, of_writable = True, of_append = False, of_node = None,
      of_pipe = None, of_offset = 0, of_dir_entries = None\<rparr>"

definition directory_file :: "string list \<Rightarrow> OpenFile" where
  "directory_file entries =
     \<lparr>of_kind = FdDirectory, of_readable = True, of_writable = False, of_append = False, of_node = None,
      of_pipe = None, of_offset = 0, of_dir_entries = Some entries\<rparr>"

section \<open>Tables\<close>

definition FD_MAX :: nat where
  "FD_MAX = 16"

record io_store =
  open_files :: "OpenFile list"
  pipes :: "PipeInner list"

type_synonym FdTable = "nat option list"

definition new_pipe :: "io_store \<Rightarrow> (nat \<times> nat) \<times> io_store" where
  "new_pipe io =
     (let inner = length (pipes io) in ((inner, inner), io\<lparr>pipes := pipes io @ [PipeInner_new]\<rparr>))"

definition new_entry :: "OpenFile \<Rightarrow> io_store \<Rightarrow> nat \<times> io_store" where
  "new_entry file io = (length (open_files io), io\<lparr>open_files := open_files io @ [file]\<rparr>)"

definition new_stdio :: "io_store \<Rightarrow> FdTable \<times> io_store" where
  "new_stdio io =
     (let t = replicate FD_MAX None;
          (e0, io) = new_entry stdin_file io;
          (e1, io) = new_entry stdout_file io;
          (e2, io) = new_entry stdout_file io
      in (t[0 := Some e0, 1 := Some e1, 2 := Some e2], io))"

definition fd_get :: "FdTable \<Rightarrow> nat \<Rightarrow> nat option" where
  "fd_get t fd = (if fd < length t then t ! fd else None)"

definition free_slot :: "nat \<Rightarrow> FdTable \<Rightarrow> nat option" where
  "free_slot minfd t = map_option (\<lambda>i. minfd + i) (position (\<lambda>s. s = None) (drop minfd t))"

definition fd_alloc :: "FdTable \<Rightarrow> OpenFile \<Rightarrow> io_store \<Rightarrow> nat option \<times> FdTable \<times> io_store" where
  "fd_alloc t file io =
     (case free_slot 0 t of
        None \<Rightarrow> (None, t, io)
      | Some i \<Rightarrow> let (e, io) = new_entry file io in (Some i, t[i := Some e], io))"

text \<open>The counts of the ends that an open file holds, when it is a pipe.\<close>

definition drop_ends :: "OpenFile \<Rightarrow> io_store \<Rightarrow> io_store" where
  "drop_ends desc io =
     (case of_pipe desc of
        None \<Rightarrow> io
      | Some p \<Rightarrow>
          let inner = pipes io ! p;
              inner = (if of_writable desc then inner\<lparr>write_ends := write_ends inner - 1\<rparr> else inner);
              inner = (if of_readable desc then inner\<lparr>read_ends := read_ends inner - 1\<rparr> else inner)
          in io\<lparr>pipes := (pipes io)[p := inner]\<rparr>)"

definition take_ends :: "OpenFile \<Rightarrow> io_store \<Rightarrow> io_store option" where
  "take_ends desc io =
     (case of_pipe desc of
        None \<Rightarrow> Some io
      | Some p \<Rightarrow> do {
          let inner = pipes io ! p;
          inner \<leftarrow> (if of_writable desc
                     then map_option (\<lambda>n. inner\<lparr>write_ends := n\<rparr>) (usize_add (write_ends inner) 1)
                     else Some inner);
          inner \<leftarrow> (if of_readable desc
                     then map_option (\<lambda>n. inner\<lparr>read_ends := n\<rparr>) (usize_add (read_ends inner) 1)
                     else Some inner);
          Some (io\<lparr>pipes := (pipes io)[p := inner]\<rparr>)
        })"

definition fd_close :: "FdTable \<Rightarrow> nat \<Rightarrow> io_store \<Rightarrow> bool \<times> FdTable \<times> io_store" where
  "fd_close t fd io =
     (case fd_get t fd of
        Some e \<Rightarrow> (True, t[fd := None], drop_ends (open_files io ! e) io)
      | None \<Rightarrow> (False, t, io))"

definition fork_clone :: "FdTable \<Rightarrow> io_store \<Rightarrow> (FdTable \<times> io_store) option" where
  "fork_clone t io = do {
     io \<leftarrow> for_each (\<lambda>slot io. case slot of None \<Rightarrow> Some io | Some e \<Rightarrow> take_ends (open_files io ! e) io) t io;
     Some (t, io)
   }"

definition alloc_entry :: "FdTable \<Rightarrow> nat \<Rightarrow> io_store \<Rightarrow> (nat option \<times> FdTable \<times> io_store) option" where
  "alloc_entry t e io =
     (case free_slot 0 t of
        None \<Rightarrow> Some (None, t, io)
      | Some i \<Rightarrow> do { io \<leftarrow> take_ends (open_files io ! e) io; Some (Some i, t[i := Some e], io) })"

definition alloc_from :: "FdTable \<Rightarrow> nat \<Rightarrow> nat \<Rightarrow> nat option \<times> FdTable" where
  "alloc_from t e minfd =
     (case free_slot minfd t of
        None \<Rightarrow> (None, t)
      | Some i \<Rightarrow> (Some i, t[i := Some e]))"

definition fd_put :: "FdTable \<Rightarrow> nat \<Rightarrow> nat \<Rightarrow> io_store \<Rightarrow> (FdTable \<times> io_store) option" where
  "fd_put t fd e io =
     (if fd < FD_MAX then do { io \<leftarrow> take_ends (open_files io ! e) io; Some (t[fd := Some e], io) }
      else Some (t, io))"

end
