(* ===== verification/Processes.thy ===== *)
theory Processes
  imports Address_Space Fd_Table
begin

text \<open>
  Processes and the scheduler (\<^verbatim>\<open>src/kernel/src/process.rs\<close>), and the state of the whole kernel: memory and
  its allocator, the file system, open files and pipes, the process table, and the registers of the processor that
  the code sets. Saving and loading the general registers in \<^verbatim>\<open>do_switch\<close> is the processor's side of a context
  switch; the model records to which context the switch goes.
\<close>

section \<open>Process data\<close>

record Context =
  ctx_rbx :: u64
  ctx_rbp :: u64
  ctx_r12 :: u64
  ctx_r13 :: u64
  ctx_r14 :: u64
  ctx_r15 :: u64
  ctx_rsp :: u64

definition Context_zero :: Context where
  "Context_zero =
     \<lparr>ctx_rbx = 0, ctx_rbp = 0, ctx_r12 = 0, ctx_r13 = 0, ctx_r14 = 0, ctx_r15 = 0, ctx_rsp = 0\<rparr>"

datatype ProcessState = Ready | Running | Waiting | Blocked | Dead

record Process =
  p_pid :: Pid
  p_parent_pid :: Pid
  p_state :: ProcessState
  p_exit_code :: u32
  p_context :: Context
  p_kernel_stack_alloc :: "(u64 \<times> nat) option"
  p_kernel_stack_top :: u64
  p_space :: AddressSpace
  p_fds :: FdTable
  p_fs_base :: u64
  p_brk_start :: u64
  p_brk_current :: u64
  p_cwd :: string

section \<open>The process table\<close>

record Scheduler =
  processes :: "Process option list"
  current_idx :: nat
  initialized :: bool
  idle_context :: Context

definition Scheduler_new :: Scheduler where
  "Scheduler_new = \<lparr>processes = [], current_idx = 0, initialized = False, idle_context = Context_zero\<rparr>"

definition add_process :: "Process \<Rightarrow> Scheduler \<Rightarrow> unit option \<times> Scheduler" where
  "add_process p sched =
     (case position (\<lambda>slot. slot = None) (processes sched) of
        Some i \<Rightarrow> (Some (), sched\<lparr>processes := (processes sched)[i := Some p]\<rparr>)
      | None \<Rightarrow> (Some (), sched\<lparr>processes := processes sched @ [Some p]\<rparr>))"

definition is_state :: "ProcessState \<Rightarrow> Process option \<Rightarrow> bool" where
  "is_state st slot = (case slot of None \<Rightarrow> False | Some p \<Rightarrow> p_state p = st)"

text \<open>\<^verbatim>\<open>next_process\<close> gives the index of the process; a remainder by 0 panics.\<close>

definition next_process :: "Scheduler \<Rightarrow> (nat option \<times> Scheduler) option" where
  "next_process sched = do {
     let len = length (processes sched);
     start \<leftarrow> (if initialized sched then (if len = 0 then None else Some ((current_idx sched + 1) mod len)) else Some 0);
     let idx = find (\<lambda>i. is_state Ready (processes sched ! i)) (map (\<lambda>i. (start + i) mod len) [0..<len]);
     Some (case idx of
        Some idx \<Rightarrow> (Some idx, sched\<lparr>current_idx := idx, initialized := True\<rparr>)
      | None \<Rightarrow> (None, sched))
   }"

definition current_mut :: "Scheduler \<Rightarrow> Process option option" where
  "current_mut sched =
     (if \<not> initialized sched then Some None
      else if current_idx sched < length (processes sched) then Some (processes sched ! current_idx sched)
      else None)"

definition current :: "Scheduler \<Rightarrow> Process option" where
  "current sched =
     (if current_idx sched < length (processes sched) then processes sched ! current_idx sched else None)"

definition alloc_pid :: "Scheduler \<Rightarrow> Pid option" where
  "alloc_pid sched =
     checked_add (fold max (map p_pid (List.map_filter id (processes sched))) 0) 1"

text \<open>Writing through the reference that \<^verbatim>\<open>current_mut\<close> and \<^verbatim>\<open>processes[i]\<close> return.\<close>

definition set_process :: "nat \<Rightarrow> Process option \<Rightarrow> Scheduler \<Rightarrow> Scheduler" where
  "set_process i p sched = sched\<lparr>processes := (processes sched)[i := p]\<rparr>"

section \<open>The kernel\<close>

record kernel = kmem +
  k_rootfs :: Ramfs
  k_io :: io_store
  k_sched :: Scheduler
  k_space :: "AddressSpace option"
  k_preempt :: bool
  k_ticks :: u64
  k_kernel_rsp :: u64
  k_cr3 :: u64
  k_fs_base :: u64
  k_serial_out :: bytes
  k_serial_in :: bytes
  k_tsc :: "u64 list"
  k_image_base :: u64
  k_image_size :: u64
  k_trampoline :: u64
  k_write_protect :: bool

abbreviation upd_sched :: "(Scheduler \<Rightarrow> Scheduler) \<Rightarrow> 'a kernel_scheme \<Rightarrow> 'a kernel_scheme" where
  "upd_sched f k \<equiv> k\<lparr>k_sched := f (k_sched k)\<rparr>"

definition set_current :: "Process \<Rightarrow> 'a kernel_scheme \<Rightarrow> 'a kernel_scheme" where
  "set_current p k = upd_sched (set_process (current_idx (k_sched k)) (Some p)) k"

section \<open>Switching\<close>

datatype switch = NoSwitch | ToProcess nat | ToIdle

definition requeue_current :: "Scheduler \<Rightarrow> Scheduler" where
  "requeue_current sched =
     (if initialized sched then
        (case current sched of
           Some p \<Rightarrow>
             (if p_state p = Running then set_process (current_idx sched) (Some (p\<lparr>p_state := Ready\<rparr>)) sched else sched)
         | None \<Rightarrow> sched)
      else sched)"

definition schedule :: "'a kernel_scheme \<Rightarrow> (switch \<times> 'a kernel_scheme) option" where
  "schedule k =
     (let has_ready = list_ex (is_state Ready) (processes (k_sched k));
          k = upd_sched requeue_current k;
          is_current_dead = (initialized (k_sched k) \<and> is_state Dead (current (k_sched k)))
      in if \<not> has_ready then
           (if is_current_dead then do {
              space \<leftarrow> k_space k;
              Some (ToIdle, k\<lparr>k_preempt := False, k_cr3 := as_page_table space\<rparr>)
            }
            else Some (NoSwitch, k))
         else do {
           (idx, sched) \<leftarrow> next_process (k_sched k);
           (case idx of
              None \<Rightarrow> Some (NoSwitch, k)
            | Some i \<Rightarrow> do {
                p \<leftarrow> processes sched ! i;
                Some (ToProcess i,
                      k\<lparr>k_sched := set_process i (Some (p\<lparr>p_state := Running\<rparr>)) sched,
                        k_kernel_rsp := p_kernel_stack_top p,
                        k_cr3 := as_page_table (p_space p)\<rparr>)
              })
         })"

text \<open>What the code after the switch does when the process runs again.\<close>

definition resume :: "'a kernel_scheme \<Rightarrow> 'a kernel_scheme option" where
  "resume k = do {
     p \<leftarrow> current_mut (k_sched k);
     Some (k\<lparr>k_fs_base := (case p of None \<Rightarrow> 0 | Some p \<Rightarrow> p_fs_base p)\<rparr>)
   }"

definition preempt_yield :: "'a kernel_scheme \<Rightarrow> (switch \<times> 'a kernel_scheme) option" where
  "preempt_yield k = (if k_preempt k then schedule k else Some (NoSwitch, k))"

definition timer_inner :: "'a kernel_scheme \<Rightarrow> 'a kernel_scheme" where
  "timer_inner k = k\<lparr>k_ticks := k_ticks k + 1\<rparr>"

end
