(* ===== verification/Scheduler_Spec.thy ===== *)
theory Scheduler_Spec
  imports Processes
begin

text \<open>
  What the scheduler promises: at most one running process, a round-robin choice among the ready ones,
  no starvation, and distinct process numbers.
\<close>

section \<open>Choosing a process\<close>

text \<open>At most one process is running, and it is the current one.\<close>

definition sched_inv :: "Scheduler \<Rightarrow> bool" where
  "sched_inv sched \<longleftrightarrow> (initialized sched \<longrightarrow> current_idx sched < length (processes sched)) \<and>
     (\<forall>i<length (processes sched). is_state Running (processes sched ! i) \<longrightarrow> initialized sched \<and> i = current_idx sched)"

definition scan_start :: "Scheduler \<Rightarrow> nat" where
  "scan_start sched = (if initialized sched then (current_idx sched + 1) mod length (processes sched) else 0)"

lemma is_state_simps [simp]: "\<not> is_state st None" "is_state st (Some p) \<longleftrightarrow> p_state p = st"
  by (simp_all add: is_state_def)

lemma set_process_simps [simp]:
  "processes (set_process i p s) = (processes s)[i := p]" "current_idx (set_process i p s) = current_idx s"
  "initialized (set_process i p s) = initialized s" "idle_context (set_process i p s) = idle_context s"
  by (simp_all add: set_process_def)

text \<open>The scan visits every slot once, in cyclic order, and stops at the first ready one.\<close>

lemma find_map_upt:
  "find P (map f [0..<n]) = Some x \<longleftrightarrow> (\<exists>i<n. f i = x \<and> P x \<and> (\<forall>j<i. \<not> P (f j)))"
  by (auto simp: find_Some_iff)

lemma next_process_Some:
  assumes "next_process sched = Some (Some idx, sched')"
  shows "\<exists>i<length (processes sched). idx = (scan_start sched + i) mod length (processes sched) \<and>
      is_state Ready (processes sched ! idx) \<and>
      (\<forall>j<i. \<not> is_state Ready (processes sched ! ((scan_start sched + j) mod length (processes sched)))) \<and>
      sched' = sched\<lparr>current_idx := idx, initialized := True\<rparr>"
proof -
  let ?n = "length (processes sched)"
  obtain x where "find (\<lambda>i. is_state Ready (processes sched ! i)) (map (\<lambda>i. (scan_start sched + i) mod ?n) [0..<?n]) = Some x"
    "x = idx" "sched' = sched\<lparr>current_idx := idx, initialized := True\<rparr>"
    using assms by (auto simp: next_process_def scan_start_def Let_def bind_eq_Some_conv split: option.splits if_splits)
  then show ?thesis unfolding find_map_upt by auto
qed

lemma cyclic_onto:
  fixes n :: nat
  assumes "j < n" and "s < n"
  shows "\<exists>e<n. (s + e) mod n = j"
proof (cases "s \<le> j")
  case True
  then show ?thesis using assms by (intro exI [of _ "j - s"]) auto
next
  case False
  then have "s + (n + j - s) = j + n" using assms by simp
  then show ?thesis using assms False by (intro exI [of _ "n + j - s"]) auto
qed

lemma next_process_returns:
  assumes "i < length (processes sched)" and "is_state Ready (processes sched ! i)"
  shows "\<exists>idx sched'. next_process sched = Some (Some idx, sched')"
proof -
  let ?n = "length (processes sched)"
  have "scan_start sched < ?n" using assms(1) by (auto simp: scan_start_def intro!: mod_less_divisor)
  then obtain e where "e < ?n" "(scan_start sched + e) mod ?n = i" using cyclic_onto [OF assms(1)] by blast
  then have "find (\<lambda>i. is_state Ready (processes sched ! i)) (map (\<lambda>i. (scan_start sched + i) mod ?n) [0..<?n]) \<noteq> None"
    using assms(2) by (auto simp: find_None_iff image_iff intro!: exI [of _ i] bexI [of _ e])
  then show ?thesis using assms(1) by (auto simp: next_process_def scan_start_def Let_def split: option.splits if_splits)
qed

section \<open>Switching\<close>

lemma requeue_simps [simp]:
  "length (processes (requeue_current s)) = length (processes s)" "current_idx (requeue_current s) = current_idx s"
  "initialized (requeue_current s) = initialized s" "scan_start (requeue_current s) = scan_start s"
  by (auto simp: requeue_current_def scan_start_def split: option.splits)

lemma requeue_nth:
  assumes "sched_inv s" and "i < length (processes s)"
  shows "processes (requeue_current s) ! i =
    (if is_state Running (processes s ! i) then map_option (\<lambda>p. p\<lparr>p_state := Ready\<rparr>) (processes s ! i) else processes s ! i)"
proof (cases "initialized s")
  case False
  then have "\<not> is_state Running (processes s ! i)" using assms by (auto simp: sched_inv_def)
  then show ?thesis using False by (simp add: requeue_current_def)
next
  case True
  then have c: "current_idx s < length (processes s)" using assms by (simp add: sched_inv_def)
  have run: "is_state Running (processes s ! i) \<longrightarrow> i = current_idx s" using assms by (auto simp: sched_inv_def)
  show ?thesis
  proof (cases "processes s ! current_idx s")
    case None
    then show ?thesis using True c run by (auto simp: requeue_current_def current_def)
  next
    case (Some p)
    then show ?thesis using True c run assms(2) by (auto simp: requeue_current_def current_def nth_list_update)
  qed
qed

lemma requeue_ready:
  assumes "sched_inv s" and "i < length (processes s)" and "is_state Ready (processes s ! i)"
  shows "is_state Ready (processes (requeue_current s) ! i)"
  using requeue_nth [OF assms(1,2)] assms(3) by (cases "processes s ! i") auto

lemma requeue_not_running:
  assumes "sched_inv s" and "i < length (processes s)"
  shows "\<not> is_state Running (processes (requeue_current s) ! i)"
  using requeue_nth [OF assms] by (cases "processes s ! i") auto

text \<open>One call, when some process is ready.\<close>

lemma schedule_ready:
  fixes k :: "'a kernel_scheme"
  assumes inv: "sched_inv (k_sched k)" and j: "j < length (processes (k_sched k))" "is_state Ready (processes (k_sched k) ! j)"
  defines "n \<equiv> length (processes (k_sched k))" and "rq \<equiv> requeue_current (k_sched k)"
  obtains i p where "i < n" and "processes rq ! ((scan_start (k_sched k) + i) mod n) = Some p" and "p_state p = Ready"
    and "\<forall>l<i. \<not> is_state Ready (processes rq ! ((scan_start (k_sched k) + l) mod n))"
    and "schedule k = Some (ToProcess ((scan_start (k_sched k) + i) mod n),
      k\<lparr>k_sched := set_process ((scan_start (k_sched k) + i) mod n) (Some (p\<lparr>p_state := Running\<rparr>))
           (rq\<lparr>current_idx := (scan_start (k_sched k) + i) mod n, initialized := True\<rparr>),
        k_kernel_rsp := p_kernel_stack_top p, k_cr3 := as_page_table (p_space p)\<rparr>)"
proof -
  have rj: "is_state Ready (processes rq ! j)" unfolding rq_def by (rule requeue_ready [OF inv j])
  have jn: "j < length (processes rq)" using j(1) by (simp add: rq_def)
  obtain idx sched' where np: "next_process rq = Some (Some idx, sched')" using next_process_returns [OF jn rj] by blast
  from next_process_Some [OF np] obtain i where i: "i < n" "idx = (scan_start (k_sched k) + i) mod n"
    "is_state Ready (processes rq ! idx)" "\<forall>l<i. \<not> is_state Ready (processes rq ! ((scan_start (k_sched k) + l) mod n))"
    "sched' = rq\<lparr>current_idx := idx, initialized := True\<rparr>"
    by (auto simp: rq_def n_def)
  obtain p where p: "processes rq ! idx = Some p" "p_state p = Ready" using i(3) by (cases "processes rq ! idx") auto
  have ready: "list_ex (is_state Ready) (processes (k_sched k))" using j by (auto simp: list_ex_iff intro: bexI [OF _ nth_mem])
  have "schedule k = Some (ToProcess idx, k\<lparr>k_sched := set_process idx (Some (p\<lparr>p_state := Running\<rparr>)) sched',
        k_kernel_rsp := p_kernel_stack_top p, k_cr3 := as_page_table (p_space p)\<rparr>)"
    using ready np p(1) i(5) by (simp add: schedule_def Let_def rq_def)
  then show ?thesis using that [of i p] i p by simp
qed


section \<open>Fairness\<close>

primrec run_schedules :: "nat \<Rightarrow> 'a kernel_scheme \<Rightarrow> 'a kernel_scheme option" where
  "run_schedules 0 k = Some k"
| "run_schedules (Suc n) k = do { (sw, k) \<leftarrow> schedule k; run_schedules n k }"

lemma schedule_progress:
  fixes k :: "'a kernel_scheme"
  assumes inv: "sched_inv (k_sched k)" and e: "e < length (processes (k_sched k))"
    and j: "j = (scan_start (k_sched k) + e) mod length (processes (k_sched k))" "is_state Ready (processes (k_sched k) ! j)"
  shows "\<exists>m k'. m \<le> e \<and> run_schedules (Suc m) k = Some k' \<and> current_idx (k_sched k') = j \<and>
    is_state Running (processes (k_sched k') ! j)"
  using assms
proof (induction e arbitrary: k rule: less_induct)
  case (less e)
  let ?s = "k_sched k" and ?n = "length (processes (k_sched k))" and ?rq = "requeue_current (k_sched k)"
  have jn: "j < ?n" using less.prems(2,3) by (auto intro!: mod_less_divisor)
  obtain i p where S: "i < ?n" "processes ?rq ! ((scan_start ?s + i) mod ?n) = Some p" "p_state p = Ready"
    "\<forall>l<i. \<not> is_state Ready (processes ?rq ! ((scan_start ?s + l) mod ?n))"
    "schedule k = Some (ToProcess ((scan_start ?s + i) mod ?n),
      k\<lparr>k_sched := set_process ((scan_start ?s + i) mod ?n) (Some (p\<lparr>p_state := Running\<rparr>))
           (?rq\<lparr>current_idx := (scan_start ?s + i) mod ?n, initialized := True\<rparr>),
        k_kernel_rsp := p_kernel_stack_top p, k_cr3 := as_page_table (p_space p)\<rparr>)"
    using schedule_ready [OF less.prems(1) jn less.prems(4)] .
  let ?i = "(scan_start ?s + i) mod ?n"
  let ?s' = "set_process ?i (Some (p\<lparr>p_state := Running\<rparr>)) (?rq\<lparr>current_idx := ?i, initialized := True\<rparr>)"
  have il: "?i < ?n" using S(1) by (auto intro!: mod_less_divisor)
  have rj: "is_state Ready (processes ?rq ! j)" by (rule requeue_ready [OF less.prems(1) jn less.prems(4)])
  have ie: "i \<le> e"
  proof (rule ccontr)
    assume "\<not> i \<le> e"
    then have "\<not> is_state Ready (processes ?rq ! j)" using S(4) less.prems(3) by simp
    then show False using rj by simp
  qed
  show ?case
  proof (cases "i = e")
    case True
    then have "?i = j" using less.prems(3) by simp
    then show ?thesis using S(5) il by (intro exI [of _ 0]) simp
  next
    case False
    then have lt: "i < e" using ie by simp
    have ni: "?i \<noteq> j"
    proof
      assume eq: "?i = j"
      have "(scan_start ?s + i) mod ?n = (scan_start ?s + e) mod ?n" using eq less.prems(3) by simp
      then have "?n dvd e - i" using lt by (metis add_diff_cancel_left mod_eq_dvd_iff_nat add_le_cancel_left less_imp_le)
      then show False using lt less.prems(2) by (auto dest: dvd_imp_le)
    qed
    have inv': "sched_inv ?s'" using il requeue_not_running [OF less.prems(1)] by (auto simp: sched_inv_def nth_list_update)
    have st: "scan_start ?s' = (?i + 1) mod ?n" by (simp add: scan_start_def)
    have "(scan_start ?s' + (e - i - 1)) mod ?n = (?i + 1 + (e - i - 1)) mod ?n" unfolding st by (rule mod_add_left_eq)
    also have "\<dots> = (?i + (1 + (e - i - 1))) mod ?n" by (simp only: add.assoc)
    also have "\<dots> = (scan_start ?s + i + (1 + (e - i - 1))) mod ?n" by (rule mod_add_left_eq)
    also have "scan_start ?s + i + (1 + (e - i - 1)) = scan_start ?s + e" using lt by simp
    finally have j': "j = (scan_start ?s' + (e - i - 1)) mod length (processes ?s')" using less.prems(3) by simp
    let ?k' = "k\<lparr>k_sched := ?s', k_kernel_rsp := p_kernel_stack_top p, k_cr3 := as_page_table (p_space p)\<rparr>"
    have "\<exists>m k'. m \<le> e - i - 1 \<and> run_schedules (Suc m) ?k' = Some k' \<and> current_idx (k_sched k') = j \<and>
      is_state Running (processes (k_sched k') ! j)"
      by (rule less.IH) (use lt less.prems(2) inv' j' rj ni in \<open>simp_all\<close>)
    then obtain m k' where m: "m \<le> e - i - 1" "run_schedules (Suc m) ?k' = Some k'" "current_idx (k_sched k') = j"
      "is_state Running (processes (k_sched k') ! j)" by blast
    have "run_schedules (Suc (Suc m)) k = Some k'" using S(5) m(2) by simp
    then show ?thesis using m(1,3,4) lt by (intro exI [of _ "Suc m"] exI [of _ k']) simp
  qed
qed

text \<open>
  C38. No process starves: a process that is ready becomes the running one after at most as many
  calls of \<^verbatim>\<open>schedule\<close> as there are slots in the process table, whatever the states of the others.
\<close>

theorem schedule_fair:
  fixes k :: "'a kernel_scheme"
  assumes inv: "sched_inv (k_sched k)" and j: "j < length (processes (k_sched k))" "is_state Ready (processes (k_sched k) ! j)"
  shows "\<exists>m k'. m \<le> length (processes (k_sched k)) \<and> run_schedules m k = Some k' \<and> current_idx (k_sched k') = j \<and>
    is_state Running (processes (k_sched k') ! j)"
proof -
  let ?n = "length (processes (k_sched k))"
  have "scan_start (k_sched k) < ?n" using j(1) by (auto simp: scan_start_def intro!: mod_less_divisor)
  then obtain e where e: "e < ?n" "(scan_start (k_sched k) + e) mod ?n = j" using cyclic_onto [OF j(1)] by blast
  from schedule_progress [OF inv e(1) e(2) [symmetric] j(2)] obtain m k' where "m \<le> e" "run_schedules (Suc m) k = Some k'"
    "current_idx (k_sched k') = j" "is_state Running (processes (k_sched k') ! j)" by blast
  then show ?thesis using e(1) by (intro exI [of _ "Suc m"] exI [of _ k']) simp
qed

section \<open>New processes\<close>

definition pids :: "Scheduler \<Rightarrow> Pid list" where
  "pids sched = map p_pid (List.map_filter id (processes sched))"

lemma fold_max_ge: "x \<in> insert a (set xs) \<Longrightarrow> x \<le> fold max xs (a :: 'b :: linorder)"
proof (induction xs arbitrary: a x)
  case (Cons y xs)
  show ?case
  proof (cases "x = a \<or> x = y")
    case True
    then have "x \<le> max y a" by auto
    also have "\<dots> \<le> fold max xs (max y a)" by (rule Cons.IH) simp
    finally show ?thesis by simp
  next
    case False
    then show ?thesis using Cons by simp
  qed
qed simp

lemma map_filter_append: "List.map_filter f (xs @ ys) = List.map_filter f xs @ List.map_filter f ys"
  by (simp add: List.map_filter_def)

lemma pids_split: "processes s = xs @ slot # ys \<Longrightarrow>
  pids s = map p_pid (List.map_filter id xs) @ (case slot of None \<Rightarrow> [] | Some p \<Rightarrow> [p_pid p]) @ map p_pid (List.map_filter id ys)"
  by (simp add: pids_def map_filter_append List.map_filter_def split: option.split)

text \<open>
  A new process gets a process number above those of all processes in the table, so never 0 and never
  one in use, takes the first free slot or a new one, and disturbs no other process: the numbers stay distinct.
\<close>

theorem new_process_pid:
  assumes d: "distinct (pids sched)" and a: "alloc_pid sched = Some pid" and p: "p_pid p = pid"
    and add: "add_process p sched = (r, sched')"
  shows "r = Some () \<and> (\<forall>q\<in>set (pids sched). q < pid) \<and> pid \<noteq> 0 \<and> distinct (pids sched') \<and>
    Some p \<in> set (processes sched') \<and>
    (\<forall>i q. i < length (processes sched) \<and> processes sched ! i = Some q \<longrightarrow>
       i < length (processes sched') \<and> processes sched' ! i = Some q)"
proof -
  let ?m = "fold max (pids sched) 0"
  have "checked_add ?m 1 = Some pid" using a by (simp add: alloc_pid_def pids_def)
  then have u: "unat pid = unat ?m + 1" by (auto dest: checked_add_unat)
  have gt: "q < pid" if "q \<in> set (pids sched)" for q
  proof -
    have "q \<le> ?m" using fold_max_ge [of q 0 "pids sched"] that by simp
    then show ?thesis using u by (simp add: word_le_nat_alt word_less_nat_alt)
  qed
  have nz: "pid \<noteq> 0" using u by auto
  have new: "pid \<notin> set (pids sched)" using gt by blast
  show ?thesis
  proof (cases "position (\<lambda>slot. slot = None) (processes sched)")
    case (Some i)
    then have i: "i < length (processes sched)" "processes sched ! i = None" by (auto simp: position_Some)
    let ?xs = "take i (processes sched)" and ?ys = "drop (Suc i) (processes sched)"
    have old: "processes sched = ?xs @ None # ?ys" using id_take_nth_drop [OF i(1)] i(2) by simp
    have s': "r = Some ()" "sched' = sched\<lparr>processes := (processes sched)[i := Some p]\<rparr>" using add Some by (auto simp: add_process_def)
    have "processes sched' = ?xs @ Some p # ?ys" using i(1) s'(2) by (simp add: upd_conv_take_nth_drop)
    then have "pids sched' = map p_pid (List.map_filter id ?xs) @ [pid] @ map p_pid (List.map_filter id ?ys)"
      using pids_split p by simp
    moreover have "pids sched = map p_pid (List.map_filter id ?xs) @ map p_pid (List.map_filter id ?ys)"
      using pids_split [OF old] by simp
    ultimately have "distinct (pids sched')" using d new by auto
    moreover have "Some p \<in> set (processes sched')" using s'(2) i(1) by (simp add: set_update_memI)
    ultimately show ?thesis using s' gt nz i by (auto simp: nth_list_update)
  next
    case None
    then have s': "r = Some ()" "sched' = sched\<lparr>processes := processes sched @ [Some p]\<rparr>" using add by (auto simp: add_process_def)
    then have "pids sched' = pids sched @ [pid]" using p by (simp add: pids_def map_filter_append List.map_filter_def)
    then show ?thesis using s' gt nz new d by (auto simp: nth_append)
  qed
qed

section \<open>Witnesses\<close>

definition demo_process :: "Pid \<Rightarrow> Pid \<Rightarrow> ProcessState \<Rightarrow> Process" where
  "demo_process pid parent st =
     \<lparr>p_pid = pid, p_parent_pid = parent, p_state = st, p_exit_code = 0, p_context = Context_zero,
      p_kernel_stack_alloc = None, p_kernel_stack_top = 0xffff800000010000, p_space = AddressSpace_new 0x8000 pid,
      p_fds = replicate FD_MAX None, p_fs_base = 0, p_brk_start = 0, p_brk_current = 0, p_cwd = ''/''\<rparr>"

definition demo_kernel :: "kmem \<Rightarrow> Process option list \<Rightarrow> nat \<Rightarrow> kernel" where
  "demo_kernel m ps i =
     \<lparr>ram = ram m, free_heads = free_heads m, free_counts = free_counts m, early_pt_idx = early_pt_idx m,
      page_owners = page_owners m, owners_capacity = owners_capacity m, k_rootfs = Ramfs_new,
      k_io = \<lparr>open_files = [], pipes = []\<rparr>,
      k_sched = \<lparr>processes = ps, current_idx = i, initialized = True, idle_context = Context_zero\<rparr>,
      k_space = Some (AddressSpace_new 0x7000 0), k_preempt = True, k_ticks = 0, k_kernel_rsp = 0, k_cr3 = 0x8000,
      k_fs_base = 0, k_serial_out = [], k_serial_in = [], k_tsc = [], k_image_base = 0, k_image_size = 0,
      k_trampoline = 0, k_write_protect = True\<rparr>"

definition demo_mem :: kmem where
  "demo_mem = \<lparr>ram = (\<lambda>_. 0), free_heads = [], free_counts = [], early_pt_idx = 0, page_owners = [], owners_capacity = 0\<rparr>"

definition demo_procs :: "Process option list" where
  "demo_procs = [Some (demo_process 1 0 Running), None, Some (demo_process 2 1 Waiting), Some (demo_process 3 1 Ready)]"

lemma demo_sched_inv: "sched_inv (k_sched (demo_kernel demo_mem demo_procs 0))"
  by (auto simp: sched_inv_def demo_kernel_def demo_procs_def demo_process_def less_Suc_eq numeral_eq_Suc)


theorem schedule_fair_witness:
  "\<exists>m k'. m \<le> 4 \<and> run_schedules m (demo_kernel demo_mem demo_procs 0) = Some k' \<and> current_idx (k_sched k') = 3"
proof -
  have l: "3 < length (processes (k_sched (demo_kernel demo_mem demo_procs 0)))"
    "is_state Ready (processes (k_sched (demo_kernel demo_mem demo_procs 0)) ! 3)" by code_simp+
  have "length (processes (k_sched (demo_kernel demo_mem demo_procs 0))) = 4" by code_simp
  then show ?thesis using schedule_fair [OF demo_sched_inv l] by auto
qed

theorem new_process_pid_witness:
  "fst (add_process (demo_process 4 1 Ready) (k_sched (demo_kernel demo_mem demo_procs 0))) = Some () \<and>
   distinct (pids (snd (add_process (demo_process 4 1 Ready) (k_sched (demo_kernel demo_mem demo_procs 0)))))"
proof -
  let ?s = "k_sched (demo_kernel demo_mem demo_procs 0)"
  have "distinct (pids ?s)" "alloc_pid ?s = Some 4" "p_pid (demo_process 4 1 Ready) = 4" by code_simp+
  from new_process_pid [OF this, of "fst (add_process (demo_process 4 1 Ready) ?s)" "snd (add_process (demo_process 4 1 Ready) ?s)"]
  show ?thesis by simp
qed

end
