(* ===== verification/Elf.thy ===== *)
theory Elf
  imports Address_Space
begin

text \<open>
  The loader for statically linked ELF64 programs (\<^verbatim>\<open>src/kernel/src/elf.rs\<close> and \<^verbatim>\<open>AddressSpace::load_elf\<close> of \<^verbatim>\<open>vma.rs\<close>):
  the checks on the header, and the mapping and filling of the pages of every loadable segment. A header is read
  through a pointer into the file; a read that would leave the file has no result here.
\<close>

section \<open>Headers\<close>

definition ELFMAG :: bytes where "ELFMAG = [0x7F, 0x45, 0x4C, 0x46]"
definition ELFCLASS64 :: u8 where "ELFCLASS64 = 2"
definition ELFDATA2LSB :: u8 where "ELFDATA2LSB = 1"
definition ET_EXEC :: u16 where "ET_EXEC = 2"
definition EM_X86_64 :: u16 where "EM_X86_64 = 62"
definition PT_LOAD :: u32 where "PT_LOAD = 1"
definition PF_X :: u32 where "PF_X = 1"
definition PF_W :: u32 where "PF_W = 2"
definition PF_R :: u32 where "PF_R = 4"

record Elf64Ehdr =
  e_ident :: bytes
  e_type :: u16
  e_machine :: u16
  e_version :: u32
  e_entry :: u64
  e_phoff :: u64
  e_shoff :: u64
  e_flags :: u32
  e_ehsize :: u16
  e_phentsize :: u16
  e_phnum :: u16
  e_shentsize :: u16
  e_shnum :: u16
  e_shstrndx :: u16

record Elf64Phdr =
  p_type :: u32
  p_flags :: u32
  p_offset :: u64
  p_vaddr :: u64
  p_paddr :: u64
  p_filesz :: u64
  p_memsz :: u64
  p_align :: u64

text \<open>The sizes of the two packed structures, and the little-endian field at an offset.\<close>

definition EHDR_SIZE :: nat where "EHDR_SIZE = 64"
definition PHDR_SIZE :: nat where "PHDR_SIZE = 56"

definition field_at :: "nat \<Rightarrow> nat \<Rightarrow> bytes \<Rightarrow> 'a::len word" where
  "field_at off n data = le_word (take n (drop off data))"

definition ehdr_of :: "bytes \<Rightarrow> Elf64Ehdr" where
  "ehdr_of data =
     \<lparr>e_ident = take 16 data, e_type = field_at 16 2 data, e_machine = field_at 18 2 data,
      e_version = field_at 20 4 data, e_entry = field_at 24 8 data, e_phoff = field_at 32 8 data,
      e_shoff = field_at 40 8 data, e_flags = field_at 48 4 data, e_ehsize = field_at 52 2 data,
      e_phentsize = field_at 54 2 data, e_phnum = field_at 56 2 data, e_shentsize = field_at 58 2 data,
      e_shnum = field_at 60 2 data, e_shstrndx = field_at 62 2 data\<rparr>"

definition phdr_of :: "bytes \<Rightarrow> Elf64Phdr" where
  "phdr_of data =
     \<lparr>p_type = field_at 0 4 data, p_flags = field_at 4 4 data, p_offset = field_at 8 8 data,
      p_vaddr = field_at 16 8 data, p_paddr = field_at 24 8 data, p_filesz = field_at 32 8 data,
      p_memsz = field_at 40 8 data, p_align = field_at 48 8 data\<rparr>"

definition pflags_to_vma :: "u32 \<Rightarrow> VMAFlags" where
  "pflags_to_vma flags =
     \<lparr>flag_read = (flags AND PF_R \<noteq> 0), flag_write = (flags AND PF_W \<noteq> 0), flag_exec = (flags AND PF_X \<noteq> 0)\<rparr>"

section \<open>Validation\<close>

record ElfLoader =
  el_data :: bytes
  el_ehdr :: Elf64Ehdr

definition ElfLoader_new :: "bytes \<Rightarrow> string + ElfLoader" where
  "ElfLoader_new data =
     (if length data < EHDR_SIZE then Inl ''ELF: data too small for header''
      else let ehdr = ehdr_of data in
        if take 4 (e_ident ehdr) \<noteq> ELFMAG then Inl ''ELF: bad magic''
        else if e_ident ehdr ! 4 \<noteq> ELFCLASS64 then Inl ''ELF: not ELF64''
        else if e_ident ehdr ! 5 \<noteq> ELFDATA2LSB then Inl ''ELF: not little-endian''
        else if e_type ehdr \<noteq> ET_EXEC then Inl ''ELF: not ET_EXEC''
        else if e_machine ehdr \<noteq> EM_X86_64 then Inl ''ELF: not x86-64''
        else if unat (e_phentsize ehdr) < PHDR_SIZE then Inl ''ELF: e_phentsize too small''
        else (case checked_mul (ucast (e_phnum ehdr) :: u64) (ucast (e_phentsize ehdr)) of
                None \<Rightarrow> Inl ''ELF: phdr size overflow''
              | Some sz \<Rightarrow>
                  (case checked_add (e_phoff ehdr) sz of
                     None \<Rightarrow> Inl ''ELF: phdr offset overflow''
                   | Some phdr_end \<Rightarrow>
                       if length data < unat phdr_end then Inl ''ELF: program header table out of bounds''
                       else Inr \<lparr>el_data = data, el_ehdr = ehdr\<rparr>)))"

section \<open>Loading\<close>

definition phdr_at :: "ElfLoader \<Rightarrow> nat \<Rightarrow> Elf64Phdr option" where
  "phdr_at l i = do {
     m \<leftarrow> checked_mul (of_nat i :: u64) (ucast (e_phentsize (el_ehdr l)));
     offset \<leftarrow> checked_add (e_phoff (el_ehdr l)) m;
     if length (el_data l) < unat offset + PHDR_SIZE then None
     else Some (phdr_of (drop (unat offset) (el_data l)))
   }"

text \<open>The part of the segment's file data that belongs into the page at \<open>page_vaddr\<close>: its place in the page and its bytes.\<close>

definition page_copy :: "bytes \<Rightarrow> Elf64Phdr \<Rightarrow> u64 \<Rightarrow> (u64 \<times> bytes) option" where
  "page_copy data phdr page_vaddr = do {
     page_va_end \<leftarrow> checked_add page_vaddr PAGE_SIZE;
     seg_file_va_end \<leftarrow> checked_add (p_vaddr phdr) (p_filesz phdr);
     let copy_va_start = max page_vaddr (p_vaddr phdr);
     let copy_va_end = min page_va_end seg_file_va_end;
     if copy_va_start < copy_va_end then do {
       copy_len \<leftarrow> checked_sub copy_va_end copy_va_start;
       page_offset \<leftarrow> checked_sub copy_va_start page_vaddr;
       rel \<leftarrow> checked_sub copy_va_start (p_vaddr phdr);
       file_copy_start \<leftarrow> checked_add (p_offset phdr) rel;
       if length data < unat file_copy_start + unat copy_len then None
       else Some (page_offset, take (unat copy_len) (drop (unat file_copy_start) data))
     }
     else Some (0, [])
   }"

definition load_page ::
    "bytes \<Rightarrow> Elf64Phdr \<Rightarrow> AddressSpace \<Rightarrow> u64 \<Rightarrow> 'a kmem_scheme \<Rightarrow> ((string + unit) \<times> 'a kmem_scheme) option" where
  "load_page data phdr a page_vaddr s = do {
     (phys, s) \<leftarrow> buddy_alloc 0 s;
     (case phys of
        None \<Rightarrow> Some (Inl ''ELF: out of memory for PT_LOAD page'', s)
      | Some phys \<Rightarrow> do {
          s \<leftarrow> track phys 0 ''elf:segment'' (as_owner_pid a) s;
          virt_ptr \<leftarrow> phys_to_virt phys;
          let s = s\<lparr>ram := write_bytes (ram s) (deref_phys virt_ptr) 0 4096\<rparr>;
          (page_offset, bs) \<leftarrow> page_copy data phdr page_vaddr;
          let s = s\<lparr>ram := store_bytes (ram s) (deref_phys virt_ptr + page_offset) bs\<rparr>;
          (r, s) \<leftarrow> map_4kb BuddyPages (as_page_table a) page_vaddr phys (to_page_flags (pflags_to_vma (p_flags phdr))) s;
          Some (case r of None \<Rightarrow> Inl ''ELF: page table map failed'' | Some _ \<Rightarrow> Inr (), s)
        })
   }"

fun load_pages ::
    "bytes \<Rightarrow> Elf64Phdr \<Rightarrow> AddressSpace \<Rightarrow> u64 \<Rightarrow> nat list \<Rightarrow> 'a kmem_scheme \<Rightarrow> ((string + unit) \<times> 'a kmem_scheme) option" where
  "load_pages data phdr a map_start [] s = Some (Inr (), s)"
| "load_pages data phdr a map_start (page_idx # idxs) s = do {
     off \<leftarrow> checked_mul (of_nat page_idx) PAGE_SIZE;
     page_vaddr \<leftarrow> checked_add map_start off;
     (r, s) \<leftarrow> load_page data phdr a page_vaddr s;
     (case r of
        Inl e \<Rightarrow> Some (Inl e, s)
      | Inr _ \<Rightarrow> load_pages data phdr a map_start idxs s)
   }"

definition load_segment ::
    "bytes \<Rightarrow> Elf64Phdr \<Rightarrow> AddressSpace \<Rightarrow> 'a kmem_scheme \<Rightarrow> ((string + unit) \<times> AddressSpace \<times> 'a kmem_scheme) option" where
  "load_segment data phdr a s =
     (if p_type phdr \<noteq> PT_LOAD \<or> p_memsz phdr = 0 then Some (Inr (), a, s)
      else (case checked_add (p_offset phdr) (p_filesz phdr) of
          None \<Rightarrow> Some (Inl ''ELF: p_filesz overflow'', a, s)
        | Some file_end \<Rightarrow>
            if length data < unat file_end then Some (Inl ''ELF: PT_LOAD file data out of bounds'', a, s)
            else do {
              let map_start = align_down (p_vaddr phdr) PAGE_SIZE;
              top \<leftarrow> checked_add (p_vaddr phdr) (p_memsz phdr);
              map_end \<leftarrow> align_up top PAGE_SIZE;
              len \<leftarrow> checked_sub map_end map_start;
              (case add_vma (as_vmas a) (VMA_new map_start map_end (pflags_to_vma (p_flags phdr)) Anonymous) of
                 Inl _ \<Rightarrow> Some (Inl ''ELF: add_vma failed'', a, s)
               | Inr vmas \<Rightarrow> do {
                   let a = a\<lparr>as_vmas := vmas\<rparr>;
                   (r, s) \<leftarrow> load_pages data phdr a map_start [0..<unat (len div PAGE_SIZE)] s;
                   Some (r, a, s)
                 })
            }))"

fun load_segments ::
    "ElfLoader \<Rightarrow> nat list \<Rightarrow> AddressSpace \<Rightarrow> 'a kmem_scheme \<Rightarrow> ((string + unit) \<times> AddressSpace \<times> 'a kmem_scheme) option" where
  "load_segments l [] a s = Some (Inr (), a, s)"
| "load_segments l (i # is) a s = do {
     phdr \<leftarrow> phdr_at l i;
     (r, a, s) \<leftarrow> load_segment (el_data l) phdr a s;
     (case r of Inl e \<Rightarrow> Some (Inl e, a, s) | Inr _ \<Rightarrow> load_segments l is a s)
   }"

definition ElfLoader_load ::
    "ElfLoader \<Rightarrow> AddressSpace \<Rightarrow> 'a kmem_scheme \<Rightarrow> ((string + u64) \<times> AddressSpace \<times> 'a kmem_scheme) option" where
  "ElfLoader_load l a s = do {
     (r, a, s) \<leftarrow> load_segments l [0..<unat (e_phnum (el_ehdr l))] a s;
     Some (case r of Inl e \<Rightarrow> Inl e | Inr _ \<Rightarrow> Inr (e_entry (el_ehdr l)), a, s)
   }"

definition load_elf ::
    "bytes \<Rightarrow> AddressSpace \<Rightarrow> 'a kmem_scheme \<Rightarrow> ((string + u64) \<times> AddressSpace \<times> 'a kmem_scheme) option" where
  "load_elf data a s =
     (case ElfLoader_new data of
        Inl e \<Rightarrow> Some (Inl e, a, s)
      | Inr l \<Rightarrow> ElfLoader_load l a s)"

end
