(* ===== verification/Elf_Spec.thy ===== *)
theory Elf_Spec
  imports Elf Address_Space_Spec
begin

text \<open>
  What the program loader promises: for a file whose segments lie in user space it never panics, it fails only
  for the stated reasons, and after a success every page of every segment is mapped with the segment's rights and
  holds the segment's bytes. The proof goes page by page (\<open>load_page_ok\<close>), segment by segment
  (\<open>load_segment_ok\<close>), with the pages loaded so far preserved.
\<close>

section \<open>The contents of a segment\<close>

text \<open>The byte a loaded segment has at an address: the byte of the file, or zero behind the file data.\<close>

definition segment_byte :: "bytes \<Rightarrow> Elf64Phdr \<Rightarrow> nat \<Rightarrow> u8" where
  "segment_byte data ph x =
     (if unat (p_vaddr ph) \<le> x \<and> x < unat (p_vaddr ph) + unat (p_filesz ph)
      then data ! (unat (p_offset ph) + (x - unat (p_vaddr ph))) else 0)"

text \<open>The conditions on a loadable segment: its file data is there, and its memory is user space.\<close>

definition file_part_ok :: "bytes \<Rightarrow> Elf64Phdr \<Rightarrow> bool" where
  "file_part_ok data ph \<longleftrightarrow> unat (p_offset ph) + unat (p_filesz ph) \<le> length data"

definition loadable :: "Elf64Phdr \<Rightarrow> bool" where
  "loadable ph \<longleftrightarrow> p_type ph = PT_LOAD \<and> p_memsz ph \<noteq> 0"

definition below_top :: "Elf64Phdr \<Rightarrow> bool" where
  "below_top ph \<longleftrightarrow> (loadable ph \<longrightarrow> unat (p_vaddr ph) + unat (p_memsz ph) \<le> 2 ^ 47)"

lemma unat_of_nat_below: "n < 2 ^ LENGTH('a) \<Longrightarrow> unat (of_nat n :: 'a::len word) = n"
  by (simp only: unat_of_nat mod_less)

lemma page_copy_ok:
  assumes v: "user_page v" and pv: "unat (p_vaddr ph) < 2 ^ 47" and f: "file_part_ok data ph" and n: "length data < 2 ^ 63"
  obtains off bs where "page_copy data ph v = Some (off, bs)" and "unat off + length bs \<le> 4096"
    and "\<forall>i<4096. (if unat off \<le> i \<and> i < unat off + length bs then bs ! (i - unat off) else 0) =
           segment_byte data ph (unat v + i)"
proof -
  let ?pv = "p_vaddr ph" and ?fs = "p_filesz ph"
  have f': "unat (p_offset ph) + unat ?fs \<le> length data" using f by (simp add: file_part_ok_def)
  have uv: "unat v < 2 ^ 47" using v by (simp add: user_page_def)
  have l1: "unat v + unat PAGE_SIZE < 2 ^ LENGTH(64)" using uv by (simp add: PAGE_SIZE_def)
  have l2: "unat ?pv + unat ?fs < 2 ^ LENGTH(64)" using pv f' n by simp
  have c1: "checked_add v PAGE_SIZE = Some (v + PAGE_SIZE)" "unat (v + PAGE_SIZE) = unat v + 4096"
    using checked_add_ok [OF l1] unat_add_exact [OF l1] by (auto simp: PAGE_SIZE_def)
  have c2: "checked_add ?pv ?fs = Some (?pv + ?fs)" "unat (?pv + ?fs) = unat ?pv + unat ?fs"
    using checked_add_ok [OF l2] unat_add_exact [OF l2] by auto
  let ?st = "max v ?pv" and ?en = "min (v + PAGE_SIZE) (?pv + ?fs)"
  have us: "unat ?st = max (unat v) (unat ?pv)" by (auto simp: max_def word_le_nat_alt)
  have ue: "unat ?en = min (unat v + 4096) (unat ?pv + unat ?fs)"
    unfolding c1(2) [symmetric] c2(2) [symmetric] by (auto simp: min_def word_le_nat_alt)
  show ?thesis
  proof (cases "?st < ?en")
    case False
    then have "unat ?en \<le> unat ?st" by (simp add: word_less_nat_alt)
    then have "\<not> (unat ?pv \<le> unat v + i \<and> unat v + i < unat ?pv + unat ?fs)" if "i < 4096" for i
      using that unfolding us ue by linarith
    then have "\<forall>i<4096. segment_byte data ph (unat v + i) = 0" unfolding segment_byte_def by meson
    moreover have "page_copy data ph v = Some (0, [])"
      by (simp only: page_copy_def c1(1) c2(1) Let_def Option.bind.bind_lunit False if_False)
    ultimately show ?thesis using that [of 0 "[]"] by simp
  next
    case True
    then have lt: "max (unat v) (unat ?pv) < min (unat v + 4096) (unat ?pv + unat ?fs)"
      using us ue by (simp add: word_less_nat_alt)
    have "?st \<le> ?en" using True by (rule less_imp_le)
    note d1 = checked_sub_ok [OF this] unat_sub_exact [OF this]
    have "v \<le> ?st" by simp
    note d2 = checked_sub_ok [OF this] unat_sub_exact [OF this]
    have "?pv \<le> ?st" by simp
    note d3 = checked_sub_ok [OF this] unat_sub_exact [OF this]
    have l4: "unat (p_offset ph) + unat (?st - ?pv) < 2 ^ LENGTH(64)"
    proof -
      have "max (unat v) (unat ?pv) - unat ?pv \<le> unat ?fs" using lt by linarith
      then have "unat (p_offset ph) + unat (?st - ?pv) < 2 ^ 63" unfolding d3(2) us using f' n by linarith
      then show ?thesis by simp
    qed
    note d4 = checked_add_ok [OF l4] unat_add_exact [OF l4]
    let ?n = "unat (?en - ?st)" and ?o = "unat (p_offset ph + (?st - ?pv))"
    have o: "?o = unat (p_offset ph) + (max (unat v) (unat ?pv) - unat ?pv)" unfolding d4(2) d3(2) us ..
    have nn: "?n = min (unat v + 4096) (unat ?pv + unat ?fs) - max (unat v) (unat ?pv)" unfolding d1(2) us ue ..
    have fit: "?o + ?n \<le> length data" unfolding o nn using lt f' by linarith
    let ?bs = "take ?n (drop ?o data)"
    have lb: "length ?bs = ?n" using fit by simp
    have uo: "unat (?st - v) = max (unat v) (unat ?pv) - unat v" unfolding d2(2) us ..
    have run: "page_copy data ph v = Some (?st - v, ?bs)"
      using fit by (simp only: page_copy_def c1(1) c2(1) d1(1) d2(1) d3(1) d4(1) Let_def Option.bind.bind_lunit True if_True
          linorder_not_less [symmetric] if_False)
    show ?thesis
    proof (rule that [OF run])
      show "unat (?st - v) + length ?bs \<le> 4096" using lt lb uo nn by linarith
      show "\<forall>i<4096. (if unat (?st - v) \<le> i \<and> i < unat (?st - v) + length ?bs then ?bs ! (i - unat (?st - v)) else 0) =
           segment_byte data ph (unat v + i)"
      proof (intro allI impI)
        fix i :: nat assume i: "i < 4096"
        have iff: "unat (?st - v) \<le> i \<and> i < unat (?st - v) + ?n \<longleftrightarrow> unat ?pv \<le> unat v + i \<and> unat v + i < unat ?pv + unat ?fs"
          unfolding uo nn using lt i by linarith
        have "?bs ! (i - unat (?st - v)) = data ! (unat (p_offset ph) + (unat v + i - unat ?pv))"
          if "unat (?st - v) \<le> i \<and> i < unat (?st - v) + ?n"
        proof -
          have e: "?o + (i - unat (?st - v)) = unat (p_offset ph) + (unat v + i - unat ?pv)"
            using that unfolding o uo by linarith
          have "i - unat (?st - v) < ?n" "?o \<le> length data" using that fit by linarith+
          then show ?thesis using e by simp
        qed
        then show "(if unat (?st - v) \<le> i \<and> i < unat (?st - v) + length ?bs then ?bs ! (i - unat (?st - v)) else 0) =
           segment_byte data ph (unat v + i)"
          unfolding lb segment_byte_def using iff by simp
      qed
    qed
  qed
qed

section \<open>Loading one page\<close>

lemma page_update:
  fixes m :: pmem
  assumes p: "in_window p" and fit: "unat off + length bs \<le> 4096"
  defines "m' \<equiv> store_bytes (write_bytes m p 0 4096) (p + off) bs"
  shows "mem_eq_off {frame p} m m'"
    and "i < 4096 \<Longrightarrow> m' (p + of_nat i) = (if unat off \<le> i \<and> i < unat off + length bs then bs ! (i - unat off) else 0)"
proof -
  have al: "unat p mod 4096 = 0" using p by (simp add: in_window_def)
  show "mem_eq_off {frame p} m m'"
    unfolding mem_eq_off_def
  proof (intro allI impI)
    fix x assume x: "frame x \<notin> {frame p}"
    have a: "\<not> unat (x - p) < 4096" using frame_in_bytes [of p 4096 x] al x by auto
    have "x - p = (x - (p + off)) + off" by simp
    then have "unat (x - p) \<le> unat (x - (p + off)) + unat off"
      by (simp only: unat_word_ariths(1) [of "x - (p + off)" off] mod_less_eq_dividend)
    then have "\<not> unat (x - (p + off)) < length bs" using a fit by linarith
    then show "m' x = m x" using a unfolding m'_def store_bytes_def write_bytes_def uint_less_int by (simp only: if_False)
  qed
  assume i: "i < 4096"
  have ui: "unat (of_nat i :: u64) = i" using i by (simp add: unat_of_nat)
  have w: "write_bytes m p 0 4096 (p + of_nat i) = 0"
    using i ui unfolding write_bytes_def uint_less_int add_diff_cancel_left' by (simp only: if_True)
  have e: "p + of_nat i - (p + off) = of_nat i - off" by simp
  show "m' (p + of_nat i) = (if unat off \<le> i \<and> i < unat off + length bs then bs ! (i - unat off) else 0)"
  proof (cases "unat off \<le> i")
    case True
    then have "unat (of_nat i - off) = i - unat off" using ui by (simp add: unat_sub word_le_nat_alt)
    then show ?thesis using True w by (auto simp: m'_def store_bytes_def e)
  next
    case False
    then have "unat (of_nat i - off) = 2 ^ 64 + i - unat off"
      using unat_sub_if' [of "of_nat i" off] ui fit by simp
    then have "\<not> unat (of_nat i - off) < length bs" using fit by simp
    then show ?thesis using False w by (simp add: m'_def store_bytes_def e)
  qed
qed

text \<open>The step every load makes: a page of the segment appears, or memory has run out, and nothing else changes.\<close>

definition grown :: "u64 \<Rightarrow> u64 set \<Rightarrow> 'a kmem_scheme \<Rightarrow> 'a kmem_scheme \<Rightarrow> bool" where
  "grown root V s s' \<longleftrightarrow> aspace_ok root s' \<and> dom (user_map root s) \<subseteq> dom (user_map root s') \<and>
     dom (user_map root s') \<subseteq> dom (user_map root s) \<union> V \<and> avail s' \<subseteq> avail s \<and>
     (\<forall>w f c. w \<notin> V \<longrightarrow> page_is root s w f c \<longrightarrow> page_is root s' w f c) \<and>
     owners_capacity s' = owners_capacity s \<and> length (page_owners s) \<le> length (page_owners s')"

lemma grown_refl: "aspace_ok root s \<Longrightarrow> grown root V s s"
  by (simp add: grown_def)

lemma grown_trans:
  "grown root V s s1 \<Longrightarrow> grown root W s1 s2 \<Longrightarrow> V \<union> W \<subseteq> X \<Longrightarrow> grown root X s s2"
  unfolding grown_def by (intro conjI) (blast | force)+

abbreviation segment_rights :: "Elf64Phdr \<Rightarrow> u64" where
  "segment_rights ph \<equiv> to_page_flags (pflags_to_vma (p_flags ph))"

lemma load_page_ok:
  fixes s :: "'a kmem_scheme"
  assumes ok: "aspace_ok (as_page_table a) s" and v: "user_page v" and pv: "unat (p_vaddr ph) < 2 ^ 47"
    and f: "file_part_ok data ph" and n: "length data < 2 ^ 63" and cap: "length (page_owners s) < owners_capacity s"
  obtains r s' where "load_page data ph a v s = Some (r, s')" and "grown (as_page_table a) {v} s s'"
    and "length (page_owners s') \<le> Suc (length (page_owners s))"
    and "if r = Inr () then page_is (as_page_table a) s' v (segment_rights ph) (\<lambda>i. segment_byte data ph (unat v + i))
         else avail s' = {}"
proof -
  let ?root = "as_page_table a"
  obtain off bs where C: "page_copy data ph v = Some (off, bs)" "unat off + length bs \<le> 4096"
    "\<forall>i<4096. (if unat off \<le> i \<and> i < unat off + length bs then bs ! (i - unat off) else 0) = segment_byte data ph (unat v + i)"
    using page_copy_ok [OF v pv f n] .
  let ?upd = "\<lambda>p m. store_bytes (write_bytes m p 0 4096) (p + off) bs"
  have upd: "\<forall>p m. in_window p \<longrightarrow> mem_eq_off {frame p} m (?upd p m)" using page_update(1) [OF _ C(2)] by blast
  show ?thesis
  proof (cases rule: fresh_page_ok [where upd = ?upd and f = "segment_rights ph" and tag = "''elf:segment''"
        and pid = "as_owner_pid a", OF ok v flags_ok_to_page_flags cap upd, case_names no_memory page])
    case no_memory
    then show ?thesis
      using that [of "Inl ''ELF: out of memory for PT_LOAD page''" s] grown_refl [OF ok] by (simp add: load_page_def)
  next
    case (page p s1 s2 r s')
    let ?r = "case r of None \<Rightarrow> Inl ''ELF: page table map failed'' | Some _ \<Rightarrow> Inr ()"
    have run: "load_page data ph a v s = Some (?r, s')" using page(1-6) C(1) by (simp add: load_page_def)
    have keep: "page_is ?root s' w f c" if "w \<noteq> v" "page_is ?root s w f c" for w f c
    proof -
      have "user_page w" using that(2) by (auto simp: page_is_def user_map_def split: if_splits)
      then have "page_leaf ?root w s' = page_leaf ?root w s" using page(10) same_page_user [OF v] that(1) by blast
      then show ?thesis by (rule page_is_elsewhere [OF ok that(2) _ page(15)])
    qed
    have "grown ?root {v} s s'"
      using page(7,8,13,17,18) keep by (auto simp: grown_def split: if_splits)
    moreover have "page_is ?root s' v (segment_rights ph) (\<lambda>i. segment_byte data ph (unat v + i))" if "r = Some ()"
    proof -
      have "\<forall>i<4096. ?upd p (ram s2) (p + of_nat i) = segment_byte data ph (unat v + i)"
        using page_update(2) [OF page(5) C(2)] C(3) by simp
      then show ?thesis using page(9) that by (auto simp: page_is_def)
    qed
    moreover have "length (page_owners s') \<le> Suc (length (page_owners s))" using page(17) by simp
    ultimately show ?thesis using that [OF run] page(11) by (cases r) auto
  qed
qed

lemma load_pages_ok:
  fixes s :: "'a kmem_scheme"
  assumes "aspace_ok (as_page_table a) s" and st: "4096 dvd unat st" and ix: "\<forall>i\<in>set ix. unat st + 4096 * i < 2 ^ 47"
    and "distinct ix" and pv: "unat (p_vaddr ph) < 2 ^ 47" and f: "file_part_ok data ph" and n: "length data < 2 ^ 63"
    and "length (page_owners s) + length ix \<le> owners_capacity s"
  shows "\<exists>r s'. load_pages data ph a st ix s = Some (r, s') \<and>
    grown (as_page_table a) ((\<lambda>i. st + of_nat (4096 * i)) ` set ix) s s' \<and>
    length (page_owners s') \<le> length (page_owners s) + length ix \<and>
    (if r = Inr () then \<forall>i\<in>set ix. page_is (as_page_table a) s' (st + of_nat (4096 * i)) (segment_rights ph)
                                  (\<lambda>j. segment_byte data ph (unat st + 4096 * i + j))
     else avail s' = {})"
  using assms(1,3,4,8)
proof (induction ix arbitrary: s)
  case Nil
  then show ?case by (simp add: grown_refl)
next
  case (Cons i ix)
  let ?root = "as_page_table a" and ?v = "\<lambda>i. st + of_nat (4096 * i) :: u64"
  have uv: "unat (?v j) = unat st + 4096 * j" if "j \<in> set (i # ix)" for j
  proof -
    have b: "unat st + 4096 * j < 2 ^ 47" using Cons.prems(2) that by blast
    then have "unat (of_nat (4096 * j) :: u64) = 4096 * j" by (intro unat_of_nat_below) simp
    then show ?thesis using b unat_add_exact [of st "of_nat (4096 * j)"] by simp
  qed
  have b: "unat st + 4096 * i < 2 ^ 47" using Cons.prems(2) by simp
  have up: "user_page (?v i)" using uv [of i] b st by (simp add: user_page_def)
  have ui: "unat (of_nat i :: u64) = i" using b by (intro unat_of_nat_below) simp
  have m: "checked_mul (of_nat i) PAGE_SIZE = Some (of_nat (4096 * i) :: u64)"
    using b ui by (simp add: checked_mul_unat_def PAGE_SIZE_def)
  have um: "unat (of_nat (4096 * i) :: u64) = 4096 * i" using b by (intro unat_of_nat_below) simp
  have p: "checked_add st (of_nat (4096 * i)) = Some (?v i)"
    by (rule checked_add_ok) (use b um in simp)
  have cap: "length (page_owners s) < owners_capacity s" using Cons.prems(4) by simp
  obtain r s1 where L: "load_page data ph a (?v i) s = Some (r, s1)" "grown ?root {?v i} s s1"
    "length (page_owners s1) \<le> Suc (length (page_owners s))"
    "if r = Inr () then page_is ?root s1 (?v i) (segment_rights ph) (\<lambda>j. segment_byte data ph (unat (?v i) + j))
         else avail s1 = {}"
    using load_page_ok [OF Cons.prems(1) up pv f n cap] .
  show ?case
  proof (cases r)
    case (Inl e)
    have "load_pages data ph a st (i # ix) s = Some (Inl e, s1)" using m p L(1) Inl by simp
    moreover have "grown ?root (?v ` set (i # ix)) s s1"
      by (rule grown_trans [OF L(2) grown_refl [where V = "{}"]]) (use L(2) in \<open>auto simp: grown_def\<close>)
    ultimately show ?thesis using L(3,4) Inl by auto
  next
    case (Inr u)
    have ok1: "aspace_ok ?root s1" using L(2) by (simp add: grown_def)
    have cap1: "length (page_owners s1) + length ix \<le> owners_capacity s1"
      using Cons.prems(4) L(2,3) by (simp add: grown_def)
    obtain r' s' where I: "load_pages data ph a st ix s1 = Some (r', s')" "grown ?root (?v ` set ix) s1 s'"
      "length (page_owners s') \<le> length (page_owners s1) + length ix"
      "if r' = Inr () then \<forall>i\<in>set ix. page_is ?root s' (?v i) (segment_rights ph)
                                  (\<lambda>j. segment_byte data ph (unat st + 4096 * i + j)) else avail s' = {}"
      using Cons.IH [OF ok1 _ _ cap1] Cons.prems(2,3) by auto
    have "load_pages data ph a st (i # ix) s = Some (r', s')" using m p L(1) Inr I(1) by simp
    moreover have "grown ?root (?v ` set (i # ix)) s s'"
      by (rule grown_trans [OF L(2) I(2)]) simp
    moreover have "?v i \<notin> ?v ` set ix"
    proof
      assume "?v i \<in> ?v ` set ix"
      then obtain j where j: "j \<in> set ix" "?v i = ?v j" by blast
      then have "unat st + 4096 * i = unat st + 4096 * j" using uv [of i] uv [of j] by simp
      then show False using j(1) Cons.prems(3) by simp
    qed
    then have "page_is ?root s' (?v i) (segment_rights ph) (\<lambda>j. segment_byte data ph (unat st + 4096 * i + j))"
      using I(2) L(4) Inr uv [of i] by (simp add: grown_def)
    ultimately show ?thesis using I(3,4) L(3) by auto
  qed
qed

section \<open>Loading a segment\<close>

text \<open>The pages of a segment are those its memory touches.\<close>

definition in_segment :: "Elf64Phdr \<Rightarrow> u64 \<Rightarrow> bool" where
  "in_segment ph x \<longleftrightarrow> loadable ph \<and> 4096 * (unat (p_vaddr ph) div 4096) \<le> unat x \<and>
     unat x < 4096 * ((unat (p_vaddr ph) + unat (p_memsz ph) + 4095) div 4096)"

definition seg_pages :: "Elf64Phdr \<Rightarrow> nat" where
  "seg_pages ph =
     (if loadable ph then (unat (p_vaddr ph) + unat (p_memsz ph) + 4095) div 4096 - unat (p_vaddr ph) div 4096 else 0)"

definition segment_loaded :: "u64 \<Rightarrow> 'a machine_scheme \<Rightarrow> bytes \<Rightarrow> Elf64Phdr \<Rightarrow> bool" where
  "segment_loaded root s data ph \<longleftrightarrow> (\<forall>v. user_page v \<and> in_segment ph v \<longrightarrow>
     page_is root s v (segment_rights ph) (\<lambda>i. segment_byte data ph (unat v + i)))"

lemma segment_range:
  assumes ld: "loadable ph" and top: "below_top ph"
  obtains e where "checked_add (p_vaddr ph) (p_memsz ph) = Some (p_vaddr ph + p_memsz ph)"
    and "align_up (p_vaddr ph + p_memsz ph) 4096 = Some e" and "unat (align_down (p_vaddr ph) 4096) = 4096 * (unat (p_vaddr ph) div 4096)"
    and "align_down (p_vaddr ph) 4096 < e" and "unat ((e - align_down (p_vaddr ph) 4096) div 4096) = seg_pages ph"
    and "\<forall>x. in_segment ph x \<longleftrightarrow> align_down (p_vaddr ph) 4096 \<le> x \<and> x < e"
    and "unat e = 4096 * (unat (p_vaddr ph) div 4096 + seg_pages ph)" and "unat e \<le> 2 ^ 47"
proof -
  let ?a = "unat (p_vaddr ph)" and ?m = "unat (p_memsz ph)" and ?st = "align_down (p_vaddr ph) 4096"
  have le: "?a + ?m \<le> 2 ^ 47" using ld top by (simp add: below_top_def)
  have m: "0 < ?m" using ld by (simp add: loadable_def unat_gt_0)
  have lt: "?a + ?m < 2 ^ LENGTH(64)" using le by simp
  have u: "unat (p_vaddr ph + p_memsz ph) = ?a + ?m" by (rule unat_add_exact [OF lt])
  then obtain e where e: "align_up (p_vaddr ph + p_memsz ph) 4096 = Some e"
    using align_up_page_None [of "p_vaddr ph + p_memsz ph"] le by (cases "align_up (p_vaddr ph + p_memsz ph) 4096") auto
  then have ue: "unat e = 4096 * ((?a + ?m + 4095) div 4096)" by (simp add: align_up_page_eq_Some u)
  have us: "unat ?st = 4096 * (?a div 4096)" by (simp add: unat_align_down_page frame_def)
  have "?a div 4096 < (?a + ?m + 4095) div 4096"
    using div_le_mono [of "?a + 4096" "?a + ?m + 4095" 4096] m by simp
  then have se: "unat ?st < unat e" and ue': "unat e = 4096 * (?a div 4096 + seg_pages ph)"
    unfolding us ue seg_pages_def using ld by simp_all
  have "(?a + ?m + 4095) div 4096 \<le> 2 ^ 35" using div_le_mono [of "?a + ?m + 4095" "2 ^ 47 + 4095" 4096] le by simp
  then have et: "unat e \<le> 2 ^ 47" unfolding ue by simp
  have "?st \<le> e" using se by (simp add: word_le_nat_alt)
  then have "unat ((e - ?st) div 4096) = (unat e - unat ?st) div 4096" by (simp add: unat_div unat_sub_exact)
  also have "\<dots> = seg_pages ph" unfolding us ue seg_pages_def using ld by (simp flip: diff_mult_distrib2)
  finally have n: "unat ((e - ?st) div 4096) = seg_pages ph" .
  show ?thesis
  proof (rule that [OF checked_add_ok [OF lt] e us _ n])
    show "?st < e" using se by (simp add: word_less_nat_alt)
    show "\<forall>x. in_segment ph x \<longleftrightarrow> ?st \<le> x \<and> x < e"
      unfolding in_segment_def word_le_nat_alt word_less_nat_alt us ue using ld by simp
    show "unat e = 4096 * (?a div 4096 + seg_pages ph)" by (rule ue')
    show "unat e \<le> 2 ^ 47" by (rule et)
  qed
qed

lemma segment_page_set:
  assumes st: "unat st = 4096 * k" and e: "unat e = 4096 * (k + n)" "unat e \<le> 2 ^ 47"
  shows "(\<lambda>i. st + of_nat (4096 * i)) ` {0..<n} = {v. user_page v \<and> st \<le> v \<and> v < e}"
proof -
  have uv: "unat (st + of_nat (4096 * i)) = 4096 * (k + i)" if "i < n" for i
  proof -
    have b: "4096 * (k + i) < 2 ^ 47" using that e by simp
    then have "unat (of_nat (4096 * i) :: u64) = 4096 * i" by (intro unat_of_nat_below) simp
    then show ?thesis using b st unat_add_exact [of st "of_nat (4096 * i)"] by simp
  qed
  show ?thesis
  proof (intro equalityI subsetI)
    fix v assume "v \<in> (\<lambda>i. st + of_nat (4096 * i)) ` {0..<n}"
    then obtain i where "i < n" "v = st + of_nat (4096 * i)" by auto
    then show "v \<in> {v. user_page v \<and> st \<le> v \<and> v < e}"
      using uv e st by (simp add: user_page_def word_le_nat_alt word_less_nat_alt)
  next
    fix v assume "v \<in> {v. user_page v \<and> st \<le> v \<and> v < e}"
    then obtain j where j: "unat v = 4096 * j" "k \<le> j" "j < k + n"
      using st e unfolding user_page_def word_le_nat_alt word_less_nat_alt by (auto elim!: dvdE)
    then have "unat (st + of_nat (4096 * (j - k))) = unat v" using uv [of "j - k"] by simp
    then have "v = st + of_nat (4096 * (j - k))" by (simp only: word_unat_eq_iff)
    then show "v \<in> (\<lambda>i. st + of_nat (4096 * i)) ` {0..<n}"
      by (rule image_eqI) (use j in simp)
  qed
qed

lemma add_vma_space:
  assumes ok: "space_ok a s" and v: "vma_start v < vma_end v" and al: "4096 dvd unat (vma_start v)" "4096 dvd unat (vma_end v)"
    and add: "add_vma (as_vmas a) v = Inr vs"
  shows "space_ok (a\<lparr>as_vmas := vs\<rparr>) s"
    and "area_at vs = (\<lambda>x. if vma_contains v x then Some (vma_area v) else area_at (as_vmas a) x)"
    and "vma_contains v x \<Longrightarrow> area_at (as_vmas a) x = None"
proof -
  have O: "vmas_ok (as_vmas a)" "all_nonempty (as_vmas a)" "bounds_aligned (as_vmas a)" using ok by (auto simp: space_ok_def)
  note A = add_vma_Inr [OF O(1) less_imp_le [OF v] add]
  show area: "area_at vs = (\<lambda>x. if vma_contains v x then Some (vma_area v) else area_at (as_vmas a) x)"
    by (rule ext) (rule A(2))
  have "bounds_aligned vs"
    unfolding bounds_aligned_def
  proof
    fix w assume "w \<in> set vs"
    from A(4) [OF this] show "4096 dvd unat (vma_start w) \<and> 4096 dvd unat (vma_end w)"
      using O(3) al by (auto simp only: bounds_aligned_def)
  qed
  moreover have "covered (a\<lparr>as_vmas := vs\<rparr>) s" using ok area by (auto simp: covered_def space_ok_def)
  ultimately show "space_ok (a\<lparr>as_vmas := vs\<rparr>) s" using ok A(1) A(3) [OF O(2) v] by (simp add: space_ok_def)
  show "vma_contains v x \<Longrightarrow> area_at (as_vmas a) x = None" by (rule A(5))
qed

lemma grown_space:
  assumes "space_ok a s" and "grown (as_page_table a) V s s'" and "\<And>w. w \<in> V \<Longrightarrow> area_at (as_vmas a) w \<noteq> None"
  shows "space_ok a s'"
proof -
  have "area_at (as_vmas a) w \<noteq> None" if "user_map (as_page_table a) s' w \<noteq> None" for w
  proof -
    have "w \<in> dom (user_map (as_page_table a) s) \<union> V" using that assms(2) unfolding grown_def by blast
    then show ?thesis using assms(1,3) unfolding space_ok_def covered_def by blast
  qed
  then show ?thesis using assms(1,2) by (simp add: space_ok_def grown_def covered_def)
qed

lemma load_segment_pages:
  fixes s :: "'a kmem_scheme"
  assumes ok: "aspace_ok (as_page_table a) s" and ld: "loadable ph" "file_part_ok data ph" and top: "below_top ph"
    and n: "length data < 2 ^ 63" and cap: "length (page_owners s) + seg_pages ph \<le> owners_capacity s"
  shows "\<exists>r s'. load_pages data ph a (align_down (p_vaddr ph) 4096) [0..<seg_pages ph] s = Some (r, s') \<and>
    grown (as_page_table a) (Collect (in_segment ph)) s s' \<and>
    length (page_owners s') \<le> length (page_owners s) + seg_pages ph \<and>
    (if r = Inr () then segment_loaded (as_page_table a) s' data ph else avail s' = {})"
proof -
  let ?root = "as_page_table a" and ?st = "align_down (p_vaddr ph) 4096" and ?ix = "[0..<seg_pages ph]"
  obtain e where e: "checked_add (p_vaddr ph) (p_memsz ph) = Some (p_vaddr ph + p_memsz ph)"
    "align_up (p_vaddr ph + p_memsz ph) 4096 = Some e" "unat ?st = 4096 * (unat (p_vaddr ph) div 4096)"
    "?st < e" "unat ((e - ?st) div 4096) = seg_pages ph" "\<forall>x. in_segment ph x \<longleftrightarrow> ?st \<le> x \<and> x < e"
    "unat e = 4096 * (unat (p_vaddr ph) div 4096 + seg_pages ph)" "unat e \<le> 2 ^ 47"
    using segment_range [OF ld(1) top] .
  have pages: "(\<lambda>i. ?st + of_nat (4096 * i)) ` set ?ix = {v. user_page v \<and> in_segment ph v}"
    using segment_page_set [OF e(3,7,8)] e(6) by simp
  have ix: "\<forall>i\<in>set ?ix. unat ?st + 4096 * i < 2 ^ 47" using e(3,7,8) by auto
  have pv: "unat (p_vaddr ph) < 2 ^ 47" 
  proof -
    have "0 < unat (p_memsz ph)" "unat (p_vaddr ph) + unat (p_memsz ph) \<le> 2 ^ 47"
      using top ld(1) by (auto simp: below_top_def loadable_def unat_gt_0)
    then show ?thesis by linarith
  qed
  have al: "4096 dvd unat ?st" using e(3) by simp
  have cap': "length (page_owners s) + length ?ix \<le> owners_capacity s" using cap by simp
  obtain r s' where L: "load_pages data ph a ?st ?ix s = Some (r, s')" "grown ?root {v. user_page v \<and> in_segment ph v} s s'"
    "length (page_owners s') \<le> length (page_owners s) + seg_pages ph"
    "if r = Inr () then \<forall>i\<in>set ?ix. page_is ?root s' (?st + of_nat (4096 * i)) (segment_rights ph)
                                  (\<lambda>j. segment_byte data ph (unat ?st + 4096 * i + j)) else avail s' = {}"
    using load_pages_ok [OF ok al ix distinct_upt pv ld(2) n cap'] unfolding pages by auto
  have "segment_loaded ?root s' data ph" if "r = Inr ()"
    unfolding segment_loaded_def
  proof (intro allI impI)
    fix v assume "user_page v \<and> in_segment ph v"
    then have "v \<in> (\<lambda>i. ?st + of_nat (4096 * i)) ` set ?ix" unfolding pages by simp
    then obtain i where i: "i \<in> set ?ix" "v = ?st + of_nat (4096 * i)" by blast
    have b: "unat ?st + 4096 * i < 2 ^ 47" using ix i(1) by blast
    then have "unat (of_nat (4096 * i) :: u64) = 4096 * i" by (intro unat_of_nat_below) simp
    then have "unat v = unat ?st + 4096 * i" using i(2) b unat_add_exact [of ?st "of_nat (4096 * i)"] by simp
    then show "page_is ?root s' v (segment_rights ph) (\<lambda>j. segment_byte data ph (unat v + j))"
      using L(4) that i by simp
  qed
  moreover have "grown ?root (Collect (in_segment ph)) s s'"
    by (rule grown_trans [OF L(2) grown_refl [where V = "{}"]]) (use L(2) in \<open>auto simp: grown_def\<close>)
  ultimately show ?thesis using L(1,3,4) by auto
qed

text \<open>Every page that was there stays with its rights and contents.\<close>

definition pages_kept :: "u64 \<Rightarrow> 'a kmem_scheme \<Rightarrow> 'a kmem_scheme \<Rightarrow> bool" where
  "pages_kept root s s' \<longleftrightarrow> (\<forall>w f c. page_is root s w f c \<longrightarrow> page_is root s' w f c) \<and> owners_capacity s' = owners_capacity s"

lemma pages_kept_simps [simp]: "pages_kept root s s" "pages_kept root s s1 \<Longrightarrow> pages_kept root s1 s2 \<Longrightarrow> pages_kept root s s2"
  by (auto simp: pages_kept_def)

lemma grown_kept:
  assumes "space_ok a s" and "grown (as_page_table a) V s s'" and "\<And>w. w \<in> V \<Longrightarrow> area_at (as_vmas a) w = None"
  shows "pages_kept (as_page_table a) s s'"
proof -
  have "w \<notin> V" if "page_is (as_page_table a) s w f c" for w f c
  proof -
    have "user_map (as_page_table a) s w \<noteq> None" using that by (auto simp: page_is_def)
    then have "area_at (as_vmas a) w \<noteq> None" using assms(1) unfolding space_ok_def covered_def by blast
    then show ?thesis using assms(3) [of w] by auto
  qed
  then show ?thesis using assms(2) unfolding grown_def pages_kept_def by blast
qed

lemma segment_loaded_kept: "segment_loaded root s data ph \<Longrightarrow> pages_kept root s s' \<Longrightarrow> segment_loaded root s' data ph"
  unfolding segment_loaded_def pages_kept_def by blast

lemma load_segment_ok:
  fixes s :: "'a kmem_scheme"
  assumes ok: "space_ok a s" and top: "below_top ph" and n: "length data < 2 ^ 63"
    and cap: "length (page_owners s) + seg_pages ph \<le> owners_capacity s"
  shows "\<exists>r a' s'. load_segment data ph a s = Some (r, a', s') \<and> space_ok a' s' \<and> as_page_table a' = as_page_table a \<and>
    pages_kept (as_page_table a) s s' \<and> length (page_owners s') \<le> length (page_owners s) + seg_pages ph \<and>
    (if r = Inr () then
       (loadable ph \<longrightarrow> file_part_ok data ph) \<and> segment_loaded (as_page_table a) s' data ph \<and>
       (\<forall>x. in_segment ph x \<longrightarrow> area_at (as_vmas a) x = None) \<and>
       area_at (as_vmas a') =
         (\<lambda>x. if in_segment ph x then Some (pflags_to_vma (p_flags ph), Anonymous) else area_at (as_vmas a) x)
     else loadable ph \<and>
       (\<not> file_part_ok data ph \<or> avail s' = {} \<or> (\<exists>x. in_segment ph x \<and> area_at (as_vmas a) x \<noteq> None)))"
proof -
  let ?root = "as_page_table a"
  have O: "aspace_ok ?root s" "vmas_ok (as_vmas a)" "all_nonempty (as_vmas a)" using ok by (auto simp: space_ok_def)
  consider (skip) "\<not> loadable ph" | (bad) "loadable ph" "\<not> file_part_ok data ph" | (load) "loadable ph" "file_part_ok data ph" by blast
  then show ?thesis
  proof cases
    case skip
    then have "load_segment data ph a s = Some (Inr (), a, s)" by (auto simp: load_segment_def loadable_def)
    then show ?thesis using skip ok by (simp add: in_segment_def segment_loaded_def)
  next
    case bad
    then have "\<exists>e. load_segment data ph a s = Some (Inl e, a, s)"
      by (auto simp: load_segment_def loadable_def file_part_ok_def checked_add_unat_def unat_add_exact)
    then obtain e where "load_segment data ph a s = Some (Inl e, a, s)" ..
    then show ?thesis using bad ok by simp
  next
    case load
    have fe: "\<exists>x. checked_add (p_offset ph) (p_filesz ph) = Some x \<and> \<not> length data < unat x"
      using load(2) n by (simp add: file_part_ok_def checked_add_unat_def unat_add_exact)
    let ?st = "align_down (p_vaddr ph) 4096"
    obtain e where e: "checked_add (p_vaddr ph) (p_memsz ph) = Some (p_vaddr ph + p_memsz ph)"
      "align_up (p_vaddr ph + p_memsz ph) 4096 = Some e" "unat ?st = 4096 * (unat (p_vaddr ph) div 4096)"
      "?st < e" "unat ((e - ?st) div 4096) = seg_pages ph" "\<forall>x. in_segment ph x \<longleftrightarrow> ?st \<le> x \<and> x < e"
      "unat e = 4096 * (unat (p_vaddr ph) div 4096 + seg_pages ph)" "unat e \<le> 2 ^ 47"
      using segment_range [OF load(1) top] .
    let ?v = "VMA_new ?st e (pflags_to_vma (p_flags ph)) Anonymous"
    have v: "vma_start ?v < vma_end ?v" using e(4) by simp
    have c: "vma_contains ?v x \<longleftrightarrow> in_segment ph x" for x using e(6) by simp
    have run: "load_segment data ph a s =
      (case add_vma (as_vmas a) ?v of
         Inl _ \<Rightarrow> Some (Inl ''ELF: add_vma failed'', a, s)
       | Inr vmas \<Rightarrow> do { (r, s) \<leftarrow> load_pages data ph (a\<lparr>as_vmas := vmas\<rparr>) ?st [0..<seg_pages ph] s;
                       Some (r, a\<lparr>as_vmas := vmas\<rparr>, s) })"
      using load(1) fe e(1,2,4,5)
      by (auto simp: load_segment_def loadable_def PAGE_SIZE_def checked_sub_ok less_imp_le Let_def split: sum.splits)
    show ?thesis
    proof (cases "add_vma (as_vmas a) ?v")
      case (Inl m)
      then have "\<exists>x. in_segment ph x \<and> area_at (as_vmas a) x \<noteq> None"
        using add_vma_overlap(2) [OF O(2,3) v] unfolding c by auto
      then show ?thesis using run Inl load ok by auto
    next
      case (Inr vs)
      let ?a = "a\<lparr>as_vmas := vs\<rparr>"
      have al: "4096 dvd unat (vma_start ?v)" "4096 dvd unat (vma_end ?v)" using e(3,7) by auto
      note A = add_vma_space [OF ok v al Inr]
      have pt: "as_page_table ?a = ?root" by simp
      have oka: "aspace_ok (as_page_table ?a) s" using O(1) by simp
      obtain r s' where L: "load_pages data ph ?a ?st [0..<seg_pages ph] s = Some (r, s')"
        "grown ?root (Collect (in_segment ph)) s s'" "length (page_owners s') \<le> length (page_owners s) + seg_pages ph"
        "if r = Inr () then segment_loaded ?root s' data ph else avail s' = {}"
        using load_segment_pages [OF oka load top n cap] unfolding pt by blast
      have "grown (as_page_table ?a) (Collect (in_segment ph)) s s'" using L(2) by simp
      then have "space_ok ?a s'" by (rule grown_space [OF A(1)]) (use c in \<open>auto simp add: A(2)\<close>)
      moreover have "load_segment data ph a s = Some (r, ?a, s')" using run Inr L(1) by simp
      moreover have "area_at vs = (\<lambda>x. if in_segment ph x then Some (pflags_to_vma (p_flags ph), Anonymous) else area_at (as_vmas a) x)"
        unfolding A(2) c by (intro ext) (simp add: vma_area_def)
      moreover have "pages_kept ?root s s'" by (rule grown_kept [OF ok L(2)]) (use A(3) c in simp)
      ultimately show ?thesis using L(3,4) load A(3) unfolding c by auto
    qed
  qed
qed

section \<open>Loading a program\<close>

text \<open>The program header of a number, read from the file.\<close>

definition prog_header :: "bytes \<Rightarrow> nat \<Rightarrow> Elf64Phdr" where
  "prog_header data i =
     phdr_of (drop (unat (e_phoff (ehdr_of data)) + i * unat (e_phentsize (ehdr_of data))) data)"

lemma unat_u16: "unat (w :: u16) < 2 ^ 16"
  using unsigned_less [of w] by simp

lemma unat_ucast_16: "unat (ucast (w :: u16) :: u64) = unat w"
  using unat_u16 [of w] by (simp add: unsigned_ucast_eq take_bit_nat_eq_self_iff)

lemma ElfLoader_new_eq: "ElfLoader_new data = Inr l \<Longrightarrow> l = \<lparr>el_data = data, el_ehdr = ehdr_of data\<rparr>"
  by (auto simp: ElfLoader_new_def Let_def split: if_splits option.splits)

lemma phdr_at_ok:
  assumes l: "ElfLoader_new data = Inr l" and i: "i < unat (e_phnum (ehdr_of data))"
  shows "phdr_at l i = Some (prog_header data i)"
proof -
  let ?h = "ehdr_of data"
  let ?sz = "ucast (e_phnum ?h) * ucast (e_phentsize ?h) :: u64"
  have L: "l = \<lparr>el_data = data, el_ehdr = ?h\<rparr>" "PHDR_SIZE \<le> unat (e_phentsize ?h)"
    "\<exists>e. checked_add (e_phoff ?h) ?sz = Some e \<and> unat e \<le> length data"
    "unat (ucast (e_phnum ?h) :: u64) * unat (ucast (e_phentsize ?h) :: u64) < 2 ^ 64"
    using l by (auto simp: ElfLoader_new_def Let_def checked_mul_unat_def split: if_splits option.splits)
  let ?n = "unat (e_phnum ?h)" and ?z = "unat (e_phentsize ?h)" and ?o = "unat (e_phoff ?h)"
  have sz: "unat ?sz = ?n * ?z" using L(4) by (simp add: unat_word_ariths unat_ucast_16)
  have fit: "?o + ?n * ?z \<le> length data" and lt: "?o + ?n * ?z < 2 ^ 64"
    using L(3) by (auto simp: checked_add_unat_def unat_add_exact sz split: if_splits)
  have "Suc i * ?z \<le> ?n * ?z" using i by (intro mult_le_mono1) simp
  then have b: "i * ?z + ?z \<le> ?n * ?z" by simp
  have ui: "unat (of_nat i :: u64) = i" using i unat_u16 [of "e_phnum ?h"] by (intro unat_of_nat_below) simp
  have uz: "unat (ucast (e_phentsize ?h) :: u64) = ?z" by (simp add: unat_ucast_16)
  have m: "checked_mul (of_nat i) (ucast (e_phentsize ?h)) = Some (of_nat i * ucast (e_phentsize ?h) :: u64)"
    "unat (of_nat i * ucast (e_phentsize ?h) :: u64) = i * ?z"
    using b lt by (auto simp: checked_mul_unat_def unat_word_ariths ui uz)
  have a: "checked_add (e_phoff ?h) (of_nat i * ucast (e_phentsize ?h)) = Some (e_phoff ?h + of_nat i * ucast (e_phentsize ?h))"
    "unat (e_phoff ?h + of_nat i * ucast (e_phentsize ?h)) = ?o + i * ?z"
    using b lt by (auto simp: checked_add_unat_def unat_add_exact m(2))
  show ?thesis using m(1) a fit b L(2) by (simp add: phdr_at_def L(1) prog_header_def)
qed

lemma load_segments_ok:
  fixes s :: "'a kmem_scheme"
  assumes "space_ok a s" and "\<forall>i\<in>set is. phdr_at l i = Some (P i) \<and> below_top (P i)" and "distinct is"
    and n: "length (el_data l) < 2 ^ 63" and "length (page_owners s) + (\<Sum>i\<leftarrow>is. seg_pages (P i)) \<le> owners_capacity s"
  shows "\<exists>r a' s'. load_segments l is a s = Some (r, a', s') \<and> space_ok a' s' \<and> as_page_table a' = as_page_table a \<and>
    pages_kept (as_page_table a) s s' \<and>
    (if r = Inr () then
       (\<forall>i\<in>set is. (loadable (P i) \<longrightarrow> file_part_ok (el_data l) (P i)) \<and>
          segment_loaded (as_page_table a) s' (el_data l) (P i) \<and>
          (\<forall>x. in_segment (P i) x \<longrightarrow> area_at (as_vmas a) x = None \<and>
                area_at (as_vmas a') x = Some (pflags_to_vma (p_flags (P i)), Anonymous))) \<and>
       (\<forall>x. (\<forall>i\<in>set is. \<not> in_segment (P i) x) \<longrightarrow> area_at (as_vmas a') x = area_at (as_vmas a) x)
     else avail s' = {} \<or> (\<exists>i\<in>set is. loadable (P i) \<and> (\<not> file_part_ok (el_data l) (P i) \<or>
       (\<exists>x. in_segment (P i) x \<and> (area_at (as_vmas a) x \<noteq> None \<or> (\<exists>j\<in>set is. j \<noteq> i \<and> in_segment (P j) x))))))"
  using assms(1,2,3,5)
proof (induction "is" arbitrary: a s)
  case Nil
  then show ?case by (simp add: pages_kept_simps)
next
  case (Cons i "is")
  let ?root = "as_page_table a" and ?d = "el_data l"
  have at: "phdr_at l i = Some (P i)" and top: "below_top (P i)" using Cons.prems(2) by auto
  have cap: "length (page_owners s) + seg_pages (P i) \<le> owners_capacity s" using Cons.prems(4) by simp
  obtain r a1 s1 where S: "load_segment ?d (P i) a s = Some (r, a1, s1)" "space_ok a1 s1" "as_page_table a1 = ?root"
    "pages_kept ?root s s1" "length (page_owners s1) \<le> length (page_owners s) + seg_pages (P i)"
    "if r = Inr () then
       (loadable (P i) \<longrightarrow> file_part_ok ?d (P i)) \<and> segment_loaded ?root s1 ?d (P i) \<and>
       (\<forall>x. in_segment (P i) x \<longrightarrow> area_at (as_vmas a) x = None) \<and>
       area_at (as_vmas a1) =
         (\<lambda>x. if in_segment (P i) x then Some (pflags_to_vma (p_flags (P i)), Anonymous) else area_at (as_vmas a) x)
     else loadable (P i) \<and>
       (\<not> file_part_ok ?d (P i) \<or> avail s1 = {} \<or> (\<exists>x. in_segment (P i) x \<and> area_at (as_vmas a) x \<noteq> None))"
    using load_segment_ok [OF Cons.prems(1) top n cap] by blast
  show ?case
  proof (cases r)
    case (Inl e)
    have "load_segments l (i # is) a s = Some (Inl e, a1, s1)" using at S(1) Inl by simp
    then show ?thesis using S(2-4,6) Inl by auto
  next
    case (Inr u)
    then have R: "loadable (P i) \<longrightarrow> file_part_ok ?d (P i)" "segment_loaded ?root s1 ?d (P i)"
      "\<And>x. in_segment (P i) x \<Longrightarrow> area_at (as_vmas a) x = None"
      "\<And>x. area_at (as_vmas a1) x =
         (if in_segment (P i) x then Some (pflags_to_vma (p_flags (P i)), Anonymous) else area_at (as_vmas a) x)"
      using S(6) by auto
    have cap1: "length (page_owners s1) + (\<Sum>i\<leftarrow>is. seg_pages (P i)) \<le> owners_capacity s1"
      using Cons.prems(4) S(4,5) by (simp add: pages_kept_def)
    have pre: "\<forall>i\<in>set is. phdr_at l i = Some (P i) \<and> below_top (P i)" "distinct is" "i \<notin> set is" using Cons.prems(2,3) by auto
    obtain r' a' s' where I: "load_segments l is a1 s1 = Some (r', a', s')" "space_ok a' s'" "as_page_table a' = ?root"
      "pages_kept ?root s1 s'"
      "if r' = Inr () then
       (\<forall>i\<in>set is. (loadable (P i) \<longrightarrow> file_part_ok ?d (P i)) \<and> segment_loaded ?root s' ?d (P i) \<and>
          (\<forall>x. in_segment (P i) x \<longrightarrow> area_at (as_vmas a1) x = None \<and>
                area_at (as_vmas a') x = Some (pflags_to_vma (p_flags (P i)), Anonymous))) \<and>
       (\<forall>x. (\<forall>i\<in>set is. \<not> in_segment (P i) x) \<longrightarrow> area_at (as_vmas a') x = area_at (as_vmas a1) x)
     else avail s' = {} \<or> (\<exists>i\<in>set is. loadable (P i) \<and> (\<not> file_part_ok ?d (P i) \<or>
       (\<exists>x. in_segment (P i) x \<and> (area_at (as_vmas a1) x \<noteq> None \<or> (\<exists>j\<in>set is. j \<noteq> i \<and> in_segment (P j) x)))))"
      using Cons.IH [OF S(2) pre(1,2) cap1] unfolding S(3) by blast
    have run: "load_segments l (i # is) a s = Some (r', a', s')" using at S(1) Inr I(1) by simp
    have keep: "pages_kept ?root s s'" by (rule pages_kept_simps(2) [OF S(4) I(4)])
    show ?thesis
    proof (cases "r' = Inr ()")
      case True
      then have J: "\<forall>i\<in>set is. (loadable (P i) \<longrightarrow> file_part_ok ?d (P i)) \<and> segment_loaded ?root s' ?d (P i) \<and>
          (\<forall>x. in_segment (P i) x \<longrightarrow> area_at (as_vmas a1) x = None \<and>
                area_at (as_vmas a') x = Some (pflags_to_vma (p_flags (P i)), Anonymous))"
        "\<forall>x. (\<forall>i\<in>set is. \<not> in_segment (P i) x) \<longrightarrow> area_at (as_vmas a') x = area_at (as_vmas a1) x"
        using I(5) by auto
      have dj: "\<not> in_segment (P i) x \<and> area_at (as_vmas a) x = None" if "j \<in> set is" "in_segment (P j) x" for j x
        using J(1) R(4) [of x] that by (auto split: if_splits)
      have "area_at (as_vmas a') x = Some (pflags_to_vma (p_flags (P i)), Anonymous)" if "in_segment (P i) x" for x
      proof -
        have "\<forall>j\<in>set is. \<not> in_segment (P j) x" using dj that by blast
        then show ?thesis using J(2) R(4) that by simp
      qed
      then show ?thesis using run keep I(2,3) True R(1,3) J dj segment_loaded_kept [OF R(2) I(4)] R(4) by simp
    next
      case False
      then have "avail s' = {} \<or> (\<exists>k\<in>set is. loadable (P k) \<and> (\<not> file_part_ok ?d (P k) \<or>
       (\<exists>x. in_segment (P k) x \<and> (area_at (as_vmas a1) x \<noteq> None \<or> (\<exists>j\<in>set is. j \<noteq> k \<and> in_segment (P j) x)))))"
        using I(5) by simp
      moreover have "in_segment (P i) x \<or> area_at (as_vmas a) x \<noteq> None" if "area_at (as_vmas a1) x \<noteq> None" for x
        using R(4) [of x] that by (simp split: if_splits)
      ultimately have "avail s' = {} \<or> (\<exists>k\<in>insert i (set is). loadable (P k) \<and> (\<not> file_part_ok ?d (P k) \<or>
       (\<exists>x. in_segment (P k) x \<and> (area_at (as_vmas a) x \<noteq> None \<or> (\<exists>j\<in>insert i (set is). j \<noteq> k \<and> in_segment (P j) x)))))"
        using pre(3) by (elim disjE bexE conjE exE) (metis insertCI)+
      then show ?thesis using run keep I(2,3) False by simp
    qed
  qed
qed


text \<open>
  The hypothesis on the segments is needed: a segment whose end does not fit 64 bits is not refused, the addition
  overflows and the kernel panics.
\<close>

lemma load_segment_overflow:
  assumes "loadable ph" and "file_part_ok data ph" and "length data < 2 ^ 63" and "2 ^ 64 \<le> unat (p_vaddr ph) + unat (p_memsz ph)"
  shows "load_segment data ph a s = None"
proof -
  have "\<exists>x. checked_add (p_offset ph) (p_filesz ph) = Some x \<and> \<not> length data < unat x"
    using assms(2,3) by (simp add: file_part_ok_def checked_add_unat_def unat_add_exact)
  then show ?thesis using assms(1,4) by (auto simp: load_segment_def loadable_def checked_add_unat_def [of "p_vaddr ph"])
qed

section \<open>Witnesses\<close>

text \<open>A program with one segment of four bytes in the file and eight in memory.\<close>

definition demo_elf :: bytes where
  "demo_elf =
     [0x7F, 0x45, 0x4C, 0x46, 2, 1, 1, 0, 0, 0, 0, 0, 0, 0, 0, 0,
      2, 0, 62, 0, 1, 0, 0, 0, 0x78, 0, 0x50, 0, 0, 0, 0, 0, 64, 0, 0, 0, 0, 0, 0, 0,
      0, 0, 0, 0, 0, 0, 0, 0, 0, 0, 0, 0, 64, 0, 56, 0, 1, 0, 0, 0, 0, 0, 0, 0,
      1, 0, 0, 0, 5, 0, 0, 0, 0x78, 0, 0, 0, 0, 0, 0, 0, 0x78, 0, 0x50, 0, 0, 0, 0, 0,
      0x78, 0, 0x50, 0, 0, 0, 0, 0, 4, 0, 0, 0, 0, 0, 0, 0, 8, 0, 0, 0, 0, 0, 0, 0, 0, 16, 0, 0, 0, 0, 0, 0,
      0x90, 0x90, 0xEB, 0xFC]"

lemma demo_elf_header: "unat (e_phnum (ehdr_of demo_elf)) = 1" by code_simp

lemma demo_elf_segment:
  "prog_header demo_elf 0 =
     \<lparr>p_type = PT_LOAD, p_flags = 5, p_offset = 0x78, p_vaddr = 0x500078, p_paddr = 0x500078,
      p_filesz = 4, p_memsz = 8, p_align = 0x1000\<rparr>"
  by code_simp

lemma demo_elf_runs: "map_option fst (load_elf demo_elf demo_space demo_kmem) = Some (Inr 0x500078)"
  by code_simp


end
