(* ===== verification/User_Memory.thy ===== *)
theory User_Memory
  imports Processes Paging_Spec
begin

text \<open>
  How the kernel touches user memory. System calls dereference user pointers directly: an access goes
  through the loaded page table, a missing page raises a page fault (\<^verbatim>\<open>page_fault_inner\<close> of
  \<^verbatim>\<open>src/kernel/src/interrupts.rs\<close>) that either maps the page or kills the process, and a bad kernel address
  panics. The second way, \<^verbatim>\<open>write_to_user\<close> of \<^verbatim>\<open>syscall.rs\<close>, looks pages up in software and fails instead of
  faulting.
\<close>

section \<open>Register frame\<close>

record SyscallFrame =
  fr_r15 :: u64
  fr_r14 :: u64
  fr_r13 :: u64
  fr_r12 :: u64
  fr_rbp :: u64
  fr_rbx :: u64
  fr_r9 :: u64
  fr_r8 :: u64
  fr_r10 :: u64
  fr_rdx :: u64
  fr_rsi :: u64
  fr_rdi :: u64
  fr_rax :: u64
  fr_user_rsp :: u64
  fr_r11 :: u64
  fr_rcx :: u64

section \<open>Page faults\<close>

datatype fault_result = Resolved | Killed switch

fun close_all :: "nat list \<Rightarrow> Process \<Rightarrow> io_store \<Rightarrow> Process \<times> io_store" where
  "close_all [] p io = (p, io)"
| "close_all (fd # fds) p io =
     (let (_, t, io) = fd_close (p_fds p) fd io in close_all fds (p\<lparr>p_fds := t\<rparr>) io)"

definition page_fault_inner :: "u64 \<Rightarrow> 'a kernel_scheme \<Rightarrow> (fault_result \<times> 'a kernel_scheme) option" where
  "page_fault_inner fault_addr k =
     (if 0xffff800000000000 \<le> fault_addr then None
      else do {
        cur \<leftarrow> current_mut (k_sched k);
        let current_alive = (case cur of None \<Rightarrow> False | Some p \<Rightarrow> p_state p \<noteq> Dead);
        (result, k) \<leftarrow>
          (if current_alive then
             (case cur of
                Some p \<Rightarrow> handle_page_fault (p_space p) fault_addr k
              | None \<Rightarrow> Some (Inl ''no current process'', k))
           else
             (case k_space k of
                Some space \<Rightarrow> handle_page_fault space fault_addr k
              | None \<Rightarrow> Some (Inl ''AddressSpace not initialized'', k)));
        (case result of
           Inr _ \<Rightarrow> Some (Resolved, k)
         | Inl _ \<Rightarrow> do {
             cur \<leftarrow> current_mut (k_sched k);
             p \<leftarrow> cur;
             if p_state p = Dead then None
             else do {
               let (p, io) = close_all [0..<FD_MAX] (p\<lparr>p_state := Dead\<rparr>) (k_io k);
               (sw, k) \<leftarrow> schedule (set_current p (k\<lparr>k_io := io\<rparr>));
               Some (Killed sw, k)
             }
           })
      })"

section \<open>Direct access\<close>

text \<open>
  The physical address behind a virtual one, for an access by kernel code. An address that is not canonical
  raises a general protection fault, which panics; a write to a page that is not writable, when the processor checks
  write protection in the kernel (\<^verbatim>\<open>CR0.WP\<close>), faults for ever because the handler finds the page mapped. When the
  fault handler kills the process the access does not come back.
\<close>

definition may_write :: "u64 \<Rightarrow> u64 \<Rightarrow> 'a machine_scheme \<Rightarrow> bool" where
  "may_write root v s =
     (case page_leaf root v s of None \<Rightarrow> False | Some (n, e) \<Rightarrow> flags_contain (pte_flags e) PF_WRITABLE)"

definition access_page :: "bool \<Rightarrow> u64 \<Rightarrow> 'a kernel_scheme \<Rightarrow> u64 option" where
  "access_page wr v k = do {
     t \<leftarrow> translate (k_cr3 k) v k;
     phys \<leftarrow> t;
     if wr \<and> k_write_protect k \<and> \<not> may_write (k_cr3 k) v k then None else Some phys
   }"

definition touch :: "bool \<Rightarrow> u64 \<Rightarrow> 'a kernel_scheme \<Rightarrow> (u64 \<times> 'a kernel_scheme) option" where
  "touch wr v k =
     (if 0x0000800000000000 \<le> v \<and> v < 0xffff800000000000 then None
      else do {
        t \<leftarrow> translate (k_cr3 k) v k;
        k \<leftarrow> (case t of
                Some _ \<Rightarrow> Some k
              | None \<Rightarrow> do {
                  (r, k) \<leftarrow> page_fault_inner v k;
                  (case r of Resolved \<Rightarrow> Some k | Killed _ \<Rightarrow> None)
                });
        phys \<leftarrow> access_page wr v k;
        Some (phys, k)
      })"

definition load_byte :: "u64 \<Rightarrow> 'a kernel_scheme \<Rightarrow> (u8 \<times> 'a kernel_scheme) option" where
  "load_byte v k = do { (phys, k) \<leftarrow> touch False v k; Some (ram k phys, k) }"

definition store_byte :: "u64 \<Rightarrow> u8 \<Rightarrow> 'a kernel_scheme \<Rightarrow> 'a kernel_scheme option" where
  "store_byte v b k = do { (phys, k) \<leftarrow> touch True v k; Some (k\<lparr>ram := (ram k)(phys := b)\<rparr>) }"

fun load_user :: "u64 \<Rightarrow> nat \<Rightarrow> 'a kernel_scheme \<Rightarrow> (bytes \<times> 'a kernel_scheme) option" where
  "load_user v 0 k = Some ([], k)"
| "load_user v (Suc n) k = do {
     (b, k) \<leftarrow> load_byte v k;
     (bs, k) \<leftarrow> load_user (v + 1) n k;
     Some (b # bs, k)
   }"

fun store_user :: "u64 \<Rightarrow> bytes \<Rightarrow> 'a kernel_scheme \<Rightarrow> 'a kernel_scheme option" where
  "store_user v [] k = Some k"
| "store_user v (b # bs) k = do { k \<leftarrow> store_byte v b k; store_user (v + 1) bs k }"

definition load_user64 :: "u64 \<Rightarrow> 'a kernel_scheme \<Rightarrow> (u64 \<times> 'a kernel_scheme) option" where
  "load_user64 v k = (if v AND 7 \<noteq> 0 then None else do { (bs, k) \<leftarrow> load_user v 8 k; Some (le_word bs, k) })"

text \<open>
  The checks of a debug build: \<^verbatim>\<open>slice::from_raw_parts\<close> panics for a null pointer and for more than
  \<^verbatim>\<open>isize::MAX\<close> bytes, and reading a \<^verbatim>\<open>u64\<close> through a misaligned pointer panics.
\<close>

definition raw_slice :: "u64 \<Rightarrow> u64 \<Rightarrow> unit option" where
  "raw_slice ptr len = (if ptr = 0 \<or> 0x8000000000000000 \<le> len then None else Some ())"

section \<open>Strings\<close>

text \<open>\<^verbatim>\<open>s.push(b as char)\<close>: the character with that number, in UTF-8.\<close>

definition char_bytes :: "u8 \<Rightarrow> bytes" where
  "char_bytes b = (if b < 0x80 then [b] else [0xC0 OR drop_bit 6 b, 0x80 OR (b AND 0x3F)])"

fun read_cstr_loop :: "u64 \<Rightarrow> nat \<Rightarrow> string \<Rightarrow> 'a kernel_scheme \<Rightarrow> (string option \<times> 'a kernel_scheme) option" where
  "read_cstr_loop ptr 0 s k = Some (None, k)"
| "read_cstr_loop ptr (Suc n) s k = do {
     (b, k) \<leftarrow> load_byte ptr k;
     if b = 0 then Some (Some s, k)
     else read_cstr_loop (ptr + 1) n (s @ of_bytes (char_bytes b)) k
   }"

definition read_user_cstr :: "u64 \<Rightarrow> nat \<Rightarrow> 'a kernel_scheme \<Rightarrow> (string option \<times> 'a kernel_scheme) option" where
  "read_user_cstr ptr max' k = (if ptr = 0 then Some (None, k) else read_cstr_loop ptr max' [] k)"

fun read_cstr_array_loop ::
    "u64 \<Rightarrow> nat \<Rightarrow> string list \<Rightarrow> 'a kernel_scheme \<Rightarrow> (string list \<times> 'a kernel_scheme) option" where
  "read_cstr_array_loop ptr 0 vec k = Some (vec, k)"
| "read_cstr_array_loop ptr (Suc n) vec k = do {
     (entry_ptr, k) \<leftarrow> load_user64 ptr k;
     if entry_ptr = 0 then Some (vec, k)
     else do {
       (s, k) \<leftarrow> read_user_cstr entry_ptr 256 k;
       (case s of
          None \<Rightarrow> Some (vec, k)
        | Some s \<Rightarrow> read_cstr_array_loop (ptr + 8) n (vec @ [s]) k)
     }
   }"

definition read_user_cstr_array :: "u64 \<Rightarrow> nat \<Rightarrow> 'a kernel_scheme \<Rightarrow> (string list \<times> 'a kernel_scheme) option" where
  "read_user_cstr_array ptr max_items k =
     (if ptr = 0 then Some ([], k) else read_cstr_array_loop ptr max_items [] k)"

section \<open>Access through the page table in software\<close>

function write_to_user_via_pt :: "u64 \<Rightarrow> u64 \<Rightarrow> bytes \<Rightarrow> 'a machine_scheme \<Rightarrow> (bool \<times> 'a machine_scheme) option" where
  "write_to_user_via_pt pt vaddr data s =
     (if data = [] then Some (True, s)
      else do {
        let page = vaddr AND NOT 0xFFF;
        let off = unat (vaddr AND 0xFFF);
        t \<leftarrow> translate pt page s;
        (case t of
           None \<Rightarrow> Some (False, s)
         | Some phys \<Rightarrow> do {
             hh \<leftarrow> phys_to_virt phys;
             let avail = min (0x1000 - off) (length data);
             dst \<leftarrow> checked_add hh (of_nat off);
             let s = s\<lparr>ram := store_bytes (ram s) (deref_phys dst) (take avail data)\<rparr>;
             if avail < length data then do {
               next \<leftarrow> checked_add vaddr (of_nat avail);
               write_to_user_via_pt pt next (drop avail data) s
             }
             else Some (True, s)
           })
      })"
  by pat_completeness auto
termination
proof (relation "measure (\<lambda>(pt, vaddr, data, s). length data)", goal_cases)
  case (2 pt vaddr data s page off t phys hh avail dst s' nxt)
  have avail: "avail = min (0x1000 - off) (length data)" and off: "off = unat (vaddr AND 0xFFF)" and "data \<noteq> []"
    by (rule 2)+
  have "vaddr AND 0xFFF \<le> 0xFFF" by (rule word_and_le1)
  then have "unat (vaddr AND 0xFFF) \<le> unat (0xFFF :: u64)" by (rule word_le_nat_alt [THEN iffD1])
  then have "0 < avail" using \<open>data \<noteq> []\<close> avail off by simp
  then show ?case using \<open>data \<noteq> []\<close> by simp
qed simp

declare write_to_user_via_pt.simps [simp del]

definition write_to_user :: "u64 \<Rightarrow> bytes \<Rightarrow> 'a kernel_scheme \<Rightarrow> (bool \<times> 'a kernel_scheme) option" where
  "write_to_user vaddr data k =
     (case current (k_sched k) of
        None \<Rightarrow> Some (False, k)
      | Some p \<Rightarrow> write_to_user_via_pt (as_page_table (p_space p)) vaddr data k)"

end
