(* ===== verification/Process_Setup.thy ===== *)
theory Process_Setup
  imports User_Memory Elf
begin

text \<open>
  Making processes (\<^verbatim>\<open>src/kernel/src/process.rs\<close>): kernel threads, user processes with their stacks, and copies of a
  process made by \<^verbatim>\<open>fork\<close>; and the initial stack of a program (\<^verbatim>\<open>build_argv_envp_stack\<close> of \<^verbatim>\<open>syscall.rs\<close>). The
  addresses of the assembly entry points and the selectors of the user segments, which the \<^verbatim>\<open>x86_64\<close> crate hands out,
  are parameters.
\<close>

section \<open>Small pieces\<close>

text \<open>The time stamp counter: the values it will show, and 0 once they are used up.\<close>

definition rdtsc :: "'a kernel_scheme \<Rightarrow> u64 \<times> 'a kernel_scheme" where
  "rdtsc k = (case k_tsc k of [] \<Rightarrow> (0, k) | t # ts \<Rightarrow> (t, k\<lparr>k_tsc := ts\<rparr>))"

text \<open>A store through a kernel pointer.\<close>

definition poke64 :: "u64 \<Rightarrow> u64 \<Rightarrow> 'a machine_scheme \<Rightarrow> 'a machine_scheme" where
  "poke64 ptr val s = s\<lparr>ram := write64 (ram s) (deref_phys ptr) val\<rparr>"

definition clear_mem :: "u64 \<Rightarrow> nat \<Rightarrow> 'a machine_scheme \<Rightarrow> 'a machine_scheme" where
  "clear_mem ptr len s = s\<lparr>ram := write_bytes (ram s) (deref_phys ptr) 0 len\<rparr>"

definition USTACK_FLAGS :: u64 where
  "USTACK_FLAGS = PF_PRESENT OR PF_WRITABLE OR PF_USER OR PF_NO_EXEC"

text \<open>The loop that gives a process its stack pages; \<^verbatim>\<open>?\<close> leaves it with nothing.\<close>

fun map_stack_loop ::
    "Pid \<Rightarrow> u64 \<Rightarrow> u64 \<Rightarrow> nat list \<Rightarrow> 'a kmem_scheme \<Rightarrow> (unit option \<times> 'a kmem_scheme) option" where
  "map_stack_loop pid root ustack_base [] s = Some (Some (), s)"
| "map_stack_loop pid root ustack_base (i # is) s = do {
     off \<leftarrow> checked_mul (of_nat i) 0x1000;
     page_virt \<leftarrow> checked_add ustack_base off;
     (page, s) \<leftarrow> alloc_page BuddyPages s;
     (case page of
        None \<Rightarrow> Some (None, s)
      | Some (_, phys) \<Rightarrow> do {
          s \<leftarrow> track phys 0 ''proc:stack'' pid s;
          (r, s) \<leftarrow> map_4kb BuddyPages root page_virt phys USTACK_FLAGS s;
          (case r of
             None \<Rightarrow> Some (None, s)
           | Some _ \<Rightarrow> map_stack_loop pid root ustack_base is s)
        })
   }"

text \<open>The frame that \<^verbatim>\<open>iretq\<close> takes into user mode, with the address of the trampoline below it.\<close>

definition iret_frame :: "u64 \<Rightarrow> u16 \<times> u16 \<Rightarrow> u64 \<Rightarrow> u64 \<Rightarrow> u64 \<Rightarrow> 'a machine_scheme \<Rightarrow> 'a machine_scheme" where
  "iret_frame trampoline sel kstack_top rsp entry_point s =
     (let (user_cs, user_ss) = sel
      in poke64 (kstack_top - 48) trampoline
        (poke64 (kstack_top - 40) entry_point
          (poke64 (kstack_top - 32) (ucast user_cs)
            (poke64 (kstack_top - 24) 0x202
              (poke64 (kstack_top - 16) rsp
                (poke64 (kstack_top - 8) (ucast user_ss) s))))))"

section \<open>Kernel threads and user processes\<close>

definition new_kernel ::
    "Pid \<Rightarrow> u64 \<Rightarrow> u64 \<Rightarrow> u64 \<Rightarrow> nat \<Rightarrow> 'a kernel_scheme \<Rightarrow> (Process \<times> 'a kernel_scheme) option" where
  "new_kernel pid entry_point kernel_pml4 stack stack_len k = do {
     stack_top \<leftarrow> checked_add stack (of_nat stack_len);
     virt_entry \<leftarrow> ensure_virt entry_point;
     slot \<leftarrow> checked_sub stack_top 8;
     let k = poke64 slot virt_entry (clear_mem stack stack_len k);
     let (fds, io) = new_stdio (k_io k);
     Some (\<lparr>p_pid = pid, p_parent_pid = 0, p_state = Ready, p_exit_code = 0,
            p_context = Context_zero\<lparr>ctx_rsp := slot\<rparr>, p_kernel_stack_alloc = None, p_kernel_stack_top = stack_top,
            p_space = AddressSpace_new kernel_pml4 0, p_fds = fds, p_fs_base = 0, p_brk_start = 0, p_brk_current = 0,
            p_cwd = ''/''\<rparr>, k\<lparr>k_io := io\<rparr>)
   }"

definition new_with_static_stack ::
    "Pid \<Rightarrow> u64 \<Rightarrow> u64 \<Rightarrow> u64 \<Rightarrow> nat \<Rightarrow> 'a kernel_scheme \<Rightarrow> (Process \<times> 'a kernel_scheme) option" where
  "new_with_static_stack pid entry_point kernel_pml4 stack stack_len k =
     new_kernel pid entry_point kernel_pml4 stack stack_len k"

text \<open>The last part of both constructors of user processes.\<close>

definition user_process ::
    "u64 \<Rightarrow> u16 \<times> u16 \<Rightarrow> Pid \<Rightarrow> u64 \<Rightarrow> u64 \<Rightarrow> nat \<Rightarrow> (u64 \<times> nat) option \<Rightarrow> u64 \<Rightarrow> AddressSpace \<Rightarrow> u64 \<Rightarrow> 'a kernel_scheme \<Rightarrow>
      (Process \<times> 'a kernel_scheme) option" where
  "user_process trampoline sel pid entry_point kstack kstack_len kstack_alloc rsp space fs_base k = do {
     kstack_top \<leftarrow> checked_add kstack (of_nat kstack_len);
     let k = iret_frame trampoline sel kstack_top rsp entry_point (clear_mem kstack kstack_len k);
     ctx_sp \<leftarrow> checked_sub kstack_top 48;
     let (fds, io) = new_stdio (k_io k);
     Some (\<lparr>p_pid = pid, p_parent_pid = 0, p_state = Ready, p_exit_code = 0,
            p_context = Context_zero\<lparr>ctx_rsp := ctx_sp\<rparr>, p_kernel_stack_alloc = kstack_alloc,
            p_kernel_stack_top = kstack_top, p_space = space, p_fds = fds, p_fs_base = fs_base, p_brk_start = 0,
            p_brk_current = 0, p_cwd = ''/''\<rparr>, k\<lparr>k_io := io\<rparr>)
   }"

definition new_user ::
    "u64 \<Rightarrow> u16 \<times> u16 \<Rightarrow> Pid \<Rightarrow> u64 \<Rightarrow> u64 \<Rightarrow> u64 \<Rightarrow> nat \<Rightarrow> u64 \<Rightarrow> nat \<Rightarrow> 'a kernel_scheme \<Rightarrow>
      (Process option \<times> 'a kernel_scheme) option" where
  "new_user trampoline sel pid entry_point kernel_pml4 kstack kstack_len ustack_virt ustack_pages k = do {
     (pt, k) \<leftarrow> PageTableManager_new_user kernel_pml4 BuddyPages pid k;
     (case pt of None \<Rightarrow> Some (None, k) | Some pt \<Rightarrow> do {
       stack_len \<leftarrow> checked_mul (of_nat ustack_pages) 0x1000;
       (case checked_sub ustack_virt stack_len of None \<Rightarrow> Some (None, k) | Some ustack_base \<Rightarrow> do {
         (r, k) \<leftarrow> map_stack_loop pid pt ustack_base [0..<ustack_pages] k;
         (case r of None \<Rightarrow> Some (None, k) | Some _ \<Rightarrow> do {
           (p, k) \<leftarrow> user_process trampoline sel pid entry_point kstack kstack_len None ustack_virt (AddressSpace_new pt pid) 0 k;
           Some (Some p, k)
         })
       })
     })
   }"

section \<open>The initial stack of a program\<close>

text \<open>\<^verbatim>\<open>write_bytes_via_pt\<close> differs from \<^verbatim>\<open>write_to_user_via_pt\<close> only in panicking on a page that is not mapped.\<close>

definition write_bytes_via_pt :: "u64 \<Rightarrow> u64 \<Rightarrow> bytes \<Rightarrow> 'a machine_scheme \<Rightarrow> 'a machine_scheme option" where
  "write_bytes_via_pt pt vaddr data s = do {
     (ok, s) \<leftarrow> write_to_user_via_pt pt vaddr data s;
     if ok then Some s else None
   }"

definition stack_push :: "u64 \<Rightarrow> u64 \<Rightarrow> u64 \<times> 'a machine_scheme \<Rightarrow> (u64 \<times> 'a machine_scheme) option" where
  "stack_push pt val st = do {
     let (addr, s) = st;
     vaddr \<leftarrow> checked_sub addr 8;
     t \<leftarrow> translate pt (vaddr AND NOT 0xFFF) s;
     phys \<leftarrow> t;
     hh \<leftarrow> phys_to_virt phys;
     ptr \<leftarrow> checked_add hh (vaddr AND 0xFFF);
     Some (vaddr, poke64 ptr val s)
   }"

text \<open>The strings go below the top, each with its final zero; their addresses are collected.\<close>

fun push_strings ::
    "u64 \<Rightarrow> string list \<Rightarrow> u64 \<Rightarrow> u64 list \<Rightarrow> 'a machine_scheme \<Rightarrow> (u64 \<times> u64 list \<times> 'a machine_scheme) option" where
  "push_strings pt [] addr ptrs s = Some (addr, ptrs, s)"
| "push_strings pt (str # strs) addr ptrs s = do {
     let bs = as_bytes str;
     addr \<leftarrow> checked_sub addr (of_nat (length bs + 1));
     s \<leftarrow> write_bytes_via_pt pt addr bs s;
     nul \<leftarrow> checked_add addr (of_nat (length bs));
     s \<leftarrow> write_bytes_via_pt pt nul [0] s;
     push_strings pt strs addr (ptrs @ [addr]) s
   }"

definition xorshift :: "u64 \<Rightarrow> u64" where
  "xorshift x =
     (let x = x XOR push_bit 13 x;
          x = x XOR drop_bit 7 x
      in x XOR push_bit 17 x)"

definition at_random_bytes :: "u64 \<Rightarrow> u64 \<Rightarrow> bytes" where
  "at_random_bytes tsc1 tsc2 =
     to_le_bytes 8 (xorshift (tsc1 XOR push_bit 17 tsc2 XOR drop_bit 13 tsc2)) @
     to_le_bytes 8 (xorshift (tsc2 XOR push_bit 31 tsc1 XOR drop_bit 5 tsc1))"

definition auxv_entries :: "u64 \<Rightarrow> u64 \<Rightarrow> u64 \<Rightarrow> u64 \<Rightarrow> u64 \<Rightarrow> (u64 \<times> u64) list" where
  "auxv_entries elf_entry elf_phdr_vaddr elf_phent elf_phnum at_random_ptr =
     [(3, elf_phdr_vaddr), (4, elf_phent), (5, elf_phnum), (6, 4096), (7, 0), (8, 0), (9, elf_entry),
      (11, 0), (12, 0), (13, 0), (14, 0), (23, 0), (25, at_random_ptr), (33, 0), (0, 0)]"

text \<open>The words below the strings, from the highest address down.\<close>

definition stack_words :: "(u64 \<times> u64) list \<Rightarrow> u64 list \<Rightarrow> u64 list \<Rightarrow> u64 list" where
  "stack_words auxv argv_ptrs envp_ptrs =
     concat (map (\<lambda>(tag, val). [val, tag]) (rev auxv)) @ [0] @ rev envp_ptrs @ [0] @ rev argv_ptrs @
     [of_nat (length argv_ptrs)]"

definition build_argv_envp_stack ::
    "u64 \<Rightarrow> u64 \<Rightarrow> string list \<Rightarrow> string list \<Rightarrow> u64 \<Rightarrow> u64 \<Rightarrow> u64 \<Rightarrow> u64 \<Rightarrow> 'a kernel_scheme \<Rightarrow>
      (u64 \<times> bytes \<times> 'a kernel_scheme) option" where
  "build_argv_envp_stack ustack_top pt argv envp elf_entry elf_phdr_vaddr elf_phent elf_phnum k = do {
     (addr, envp_ptrs, k) \<leftarrow> push_strings pt envp ustack_top [] k;
     (addr, argv_ptrs, k) \<leftarrow> push_strings pt argv addr [] k;
     let (tsc1, k) = rdtsc k;
     let (tsc2, k) = rdtsc k;
     let at_random = at_random_bytes tsc1 tsc2;
     addr \<leftarrow> checked_sub addr 16;
     k \<leftarrow> write_bytes_via_pt pt addr at_random k;
     let auxv = auxv_entries elf_entry elf_phdr_vaddr elf_phent elf_phnum addr;
     let addr = addr AND NOT 0xF;
     let total_words = 1 + length argv + 1 + length envp + 1 + length auxv * 2;
     addr \<leftarrow> (if total_words mod 2 \<noteq> 0 then checked_sub addr 8 else Some addr);
     (addr, k) \<leftarrow> for_each (stack_push pt) (stack_words auxv argv_ptrs envp_ptrs) (addr, k);
     Some (addr, at_random, k)
   }"

text \<open>The page with the thread control block that a program starts with.\<close>

definition TCB_PAGE :: u64 where "TCB_PAGE = 0x7fff1000"

definition TCB_FS_BASE :: u64 where "TCB_FS_BASE = TCB_PAGE + 0x20"

definition add_vma_ok :: "VMA \<Rightarrow> AddressSpace \<Rightarrow> AddressSpace" where
  "add_vma_ok v a = (case add_vma (as_vmas a) v of Inl _ \<Rightarrow> a | Inr vmas \<Rightarrow> a\<lparr>as_vmas := vmas\<rparr>)"

definition initial_tcb :: "AddressSpace \<Rightarrow> 'a kernel_scheme \<Rightarrow> (AddressSpace \<times> 'a kernel_scheme) option" where
  "initial_tcb a k = do {
     (page, k) \<leftarrow> alloc_page BuddyPages k;
     (case page of
        None \<Rightarrow> Some (a, k)
      | Some (_, tcb_phys) \<Rightarrow> do {
          virt \<leftarrow> phys_to_virt tcb_phys;
          let k = clear_mem virt 0x1000 k;
          (_, k) \<leftarrow> map_4kb BuddyPages (as_page_table a) TCB_PAGE tcb_phys USTACK_FLAGS k;
          let a = add_vma_ok (VMA_new TCB_PAGE (TCB_PAGE + 0x1000) VMAFlags_rw Anonymous) a;
          let off = TCB_FS_BASE AND 0xFFF;
          p0 \<leftarrow> checked_add virt off;
          p1 \<leftarrow> checked_add p0 0x10;
          Some (a, poke64 p1 TCB_FS_BASE (poke64 p0 TCB_FS_BASE k))
        })
   }"

definition new_user_with_address_space ::
    "u64 \<Rightarrow> u16 \<times> u16 \<Rightarrow> Pid \<Rightarrow> u64 \<Rightarrow> u64 \<Rightarrow> nat \<Rightarrow> (u64 \<times> nat) option \<Rightarrow> u64 \<Rightarrow> nat \<Rightarrow> string list \<Rightarrow> string list \<Rightarrow>
      u64 \<Rightarrow> u64 \<Rightarrow> u64 \<Rightarrow> u64 \<Rightarrow> AddressSpace \<Rightarrow> 'a kernel_scheme \<Rightarrow> (Process option \<times> 'a kernel_scheme) option" where
  "new_user_with_address_space trampoline sel pid entry_point kstack kstack_len kstack_alloc ustack_virt ustack_pages
     argv envp elf_entry elf_phdr_vaddr elf_phent elf_phnum a k = do {
     stack_len \<leftarrow> checked_mul (of_nat ustack_pages) 0x1000;
     (case checked_sub ustack_virt stack_len of None \<Rightarrow> Some (None, k) | Some ustack_base \<Rightarrow> do {
       (r, k) \<leftarrow> map_stack_loop pid (as_page_table a) ustack_base [0..<ustack_pages] k;
       (case r of None \<Rightarrow> Some (None, k) | Some _ \<Rightarrow>
         (case add_vma (as_vmas a) (VMA_new ustack_base ustack_virt VMAFlags_rw Stack) of
            Inl _ \<Rightarrow> Some (None, k)
          | Inr vmas \<Rightarrow> do {
              let a = a\<lparr>as_vmas := vmas\<rparr>;
              (initial_rsp, at_random, k) \<leftarrow>
                build_argv_envp_stack ustack_virt (as_page_table a) argv envp elf_entry elf_phdr_vaddr elf_phent elf_phnum k;
              (a, k) \<leftarrow> initial_tcb a k;
              let canary = (le_word (take 8 at_random) :: u64);
              t \<leftarrow> translate (as_page_table a) TCB_PAGE k;
              tcb_phys \<leftarrow> t;
              tcb_virt \<leftarrow> phys_to_virt tcb_phys;
              ptr \<leftarrow> checked_add tcb_virt ((TCB_FS_BASE + 0x28) AND 0xFFF);
              (p, k) \<leftarrow> user_process trampoline sel pid entry_point kstack kstack_len kstack_alloc initial_rsp a TCB_FS_BASE
                (poke64 ptr canary k);
              Some (Some p, k)
            }))
     })
   }"

end
