(* ===== verification/Path_Names.thy ===== *)
theory Path_Names
  imports Ferrum_Base
begin

text \<open>
  Path names: \<^verbatim>\<open>resolve_path\<close> of \<^verbatim>\<open>src/kernel/src/syscall.rs\<close>, which every system call with a path goes
  through, with the \<^verbatim>\<open>split\<close> and \<^verbatim>\<open>join\<close> of the standard library that it uses. A canonical path is a slash
  followed by ordinary names separated by slashes; resolution returns such a path.
\<close>

section \<open>Definitions\<close>

fun split_on :: "char \<Rightarrow> string \<Rightarrow> string list" where
  "split_on c [] = [[]]"
| "split_on c (x # xs) =
     (if x = c then [] # split_on c xs
      else (case split_on c xs of [] \<Rightarrow> [[x]] | y # ys \<Rightarrow> (x # y) # ys))"

fun join_with :: "string \<Rightarrow> string list \<Rightarrow> string" where
  "join_with sep [] = []"
| "join_with sep [x] = x"
| "join_with sep (x # y # ys) = x @ sep @ join_with sep (y # ys)"

definition push_comp :: "string list \<Rightarrow> string \<Rightarrow> string list" where
  "push_comp stack part =
     (if part = [] \<or> part = ''.'' then stack
      else if part = ''..'' then butlast stack
      else stack @ [part])"

definition resolve_path :: "string \<Rightarrow> string \<Rightarrow> string" where
  "resolve_path cwd raw_path =
     (let stack = (if \<not> (raw_path \<noteq> [] \<and> hd raw_path = CHR ''/'')
                   then filter (\<lambda>part. part \<noteq> []) (split_on (CHR ''/'') cwd) else []);
          stack = foldl push_comp stack (split_on (CHR ''/'') raw_path)
      in ''/'' @ join_with ''/'' stack)"

section \<open>Splitting and joining\<close>

lemma split_on_not_Nil [simp]: "split_on c s \<noteq> []"
  by (induction s) (auto split: list.splits)

lemma split_on_append: "split_on c (s @ c # t) = split_on c s @ split_on c t"
  by (induction s) (auto split: list.splits)

lemma split_on_no_sep: "c \<notin> set s \<Longrightarrow> split_on c s = [s]"
  by (induction s) auto

lemma split_on_pieces: "x \<in> set (split_on c s) \<Longrightarrow> c \<notin> set x"
proof (induction s arbitrary: x)
  case (Cons a s)
  then show ?case by (cases "split_on c s") (auto split: if_splits)
qed simp

lemma split_join:
  assumes "xs \<noteq> []" and "\<forall>x\<in>set xs. c \<notin> set x"
  shows "split_on c (join_with [c] xs) = xs"
  using assms
proof (induction "[c]" xs rule: join_with.induct)
  case (3 x y ys)
  then have "split_on c (x @ c # join_with [c] (y # ys)) = [x] @ (y # ys)"
    by (subst split_on_append) (simp add: split_on_no_sep)
  then show ?case by simp
qed (simp_all add: split_on_no_sep)

section \<open>Canonical paths\<close>

definition name_ok :: "string \<Rightarrow> bool" where
  "name_ok x \<longleftrightarrow> x \<noteq> [] \<and> x \<noteq> ''.'' \<and> x \<noteq> ''..'' \<and> CHR ''/'' \<notin> set x"

definition path_of :: "string list \<Rightarrow> string" where
  "path_of comps = ''/'' @ join_with ''/'' comps"

definition canonical :: "string \<Rightarrow> bool" where
  "canonical p \<longleftrightarrow> (\<exists>comps. list_all name_ok comps \<and> p = path_of comps)"

definition comps_of :: "string \<Rightarrow> string list" where
  "comps_of p = filter (\<lambda>part. part \<noteq> []) (split_on (CHR ''/'') p)"

lemma comps_of_path:
  assumes "list_all name_ok comps"
  shows "comps_of (path_of comps) = comps" and "split_on (CHR ''/'') (path_of comps) = [] # (if comps = [] then [[]] else comps)"
proof -
  have "split_on (CHR ''/'') (join_with ''/'' comps) = (if comps = [] then [[]] else comps)"
    using split_join [of comps "CHR ''/''"] assms by (auto simp: list_all_iff name_ok_def)
  then show "split_on (CHR ''/'') (path_of comps) = [] # (if comps = [] then [[]] else comps)" by (simp add: path_of_def)
  then show "comps_of (path_of comps) = comps"
    using assms by (auto simp: comps_of_def list_all_iff name_ok_def intro!: filter_True)
qed

lemma push_comp_ok: "list_all name_ok st \<Longrightarrow> CHR ''/'' \<notin> set c \<Longrightarrow> list_all name_ok (push_comp st c)"
  by (auto simp: push_comp_def name_ok_def list_all_iff dest: in_set_butlastD)

lemma foldl_push_ok:
  "list_all name_ok st \<Longrightarrow> \<forall>c\<in>set cs. CHR ''/'' \<notin> set c \<Longrightarrow> list_all name_ok (foldl push_comp st cs)"
  by (induction cs arbitrary: st) (auto simp: push_comp_ok)

lemma foldl_push_names: "list_all name_ok cs \<Longrightarrow> foldl push_comp st cs = st @ cs"
  by (induction cs arbitrary: st) (auto simp: push_comp_def name_ok_def)

text \<open>Resolution as a walk from the root or from the working directory.\<close>

abbreviation absolute :: "string \<Rightarrow> bool" where
  "absolute p \<equiv> p \<noteq> [] \<and> hd p = CHR ''/''"

definition walk :: "string \<Rightarrow> string \<Rightarrow> string list" where
  "walk cwd raw = foldl push_comp (if absolute raw then [] else comps_of cwd) (split_on (CHR ''/'') raw)"

lemma resolve_walk: "resolve_path cwd raw = path_of (walk cwd raw)"
  by (simp add: resolve_path_def walk_def path_of_def comps_of_def Let_def)

lemma walk_ok:
  assumes "absolute raw \<or> canonical cwd"
  shows "list_all name_ok (walk cwd raw)"
proof -
  have "list_all name_ok (if absolute raw then [] else comps_of cwd)"
    using assms comps_of_path(1) by (auto simp: canonical_def)
  then show ?thesis unfolding walk_def by (rule foldl_push_ok) (auto dest: split_on_pieces)
qed

section \<open>Properties\<close>


lemma canonical_root: "canonical ''/''"
  by (auto simp: canonical_def path_of_def intro!: exI [of _ "[]"])


text \<open>
  Resolving a path in two parts, first the directory and then a relative path from there, gives the
  same result as resolving it at once; so changing into a directory and opening a relative name opens the
  same file as the combined path does.
\<close>

theorem resolve_path_compose:
  assumes "canonical cwd" and "a \<noteq> []" and "b = [] \<or> hd b \<noteq> CHR ''/''"
  shows "resolve_path cwd (a @ ''/'' @ b) = resolve_path (resolve_path cwd a) b"
proof -
  have ok: "list_all name_ok (walk cwd a)" using walk_ok assms(1) by blast
  have "walk cwd (a @ ''/'' @ b) = foldl push_comp (walk cwd a) (split_on (CHR ''/'') b)"
    using assms(2) by (simp add: walk_def split_on_append)
  also have "\<dots> = walk (path_of (walk cwd a)) b"
    using assms(3) comps_of_path(1) [OF ok] by (auto simp: walk_def [of "path_of (walk cwd a)"])
  finally show ?thesis by (simp add: resolve_walk)
qed

theorem resolve_path_compose_witness:
  "resolve_path ''/usr'' (''lib'' @ ''/'' @ ''../bin'') = resolve_path (resolve_path ''/usr'' ''lib'') ''../bin'' \<and>
   resolve_path ''/usr'' ''lib/../bin'' = ''/usr/bin''"
proof -
  have "canonical ''/usr''"
    by (auto simp: canonical_def path_of_def name_ok_def intro!: exI [of _ "[''usr'']"])
  then show ?thesis
    using resolve_path_compose [of "''/usr''" "''lib''" "''../bin''"] by (simp add: resolve_path_def push_comp_def)
qed

end
