(* ===== verification/Syscalls_Io.thy ===== *)
theory Syscalls_Io
  imports User_Memory Path_Names
begin

text \<open>
  System calls on files, directories and pipes (\<^verbatim>\<open>src/kernel/src/syscall.rs\<close>). A call takes the saved registers and
  the kernel state. It returns a value to the process, or suspends it: the calls that wait give the processor away
  with \<^verbatim>\<open>schedule\<close> and go round their loop again when the process runs next. An error number is
  a negative 64-bit value. Running the whole call again stands for the next round of such a loop: what the code looked
  up before the loop (the descriptor, the caller) only the suspended process itself can change. The
  log lines of the kernel, which go to the same serial port, are not part of the model.
\<close>

datatype sys_result =
    Ret u64
  | Suspend switch
  | SuspendRet switch u64
  | NoReturn switch

definition with_process ::
    "u64 \<Rightarrow> 'a kernel_scheme \<Rightarrow> (Process \<Rightarrow> (sys_result \<times> 'a kernel_scheme) option) \<Rightarrow> (sys_result \<times> 'a kernel_scheme) option" where
  "with_process none k f = do {
     cur \<leftarrow> current_mut (k_sched k);
     (case cur of None \<Rightarrow> Some (Ret none, k) | Some p \<Rightarrow> f p)
   }"

definition with_fd ::
    "Process \<Rightarrow> u64 \<Rightarrow> 'a kernel_scheme \<Rightarrow> (nat \<Rightarrow> (sys_result \<times> 'a kernel_scheme) option) \<Rightarrow> (sys_result \<times> 'a kernel_scheme) option" where
  "with_fd p fd k f = (case fd_get (p_fds p) (unat fd) of None \<Rightarrow> Some (Ret (- 9), k) | Some e \<Rightarrow> f e)"

definition desc_of :: "nat \<Rightarrow> 'a kernel_scheme \<Rightarrow> OpenFile" where
  "desc_of e k = open_files (k_io k) ! e"

definition set_desc :: "nat \<Rightarrow> OpenFile \<Rightarrow> 'a kernel_scheme \<Rightarrow> 'a kernel_scheme" where
  "set_desc e desc k = k\<lparr>k_io := (k_io k)\<lparr>open_files := (open_files (k_io k))[e := desc]\<rparr>\<rparr>"

definition set_pipe :: "nat \<Rightarrow> PipeInner \<Rightarrow> 'a kernel_scheme \<Rightarrow> 'a kernel_scheme" where
  "set_pipe i inner k = k\<lparr>k_io := (k_io k)\<lparr>pipes := (pipes (k_io k))[i := inner]\<rparr>\<rparr>"

definition print_bytes :: "bytes \<Rightarrow> 'a kernel_scheme \<Rightarrow> 'a kernel_scheme" where
  "print_bytes bs k = k\<lparr>k_serial_out := k_serial_out k @ bs\<rparr>"

section \<open>Reading\<close>

text \<open>
  The line discipline of the serial console. The recursion is on the bytes that arrive; when they run out before the
  read is complete, the call waits for ever.
\<close>

fun serial_read_loop ::
    "u64 \<Rightarrow> nat \<Rightarrow> nat \<Rightarrow> bytes \<Rightarrow> 'a kernel_scheme \<Rightarrow> (nat \<times> bytes \<times> 'a kernel_scheme) option" where
  "serial_read_loop buf cnt n [] k = (if n < cnt then None else Some (n, [], k))"
| "serial_read_loop buf cnt n (b # input) k =
     (if \<not> n < cnt then Some (n, b # input, k)
      else if b = 8 \<or> b = 0x7F then
        (if 0 < n then serial_read_loop buf cnt (n - 1) input (print_bytes [8, 32, 8] k)
         else serial_read_loop buf cnt n input k)
      else do {
        let k = print_bytes (if b = 13 \<or> b = 10 then [13, 10] else char_bytes b) k;
        let mapped_byte = (if b = 13 then 10 else b);
        k \<leftarrow> store_byte (buf + of_nat n) mapped_byte k;
        if mapped_byte = 10 then Some (n + 1, input, k)
        else serial_read_loop buf cnt (n + 1) input k
      })"

definition read_file :: "nat \<Rightarrow> u64 \<Rightarrow> u64 \<Rightarrow> 'a kernel_scheme \<Rightarrow> (sys_result \<times> 'a kernel_scheme) option" where
  "read_file e buf cnt k = do {
     let desc = desc_of e k;
     node \<leftarrow> of_node desc;
     _ \<leftarrow> raw_slice buf cnt;
     r \<leftarrow> vfs_read node (of_offset desc) (unat cnt) (k_rootfs k);
     (case r of
        Inl _ \<Rightarrow> Some (Ret (- 5), k)
      | Inr bs \<Rightarrow> do {
          k \<leftarrow> store_user buf bs k;
          offset \<leftarrow> usize_add (of_offset desc) (length bs);
          Some (Ret (of_nat (length bs)), set_desc e (desc\<lparr>of_offset := offset\<rparr>) k)
        })
   }"

definition read_pipe :: "nat \<Rightarrow> u64 \<Rightarrow> nat \<Rightarrow> 'a kernel_scheme \<Rightarrow> (sys_result \<times> 'a kernel_scheme) option" where
  "read_pipe e buf cnt k = do {
     i \<leftarrow> of_pipe (desc_of e k);
     let inner = pipes (k_io k) ! i;
     if pipe_buf inner \<noteq> [] then do {
       let n = min (length (pipe_buf inner)) cnt;
       _ \<leftarrow> raw_slice buf (of_nat n);
       k \<leftarrow> store_user buf (take n (pipe_buf inner)) k;
       Some (Ret (of_nat n), set_pipe i (inner\<lparr>pipe_buf := drop n (pipe_buf inner)\<rparr>) k)
     }
     else if write_ends inner = 0 then Some (Ret 0, k)
     else do { (sw, k) \<leftarrow> schedule k; Some (Suspend sw, k) }
   }"

definition syscall_read :: "SyscallFrame \<Rightarrow> 'a kernel_scheme \<Rightarrow> (sys_result \<times> 'a kernel_scheme) option" where
  "syscall_read fr k =
     (let fd = fr_rdi fr; buf = fr_rsi fr; cnt = unat (fr_rdx fr)
      in if fr_rdx fr = 0 then Some (Ret 0, k)
      else with_process (- 1) k (\<lambda>p. with_fd p fd k (\<lambda>e.
        let kind = of_kind (desc_of e k); readable = of_readable (desc_of e k)
        in if kind = FdDirectory then Some (Ret (- 21), k)
        else if \<not> readable then Some (Ret (- 9), k)
        else (case kind of
            FdSerial \<Rightarrow> do {
              _ \<leftarrow> raw_slice buf (fr_rdx fr);
              (n, input, k) \<leftarrow> serial_read_loop buf cnt 0 (k_serial_in k) k;
              Some (Ret (of_nat n), k\<lparr>k_serial_in := input\<rparr>)
            }
          | FdFile \<Rightarrow> read_file e buf (fr_rdx fr) k
          | FdDirectory \<Rightarrow> Some (Ret (- 21), k)
          | FdDevNull \<Rightarrow> Some (Ret 0, k)
          | FdDevZero \<Rightarrow> do {
              _ \<leftarrow> raw_slice buf (fr_rdx fr);
              k \<leftarrow> store_user buf (replicate cnt 0) k;
              Some (Ret (fr_rdx fr), k)
            }
          | FdPipe \<Rightarrow> read_pipe e buf cnt k))))"

definition syscall_pread64 :: "SyscallFrame \<Rightarrow> 'a kernel_scheme \<Rightarrow> (sys_result \<times> 'a kernel_scheme) option" where
  "syscall_pread64 fr k =
     with_process (- 1) k (\<lambda>p. with_fd p (fr_rdi fr) k (\<lambda>e.
       case of_node (desc_of e k) of
         None \<Rightarrow> Some (Ret (- 9), k)
       | Some node \<Rightarrow> do {
           _ \<leftarrow> raw_slice (fr_rsi fr) (fr_rdx fr);
           r \<leftarrow> vfs_read node (unat (fr_r10 fr)) (unat (fr_rdx fr)) (k_rootfs k);
           (case r of
              Inl _ \<Rightarrow> Some (Ret (- 5), k)
            | Inr bs \<Rightarrow> do { k \<leftarrow> store_user (fr_rsi fr) bs k; Some (Ret (of_nat (length bs)), k) })
         }))"

section \<open>Writing\<close>

definition write_offset :: "OpenFile \<Rightarrow> Ramfs \<Rightarrow> nat option" where
  "write_offset desc fs =
     (if of_append desc then
        (case of_node desc of None \<Rightarrow> Some 0 | Some n \<Rightarrow> map_option st_size (vfs_stat n fs))
      else Some (of_offset desc))"

definition write_to_file :: "nat \<Rightarrow> u64 \<Rightarrow> nat \<Rightarrow> 'a kernel_scheme \<Rightarrow> (sys_result \<times> 'a kernel_scheme) option" where
  "write_to_file e buf len k = do {
     offset \<leftarrow> write_offset (desc_of e k) (k_rootfs k);
     node \<leftarrow> of_node (desc_of e k);
     (data, k) \<leftarrow> load_user buf len k;
     (r, fs) \<leftarrow> vfs_write node offset data (k_rootfs k);
     let k = k\<lparr>k_rootfs := fs\<rparr>;
     (case r of
        Inl _ \<Rightarrow> Some (Ret (- 5), k)
      | Inr n \<Rightarrow> do {
          let desc = desc_of e k;
          offset \<leftarrow> usize_add (of_offset desc) n;
          Some (Ret (of_nat n), set_desc e (desc\<lparr>of_offset := offset\<rparr>) k)
        })
   }"

definition write_to_pipe :: "nat \<Rightarrow> u64 \<Rightarrow> nat \<Rightarrow> 'a kernel_scheme \<Rightarrow> (sys_result \<times> 'a kernel_scheme) option" where
  "write_to_pipe e buf len k = do {
     i \<leftarrow> of_pipe (desc_of e k);
     if read_ends (pipes (k_io k) ! i) = 0 then Some (Ret (- 32), k)
     else do {
       (data, k) \<leftarrow> load_user buf len k;
       let inner = pipes (k_io k) ! i;
       Some (Ret (of_nat len), set_pipe i (inner\<lparr>pipe_buf := pipe_buf inner @ data\<rparr>) k)
     }
   }"

definition syscall_write :: "SyscallFrame \<Rightarrow> 'a kernel_scheme \<Rightarrow> (sys_result \<times> 'a kernel_scheme) option" where
  "syscall_write fr k =
     (let fd = fr_rdi fr; buf = fr_rsi fr; len = unat (fr_rdx fr)
      in if fr_rdx fr = 0 then Some (Ret 0, k)
      else with_process (- 1) k (\<lambda>p. with_fd p fd k (\<lambda>e.
        if \<not> of_writable (desc_of e k) then Some (Ret (- 9), k)
        else if raw_slice buf (fr_rdx fr) = None then None
        else (case of_kind (desc_of e k) of
            FdSerial \<Rightarrow> do {
              (data, k) \<leftarrow> load_user buf len k;
              Some (Ret (fr_rdx fr), print_bytes (concat (map char_bytes data)) k)
            }
          | FdFile \<Rightarrow> write_to_file e buf len k
          | FdDirectory \<Rightarrow> Some (Ret (- 21), k)
          | FdDevNull \<Rightarrow> Some (Ret (fr_rdx fr), k)
          | FdDevZero \<Rightarrow> Some (Ret (fr_rdx fr), k)
          | FdPipe \<Rightarrow> write_to_pipe e buf len k))))"

text \<open>\<^verbatim>\<open>writev\<close>: one buffer after the other; an error in the middle returns the error.\<close>

definition writev_one ::
    "nat \<Rightarrow> FdKind \<Rightarrow> u64 \<Rightarrow> nat \<Rightarrow> nat \<Rightarrow> 'a kernel_scheme \<Rightarrow> ((u64 + nat) \<times> 'a kernel_scheme) option" where
  "writev_one e kind base len tot k =
     (case kind of
        FdSerial \<Rightarrow> do {
          (data, k) \<leftarrow> load_user base len k;
          tot \<leftarrow> usize_add tot len;
          Some (Inr tot, print_bytes (concat (map char_bytes data)) k)
        }
      | FdFile \<Rightarrow> do {
          offset \<leftarrow> write_offset (desc_of e k) (k_rootfs k);
          node \<leftarrow> of_node (desc_of e k);
          (data, k) \<leftarrow> load_user base len k;
          (r, fs) \<leftarrow> vfs_write node offset data (k_rootfs k);
          let k = k\<lparr>k_rootfs := fs\<rparr>;
          (case r of
             Inl _ \<Rightarrow> Some (Inl (- 5), k)
           | Inr n \<Rightarrow> do {
               let desc = desc_of e k;
               k \<leftarrow> (if \<not> of_append desc
                      then map_option (\<lambda>offset. set_desc e (desc\<lparr>of_offset := offset\<rparr>) k) (usize_add (of_offset desc) n)
                      else Some k);
               tot \<leftarrow> usize_add tot n;
               Some (Inr tot, k)
             })
        }
      | FdDirectory \<Rightarrow> Some (Inl (- 21), k)
      | FdDevNull \<Rightarrow> map_option (\<lambda>t. (Inr t, k)) (usize_add tot len)
      | FdDevZero \<Rightarrow> map_option (\<lambda>t. (Inr t, k)) (usize_add tot len)
      | FdPipe \<Rightarrow> do {
          i \<leftarrow> of_pipe (desc_of e k);
          if read_ends (pipes (k_io k) ! i) = 0 then Some (Inl (- 32), k)
          else do {
            (data, k) \<leftarrow> load_user base len k;
            let inner = pipes (k_io k) ! i;
            tot \<leftarrow> usize_add tot len;
            Some (Inr tot, set_pipe i (inner\<lparr>pipe_buf := pipe_buf inner @ data\<rparr>) k)
          }
        })"

fun writev_loop ::
    "nat \<Rightarrow> FdKind \<Rightarrow> u64 \<Rightarrow> nat \<Rightarrow> nat \<Rightarrow> 'a kernel_scheme \<Rightarrow> (sys_result \<times> 'a kernel_scheme) option" where
  "writev_loop e kind iov_ptr 0 tot k = Some (Ret (of_nat tot), k)"
| "writev_loop e kind iov_ptr (Suc i) tot k = do {
     (len, k) \<leftarrow> load_user64 (iov_ptr + 8) k;
     if len = 0 then writev_loop e kind (iov_ptr + 16) i tot k
     else do {
       (base, k) \<leftarrow> load_user64 iov_ptr k;
       _ \<leftarrow> raw_slice base len;
       (r, k) \<leftarrow> writev_one e kind base (unat len) tot k;
       (case r of
          Inl err \<Rightarrow> Some (Ret err, k)
        | Inr tot \<Rightarrow> writev_loop e kind (iov_ptr + 16) i tot k)
     }
   }"

definition syscall_writev :: "SyscallFrame \<Rightarrow> 'a kernel_scheme \<Rightarrow> (sys_result \<times> 'a kernel_scheme) option" where
  "syscall_writev fr k =
     with_process (- 1) k (\<lambda>p. with_fd p (fr_rdi fr) k (\<lambda>e.
       if \<not> of_writable (desc_of e k) then Some (Ret (- 9), k)
       else writev_loop e (of_kind (desc_of e k)) (fr_rsi fr) (unat (fr_rdx fr)) 0 k))"

end
