(* ===== verification/Procfs.thy ===== *)
theory Procfs
  imports Processes
begin

text \<open>
  The texts of \<^verbatim>\<open>/proc/self/maps\<close> and \<^verbatim>\<open>/proc/self/status\<close> (\<^verbatim>\<open>src/kernel/src/fs/procfs.rs\<close>), with the number formats of
  \<^verbatim>\<open>format!\<close> that they use.
\<close>

definition digit_char :: "nat \<Rightarrow> char" where
  "digit_char d = (char_of (if d < 10 then 48 + d else 87 + d) :: char)"

text \<open>\<open>{:016x}\<close>: sixteen hexadecimal digits; \<open>{}\<close>: decimal.\<close>

fun hex_fixed :: "nat \<Rightarrow> u64 \<Rightarrow> string" where
  "hex_fixed 0 x = []"
| "hex_fixed (Suc n) x = hex_fixed n (drop_bit 4 x) @ [digit_char (unat (x AND 0xF))]"

fun dec :: "nat \<Rightarrow> string" where
  "dec n = (if n < 10 then [digit_char n] else dec (n div 10) @ [digit_char (n mod 10)])"

declare dec.simps [simp del]

definition format_map_line :: "VMA \<Rightarrow> string" where
  "format_map_line vma =
     (let r = (if flag_read (vma_flags vma) then CHR ''r'' else CHR ''-'');
          w = (if flag_write (vma_flags vma) then CHR ''w'' else CHR ''-'');
          x = (if flag_exec (vma_flags vma) then CHR ''x'' else CHR ''-'');
          label = (case vma_kind vma of Stack \<Rightarrow> ''[stack]'' | Heap \<Rightarrow> ''[heap]'' | Anonymous \<Rightarrow> [])
      in hex_fixed 16 (vma_start vma) @ ''-'' @ hex_fixed 16 (vma_end vma) @ '' '' @ [r, w, x] @
         ''p 00000000 00:00 0          '' @ label @ [CHR 0x0A])"

definition format_maps :: "Process \<Rightarrow> string" where
  "format_maps p = concat (map format_map_line (sort_key vma_start (as_vmas (p_space p))))"

fun state_str :: "ProcessState \<Rightarrow> string" where
  "state_str Running = ''R (running)''"
| "state_str Ready = ''R (running)''"
| "state_str Blocked = ''S (sleeping)''"
| "state_str Dead = ''Z (zombie)''"
| "state_str Waiting = ''W (waiting)''"

definition add_kb :: "VMA \<Rightarrow> u64 \<Rightarrow> u64 option" where
  "add_kb v kb = do { sz \<leftarrow> checked_sub (vma_end v) (vma_start v); checked_add kb (sz div 1024) }"

definition format_status :: "Process \<Rightarrow> string option" where
  "format_status p = do {
     let heap_kb = saturating_sub (p_brk_current p) (p_brk_start p) div 1024;
     mapped_kb \<leftarrow> for_each add_kb (as_vmas (p_space p)) 0;
     let tab = [CHR 0x09];
     let nl = [CHR 0x0A];
     Some (''Name:'' @ tab @ ''process'' @ nl @
           ''Pid:'' @ tab @ dec (unat (p_pid p)) @ nl @
           ''PPid:'' @ tab @ dec (unat (p_parent_pid p)) @ nl @
           ''State:'' @ tab @ state_str (p_state p) @ nl @
           ''Threads:'' @ tab @ ''1'' @ nl @
           ''VmSize:'' @ tab @ dec (unat mapped_kb) @ '' kB'' @ nl @
           ''VmHeap:'' @ tab @ dec (unat heap_kb) @ '' kB'' @ nl)
   }"

end
