(* ===== verification/Syscalls_Files.thy ===== *)
theory Syscalls_Files
  imports Syscalls_Io Procfs "HOL-Library.Signed_Division"
begin

text \<open>
  System calls that open and close descriptors and that work on names (\<^verbatim>\<open>src/kernel/src/syscall.rs\<close>): open, close,
  dup, fcntl, pipe, lseek, the stat family, directories and the working directory.
\<close>

text \<open>A call that reads a path from user memory and resolves it against the working directory.\<close>

definition cwd_of :: "'a kernel_scheme \<Rightarrow> string" where
  "cwd_of k = (case current (k_sched k) of None \<Rightarrow> ''/'' | Some p \<Rightarrow> p_cwd p)"

definition with_path ::
    "u64 \<Rightarrow> 'a kernel_scheme \<Rightarrow> (string \<Rightarrow> 'a kernel_scheme \<Rightarrow> (sys_result \<times> 'a kernel_scheme) option) \<Rightarrow> (sys_result \<times> 'a kernel_scheme) option" where
  "with_path ptr k f = do {
     (raw_path, k) \<leftarrow> read_user_cstr ptr 256 k;
     (case raw_path of
        None \<Rightarrow> Some (Ret (- 14), k)
      | Some raw_path \<Rightarrow> f (resolve_path (cwd_of k) raw_path) k)
   }"

definition ok_or :: "u64 \<Rightarrow> (string + unit) \<times> Ramfs \<Rightarrow> 'a kernel_scheme \<Rightarrow> sys_result \<times> 'a kernel_scheme" where
  "ok_or err r k = (Ret (case fst r of Inl _ \<Rightarrow> err | Inr _ \<Rightarrow> 0), k\<lparr>k_rootfs := snd r\<rparr>)"

section \<open>Descriptors\<close>

text \<open>Put a new open file into the table of the current process: its number, or \<^verbatim>\<open>EMFILE\<close>.\<close>

definition install_fd :: "OpenFile \<Rightarrow> Process \<Rightarrow> 'a kernel_scheme \<Rightarrow> sys_result \<times> 'a kernel_scheme" where
  "install_fd file p k =
     (let (fd, t, io) = fd_alloc (p_fds p) file (k_io k)
      in (Ret (case fd of Some fd \<Rightarrow> of_nat fd | None \<Rightarrow> - 24),
          set_current (p\<lparr>p_fds := t\<rparr>) (k\<lparr>k_io := io\<rparr>)))"

definition open_alloc :: "OpenFile \<Rightarrow> 'a kernel_scheme \<Rightarrow> (sys_result \<times> 'a kernel_scheme) option" where
  "open_alloc file k = with_process (- 1) k (\<lambda>p. Some (install_fd file p k))"

definition O_ACCMODE :: u64 where "O_ACCMODE = 0x3"
definition O_WRONLY :: u64 where "O_WRONLY = 0x1"
definition O_RDWR :: u64 where "O_RDWR = 0x2"
definition O_CREAT :: u64 where "O_CREAT = 0x40"
definition O_TRUNC :: u64 where "O_TRUNC = 0x200"
definition O_APPEND :: u64 where "O_APPEND = 0x400"
definition O_DIRECTORY :: u64 where "O_DIRECTORY = 0x10000"

definition special_kind :: "string \<Rightarrow> FdKind option" where
  "special_kind path =
     (if path = ''/dev/null'' then Some FdDevNull
      else if path = ''/dev/zero'' then Some FdDevZero
      else if path = ''/dev/tty'' then Some FdSerial
      else None)"

text \<open>The file system's part of \<^verbatim>\<open>open\<close>: look the path up, create or truncate it.\<close>

definition open_node :: "string \<Rightarrow> u64 \<Rightarrow> bool \<Rightarrow> Ramfs \<Rightarrow> (u64 + VfsNode option) \<times> Ramfs" where
  "open_node path flags writable fs =
     (case open_file path fs of
        None \<Rightarrow>
          (if flags AND O_CREAT \<noteq> 0 then
             (case write_file path [] fs of
                (Inl _, fs) \<Rightarrow> (Inl (- 5), fs)
              | (Inr _, fs) \<Rightarrow> (Inr (open_file path fs), fs))
           else (Inr None, fs))
      | Some node \<Rightarrow>
          (if flags AND O_TRUNC \<noteq> 0 \<and> writable then
             let fs = snd (write_file path [] fs) in (Inr (open_file path fs), fs)
           else (Inr (Some node), fs)))"

definition open_path :: "string \<Rightarrow> u64 \<Rightarrow> 'a kernel_scheme \<Rightarrow> (sys_result \<times> 'a kernel_scheme) option" where
  "open_path path flags k =
     (if flags AND O_DIRECTORY \<noteq> 0 \<or> path = ''/'' then open_alloc (directory_file (list_dir path (k_rootfs k))) k
      else (case special_kind path of
        Some kind \<Rightarrow> open_alloc (device_file kind) k
      | None \<Rightarrow>
          if path = ''/proc/self/maps'' \<or> path = ''/proc/self/status'' then
            with_process (- 1) k (\<lambda>p. do {
              content \<leftarrow> (if path = ''/proc/self/maps'' then Some (format_maps p) else format_status p);
              Some (install_fd (node_file (ProcfsFile (ProcfsNode_new (as_bytes content))) True False False) p k)
            })
          else
            (let acc = flags AND O_ACCMODE;
                 readable = (acc \<noteq> O_WRONLY);
                 writable = (acc = O_WRONLY \<or> acc = O_RDWR);
                 (r, fs) = open_node path flags writable (k_rootfs k);
                 k = k\<lparr>k_rootfs := fs\<rparr>
             in (case r of
                  Inl err \<Rightarrow> Some (Ret err, k)
                | Inr None \<Rightarrow> Some (Ret (- 2), k)
                | Inr (Some node) \<Rightarrow>
                    open_alloc (node_file node readable writable (flags AND O_APPEND \<noteq> 0)) k))))"

definition syscall_open :: "SyscallFrame \<Rightarrow> 'a kernel_scheme \<Rightarrow> (sys_result \<times> 'a kernel_scheme) option" where
  "syscall_open fr k = with_path (fr_rdi fr) k (\<lambda>path k. open_path path (fr_rsi fr) k)"

definition syscall_openat :: "SyscallFrame \<Rightarrow> 'a kernel_scheme \<Rightarrow> (sys_result \<times> 'a kernel_scheme) option" where
  "syscall_openat fr k = syscall_open (fr\<lparr>fr_rdi := fr_rsi fr, fr_rsi := fr_rdx fr\<rparr>) k"

definition syscall_close :: "SyscallFrame \<Rightarrow> 'a kernel_scheme \<Rightarrow> (sys_result \<times> 'a kernel_scheme) option" where
  "syscall_close fr k =
     with_process (- 1) k (\<lambda>p.
       let (closed, t, io) = fd_close (p_fds p) (unat (fr_rdi fr)) (k_io k)
       in Some (Ret (if closed then 0 else - 9), set_current (p\<lparr>p_fds := t\<rparr>) (k\<lparr>k_io := io\<rparr>)))"

definition F_DUPFD :: u64 where "F_DUPFD = 0"
definition F_DUPFD_CLOEXEC :: u64 where "F_DUPFD_CLOEXEC = 1030"

definition syscall_fcntl :: "SyscallFrame \<Rightarrow> 'a kernel_scheme \<Rightarrow> (sys_result \<times> 'a kernel_scheme) option" where
  "syscall_fcntl fr k =
     (if fr_rsi fr = F_DUPFD \<or> fr_rsi fr = F_DUPFD_CLOEXEC then
        with_process (- 1) k (\<lambda>p. with_fd p (fr_rdi fr) k (\<lambda>e.
          let (newfd, t) = alloc_from (p_fds p) e (unat (fr_rdx fr))
          in Some (Ret (case newfd of Some fd \<Rightarrow> of_nat fd | None \<Rightarrow> - 24), set_current (p\<lparr>p_fds := t\<rparr>) k)))
      else Some (Ret 0, k))"

definition syscall_dup :: "SyscallFrame \<Rightarrow> 'a kernel_scheme \<Rightarrow> (sys_result \<times> 'a kernel_scheme) option" where
  "syscall_dup fr k =
     with_process (- 1) k (\<lambda>p. with_fd p (fr_rdi fr) k (\<lambda>e. do {
       (fd, t, io) \<leftarrow> alloc_entry (p_fds p) e (k_io k);
       Some (Ret (case fd of Some fd \<Rightarrow> of_nat fd | None \<Rightarrow> - 24),
             set_current (p\<lparr>p_fds := t\<rparr>) (k\<lparr>k_io := io\<rparr>))
     }))"

definition syscall_dup2 :: "SyscallFrame \<Rightarrow> 'a kernel_scheme \<Rightarrow> (sys_result \<times> 'a kernel_scheme) option" where
  "syscall_dup2 fr k =
     (let oldfd = unat (fr_rdi fr); newfd = unat (fr_rsi fr)
      in if FD_MAX \<le> newfd then Some (Ret (- 9), k)
      else with_process (- 1) k (\<lambda>p. with_fd p (fr_rdi fr) k (\<lambda>e.
        if oldfd = newfd then Some (Ret (of_nat newfd), k)
        else do {
          let (_, t, io) = fd_close (p_fds p) newfd (k_io k);
          (t, io) \<leftarrow> fd_put t newfd e io;
          Some (Ret (of_nat newfd), set_current (p\<lparr>p_fds := t\<rparr>) (k\<lparr>k_io := io\<rparr>))
        })))"

text \<open>The pipe is made before the table is asked for room; without room its counts are never seen again.\<close>

definition syscall_pipe :: "SyscallFrame \<Rightarrow> 'a kernel_scheme \<Rightarrow> (sys_result \<times> 'a kernel_scheme) option" where
  "syscall_pipe fr k =
     (let ((r, w), io) = new_pipe (k_io k);
          k = k\<lparr>k_io := io\<rparr>
      in with_process (- 1) k (\<lambda>p.
        case fd_alloc (p_fds p) (pipe_read r) io of
          (None, t, io) \<Rightarrow> Some (Ret (- 24), set_current (p\<lparr>p_fds := t\<rparr>) (k\<lparr>k_io := io\<rparr>))
        | (Some rfd, t, io) \<Rightarrow>
            (case fd_alloc t (pipe_write w) io of
               (None, t, io) \<Rightarrow>
                 let (_, t, io) = fd_close t rfd io
                 in Some (Ret (- 24), set_current (p\<lparr>p_fds := t\<rparr>) (k\<lparr>k_io := io\<rparr>))
             | (Some wfd, t, io) \<Rightarrow> do {
                 let k = set_current (p\<lparr>p_fds := t\<rparr>) (k\<lparr>k_io := io\<rparr>);
                 (_, k) \<leftarrow> write_to_user (fr_rdi fr)
                   (to_le_bytes 4 (of_nat rfd :: u32) @ to_le_bytes 4 (of_nat wfd :: u32)) k;
                 Some (Ret 0, k)
               })))"

text \<open>Signed 64-bit addition, which panics on overflow.\<close>

definition i64_add :: "int \<Rightarrow> int \<Rightarrow> int option" where
  "i64_add a b = (if - (2 ^ 63) \<le> a + b \<and> a + b < 2 ^ 63 then Some (a + b) else None)"

definition as_i64 :: "nat \<Rightarrow> int" where
  "as_i64 n = sint (of_nat n :: u64)"

definition syscall_lseek :: "SyscallFrame \<Rightarrow> 'a kernel_scheme \<Rightarrow> (sys_result \<times> 'a kernel_scheme) option" where
  "syscall_lseek fr k =
     (let offset = sint (fr_rsi fr); whence = (ucast (fr_rdx fr) :: u32)
      in with_process (- 1) k (\<lambda>p. with_fd p (fr_rdi fr) k (\<lambda>e. do {
        let desc = desc_of e k;
        sz \<leftarrow> (case of_node desc of None \<Rightarrow> Some 0 | Some n \<Rightarrow> map_option st_size (vfs_stat n (k_rootfs k)));
        new_offset \<leftarrow>
          (if whence = 0 then Some (Some offset)
           else if whence = 1 then map_option Some (i64_add (as_i64 (of_offset desc)) offset)
           else if whence = 2 then map_option Some (i64_add (as_i64 sz) offset)
           else Some None);
        (case new_offset of
           None \<Rightarrow> Some (Ret (- 22), k)
         | Some new_offset \<Rightarrow>
             if new_offset < 0 then Some (Ret (- 22), k)
             else Some (Ret (of_int new_offset), set_desc e (desc\<lparr>of_offset := nat new_offset\<rparr>) k))
      })))"

end
