(* ===== verification/Syscalls_Names.thy ===== *)
theory Syscalls_Names
  imports Syscalls_Files
begin

text \<open>
  System calls on names and metadata (\<^verbatim>\<open>src/kernel/src/syscall.rs\<close>): the stat family, access, directories, the working
  directory, rename and unlink, directory listing, and the calls that describe the terminal and the system.
\<close>

section \<open>Metadata\<close>

record LinuxStat =
  ls_dev :: u64
  ls_ino :: u64
  ls_nlink :: u64
  ls_mode :: u32
  ls_uid :: u32
  ls_gid :: u32
  ls_pad0 :: u32
  ls_rdev :: u64
  ls_size :: u64
  ls_blksize :: u64
  ls_blocks :: u64
  ls_times :: "u64 list"
  ls_unused :: "u64 list"

text \<open>The memory image of the structure, in which all fields are at their natural alignment.\<close>

definition stat_bytes :: "LinuxStat \<Rightarrow> bytes" where
  "stat_bytes st =
     to_le_bytes 8 (ls_dev st) @ to_le_bytes 8 (ls_ino st) @ to_le_bytes 8 (ls_nlink st) @
     to_le_bytes 4 (ls_mode st) @ to_le_bytes 4 (ls_uid st) @ to_le_bytes 4 (ls_gid st) @ to_le_bytes 4 (ls_pad0 st) @
     to_le_bytes 8 (ls_rdev st) @ to_le_bytes 8 (ls_size st) @ to_le_bytes 8 (ls_blksize st) @ to_le_bytes 8 (ls_blocks st) @
     concat (map (to_le_bytes 8) (ls_times st)) @ concat (map (to_le_bytes 8) (ls_unused st))"

definition S_IFDIR :: u32 where "S_IFDIR = 0x4000"
definition S_IFREG :: u32 where "S_IFREG = 0x8000"

definition fill_stat :: "FileType \<Rightarrow> nat \<Rightarrow> LinuxStat option" where
  "fill_stat file_type sz = do {
     blocks \<leftarrow> i64_add (as_i64 sz) 511;
     Some \<lparr>ls_dev = 0, ls_ino = 0, ls_nlink = 1,
           ls_mode = (case file_type of Directory \<Rightarrow> S_IFDIR OR 0x1ED | Regular \<Rightarrow> S_IFREG OR 0x1A4),
           ls_uid = 0, ls_gid = 0, ls_pad0 = 0, ls_rdev = 0, ls_size = of_nat sz, ls_blksize = 4096,
           ls_blocks = word_of_int (blocks sdiv 512), ls_times = replicate 6 0, ls_unused = replicate 3 0\<rparr>
   }"

definition put_stat :: "u64 \<Rightarrow> FileType \<Rightarrow> nat \<Rightarrow> 'a kernel_scheme \<Rightarrow> (sys_result \<times> 'a kernel_scheme) option" where
  "put_stat statbuf file_type sz k = do {
     st \<leftarrow> fill_stat file_type sz;
     k \<leftarrow> store_user statbuf (stat_bytes st) k;
     Some (Ret 0, k)
   }"

definition stat_path :: "string \<Rightarrow> u64 \<Rightarrow> 'a kernel_scheme \<Rightarrow> (sys_result \<times> 'a kernel_scheme) option" where
  "stat_path path statbuf k =
     (if path = ''/'' \<or> list_dir path (k_rootfs k) \<noteq> [] then put_stat statbuf Directory 0 k
      else (case open_file path (k_rootfs k) of
              Some n \<Rightarrow> do { s \<leftarrow> vfs_stat n (k_rootfs k); put_stat statbuf (st_type s) (st_size s) k }
            | None \<Rightarrow> Some (Ret (- 2), k)))"

definition syscall_stat :: "SyscallFrame \<Rightarrow> 'a kernel_scheme \<Rightarrow> (sys_result \<times> 'a kernel_scheme) option" where
  "syscall_stat fr k = with_path (fr_rdi fr) k (\<lambda>path k. stat_path path (fr_rsi fr) k)"

definition syscall_newfstatat :: "SyscallFrame \<Rightarrow> 'a kernel_scheme \<Rightarrow> (sys_result \<times> 'a kernel_scheme) option" where
  "syscall_newfstatat fr k = with_path (fr_rsi fr) k (\<lambda>path k. stat_path path (fr_rdx fr) k)"

definition syscall_fstat :: "SyscallFrame \<Rightarrow> 'a kernel_scheme \<Rightarrow> (sys_result \<times> 'a kernel_scheme) option" where
  "syscall_fstat fr k =
     with_process (- 1) k (\<lambda>p. with_fd p (fr_rdi fr) k (\<lambda>e. do {
       let desc = desc_of e k;
       (file_type, sz) \<leftarrow>
         (case of_kind desc of
            FdDirectory \<Rightarrow> Some (Directory, 0)
          | FdFile \<Rightarrow>
              (case of_node desc of
                 None \<Rightarrow> Some (Regular, 0)
               | Some n \<Rightarrow> map_option (\<lambda>s. (st_type s, st_size s)) (vfs_stat n (k_rootfs k)))
          | _ \<Rightarrow> Some (Regular, 0));
       put_stat (fr_rsi fr) file_type sz k
     }))"

definition syscall_access :: "SyscallFrame \<Rightarrow> 'a kernel_scheme \<Rightarrow> (sys_result \<times> 'a kernel_scheme) option" where
  "syscall_access fr k =
     with_path (fr_rdi fr) k (\<lambda>path k. Some (Ret (if open_file path (k_rootfs k) \<noteq> None then 0 else - 2), k))"

definition path_exists :: "string \<Rightarrow> Ramfs \<Rightarrow> bool" where
  "path_exists path fs = (path = ''/'' \<or> open_file path fs \<noteq> None \<or> list_dir path fs \<noteq> [])"

definition syscall_faccessat :: "SyscallFrame \<Rightarrow> 'a kernel_scheme \<Rightarrow> (sys_result \<times> 'a kernel_scheme) option" where
  "syscall_faccessat fr k =
     with_path (fr_rsi fr) k (\<lambda>path k. Some (Ret (if path_exists path (k_rootfs k) then 0 else - 2), k))"

section \<open>Names\<close>

definition syscall_chdir :: "SyscallFrame \<Rightarrow> 'a kernel_scheme \<Rightarrow> (sys_result \<times> 'a kernel_scheme) option" where
  "syscall_chdir fr k = do {
     (raw_path, k) \<leftarrow> read_user_cstr (fr_rdi fr) 256 k;
     (case raw_path of
        None \<Rightarrow> Some (Ret (- 14), k)
      | Some raw_path \<Rightarrow> with_process (- 1) k (\<lambda>p.
          let new_cwd = resolve_path (p_cwd p) raw_path
          in if \<not> path_exists new_cwd (k_rootfs k) then Some (Ret (- 2), k)
             else Some (Ret 0, set_current (p\<lparr>p_cwd := new_cwd\<rparr>) k)))
   }"

definition syscall_mkdir :: "SyscallFrame \<Rightarrow> 'a kernel_scheme \<Rightarrow> (sys_result \<times> 'a kernel_scheme) option" where
  "syscall_mkdir fr k =
     with_path (fr_rdi fr) k (\<lambda>path k.
       Some (if path_exists path (k_rootfs k) then (Ret (- 17), k)
             else ok_or (- 1) (mkdir path (k_rootfs k)) k))"

definition syscall_rename :: "SyscallFrame \<Rightarrow> 'a kernel_scheme \<Rightarrow> (sys_result \<times> 'a kernel_scheme) option" where
  "syscall_rename fr k = do {
     (old, k) \<leftarrow> read_user_cstr (fr_rdi fr) 256 k;
     (case old of
        None \<Rightarrow> Some (Ret (- 14), k)
      | Some old \<Rightarrow> do {
          (new, k) \<leftarrow> read_user_cstr (fr_rsi fr) 256 k;
          (case new of
             None \<Rightarrow> Some (Ret (- 14), k)
           | Some new \<Rightarrow>
               Some (ok_or (- 2) (rename_file (resolve_path (cwd_of k) old) (resolve_path (cwd_of k) new) (k_rootfs k)) k))
        })
   }"

definition syscall_unlink :: "SyscallFrame \<Rightarrow> 'a kernel_scheme \<Rightarrow> (sys_result \<times> 'a kernel_scheme) option" where
  "syscall_unlink fr k = with_path (fr_rdi fr) k (\<lambda>path k. Some (ok_or (- 2) (Vfs.unlink path (k_rootfs k)) k))"

definition syscall_unlinkat :: "SyscallFrame \<Rightarrow> 'a kernel_scheme \<Rightarrow> (sys_result \<times> 'a kernel_scheme) option" where
  "syscall_unlinkat fr k = syscall_unlink (fr\<lparr>fr_rdi := fr_rsi fr\<rparr>) k"

definition syscall_getcwd :: "SyscallFrame \<Rightarrow> 'a kernel_scheme \<Rightarrow> (sys_result \<times> 'a kernel_scheme) option" where
  "syscall_getcwd fr k =
     (let bs = as_bytes (cwd_of k)
      in if unat (fr_rsi fr) < length bs + 1 then Some (Ret (- 34), k)
      else do {
        (ok, k) \<leftarrow> write_to_user (fr_rdi fr) (bs @ [0]) k;
        Some (Ret (if ok then fr_rdi fr else - 14), k)
      })"

section \<open>Directory listing\<close>

definition dirent_len :: "string \<Rightarrow> nat" where
  "dirent_len name = (19 + length name + 1 + 7) div 8 * 8"

text \<open>A record without the padding after the name, which the code leaves as it is in the buffer.\<close>

definition dirent_bytes :: "nat \<Rightarrow> string \<Rightarrow> bytes" where
  "dirent_bytes i name =
     to_le_bytes 8 (of_nat i + 1 :: u64) @ to_le_bytes 8 (of_nat i + 1 :: u64) @
     to_le_bytes 2 (of_nat (dirent_len name) :: u16) @ [8] @ as_bytes name @ [0]"

fun getdents_loop ::
    "u64 \<Rightarrow> nat \<Rightarrow> nat \<Rightarrow> string list \<Rightarrow> nat \<Rightarrow> nat \<Rightarrow> 'a kernel_scheme \<Rightarrow> (nat \<times> nat \<times> 'a kernel_scheme) option" where
  "getdents_loop buf cnt i [] out_off consumed k = Some (out_off, consumed, k)"
| "getdents_loop buf cnt i (name # names) out_off consumed k = do {
     out_end \<leftarrow> usize_add out_off (dirent_len name);
     if cnt < out_end then Some (out_off, consumed, k)
     else do {
       k \<leftarrow> store_user (buf + of_nat out_off) (dirent_bytes i name) k;
       getdents_loop buf cnt (i + 1) names out_end (consumed + 1) k
     }
   }"

definition syscall_getdents64 :: "SyscallFrame \<Rightarrow> 'a kernel_scheme \<Rightarrow> (sys_result \<times> 'a kernel_scheme) option" where
  "syscall_getdents64 fr k =
     with_process (- 1) k (\<lambda>p. with_fd p (fr_rdi fr) k (\<lambda>e.
       let desc = desc_of e k
       in if of_kind desc \<noteq> FdDirectory then Some (Ret (- 20), k)
       else (case of_dir_entries desc of
           None \<Rightarrow> Some (Ret 0, k)
         | Some names \<Rightarrow> do {
             let start_idx = of_offset desc;
             (out_off, consumed, k) \<leftarrow>
               getdents_loop (fr_rsi fr) (unat (fr_rdx fr)) start_idx (drop start_idx names) 0 0 k;
             offset \<leftarrow> usize_add start_idx consumed;
             Some (Ret (of_nat out_off), set_desc e (desc\<lparr>of_offset := offset\<rparr>) k)
           })))"

section \<open>Terminal and system\<close>

definition TIOCGWINSZ :: u64 where "TIOCGWINSZ = 0x5413"

definition winsize_bytes :: bytes where
  "winsize_bytes = to_le_bytes 2 (24 :: u16) @ to_le_bytes 2 (80 :: u16) @ to_le_bytes 2 (0 :: u16) @ to_le_bytes 2 (0 :: u16)"

definition syscall_ioctl :: "SyscallFrame \<Rightarrow> 'a kernel_scheme \<Rightarrow> (sys_result \<times> 'a kernel_scheme) option" where
  "syscall_ioctl fr k =
     with_process (- 1) k (\<lambda>p. with_fd p (fr_rdi fr) k (\<lambda>e.
       if fr_rsi fr = TIOCGWINSZ \<and> of_kind (desc_of e k) = FdSerial then do {
         (ok, k) \<leftarrow> write_to_user (fr_rdx fr) winsize_bytes k;
         Some (Ret (if ok then 0 else - 14), k)
       }
       else Some (Ret (- 25), k)))"

definition uts_field :: "string \<Rightarrow> bytes" where
  "uts_field s = (let bs = take 64 (as_bytes s) in bs @ replicate (65 - length bs) 0)"

definition uts_bytes :: bytes where
  "uts_bytes = concat (map uts_field [''Linux'', ''ferrum'', ''6.1.0'', ''#1 Ferrum OS'', ''x86_64'', []])"

definition syscall_uname :: "SyscallFrame \<Rightarrow> 'a kernel_scheme \<Rightarrow> (sys_result \<times> 'a kernel_scheme) option" where
  "syscall_uname fr k =
     (if fr_rdi fr = 0 then Some (Ret (- 14), k)
      else do {
        (ok, k) \<leftarrow> write_to_user (fr_rdi fr) uts_bytes k;
        Some (Ret (if ok then 0 else - 14), k)
      })"

end
