(* ===== verification/Syscalls_Proc.thy ===== *)
theory Syscalls_Proc
  imports Process_Setup Syscalls_Names
begin

text \<open>
  System calls on memory and processes, and the dispatcher (\<^verbatim>\<open>src/kernel/src/syscall.rs\<close>, with \<^verbatim>\<open>Process::fork\<close> of
  \<^verbatim>\<open>process.rs\<close>).
\<close>

section \<open>Memory\<close>

definition MAP_FIXED :: u32 where "MAP_FIXED = 0x10"

definition syscall_mmap :: "SyscallFrame \<Rightarrow> 'a kernel_scheme \<Rightarrow> (sys_result \<times> 'a kernel_scheme) option" where
  "syscall_mmap fr k =
     (let addr = fr_rdi fr; len = fr_rsi fr; prot = (ucast (fr_rdx fr) :: u32); flags = (ucast (fr_r10 fr) :: u32);
          vma_flags = \<lparr>flag_read = (prot AND 1 \<noteq> 0), flag_write = (prot AND 2 \<noteq> 0), flag_exec = (prot AND 4 \<noteq> 0)\<rparr>
      in with_process (- 1) k (\<lambda>p.
        if addr \<noteq> 0 \<and> flags AND MAP_FIXED \<noteq> 0 then do {
          (r, a, k) \<leftarrow> mmap_fixed (p_space p) addr len vma_flags Anonymous k;
          Some (Ret (case r of Inr mapped \<Rightarrow> mapped | Inl _ \<Rightarrow> - 12), set_current (p\<lparr>p_space := a\<rparr>) k)
        }
        else do {
          (r, vmas) \<leftarrow> mmap (as_vmas (p_space p)) 0 len vma_flags Anonymous;
          Some (Ret (case r of Inr mapped \<Rightarrow> mapped | Inl _ \<Rightarrow> - 12),
                set_current (p\<lparr>p_space := (p_space p)\<lparr>as_vmas := vmas\<rparr>\<rparr>) k)
        }))"

definition syscall_munmap :: "SyscallFrame \<Rightarrow> 'a kernel_scheme \<Rightarrow> (sys_result \<times> 'a kernel_scheme) option" where
  "syscall_munmap fr k =
     with_process 0 k (\<lambda>p. do {
       (_, a, k) \<leftarrow> munmap (p_space p) (fr_rdi fr) (fr_rsi fr) k;
       Some (Ret 0, set_current (p\<lparr>p_space := a\<rparr>) k)
     })"

definition syscall_brk :: "SyscallFrame \<Rightarrow> 'a kernel_scheme \<Rightarrow> (sys_result \<times> 'a kernel_scheme) option" where
  "syscall_brk fr k =
     (let requested = fr_rdi fr
      in with_process 0 k (\<lambda>p.
        if requested = 0 \<or> requested \<le> p_brk_current p then Some (Ret (p_brk_current p), k)
        else do {
          top \<leftarrow> checked_add requested 0xFFF;
          let aligned = top AND NOT 0xFFF;
          (r, vmas) \<leftarrow> extend_heap (as_vmas (p_space p)) (p_brk_start p) aligned;
          let p = p\<lparr>p_space := (p_space p)\<lparr>as_vmas := vmas\<rparr>\<rparr>;
          Some (case r of
              Inr _ \<Rightarrow> (Ret aligned, set_current (p\<lparr>p_brk_current := aligned\<rparr>) k)
            | Inl _ \<Rightarrow> (Ret (p_brk_current p), set_current p k))
        }))"

section \<open>Fork\<close>

definition frame_words :: "SyscallFrame \<Rightarrow> u64 list" where
  "frame_words fr =
     [fr_r15 fr, fr_r14 fr, fr_r13 fr, fr_r12 fr, fr_rbp fr, fr_rbx fr, fr_r9 fr, fr_r8 fr, fr_r10 fr, fr_rdx fr,
      fr_rsi fr, fr_rdi fr, fr_rax fr, fr_user_rsp fr, fr_r11 fr, fr_rcx fr]"

definition frame_bytes :: "SyscallFrame \<Rightarrow> bytes" where
  "frame_bytes fr = concat (map (to_le_bytes 8) (frame_words fr))"

definition overlap_4k :: "u64 \<Rightarrow> u64 \<Rightarrow> bool" where
  "overlap_4k src dst = (uint src < uint dst + 4096 \<and> uint dst < uint src + 4096)"

text \<open>
  The copy of one page. \<^verbatim>\<open>copy_nonoverlapping\<close> checks in a debug build that the two ranges are disjoint, which includes
  the case that the code itself panics on.
\<close>

definition fork_page :: "u64 \<Rightarrow> u64 \<Rightarrow> Pid \<Rightarrow> VMA \<Rightarrow> u64 \<Rightarrow> 'a kmem_scheme \<Rightarrow> 'a kmem_scheme option" where
  "fork_page parent_pt child_pt new_pid vma addr s = do {
     t \<leftarrow> translate parent_pt addr s;
     (case t of
        None \<Rightarrow> Some s
      | Some src_phys \<Rightarrow> do {
          (page, s) \<leftarrow> alloc_page BuddyPages s;
          (_, dst_phys) \<leftarrow> page;
          s \<leftarrow> track dst_phys 0 (owner_tag (vma_kind vma)) new_pid s;
          src \<leftarrow> phys_to_virt src_phys;
          dst \<leftarrow> phys_to_virt dst_phys;
          if overlap_4k src_phys dst_phys then None
          else do {
            let s = s\<lparr>ram := store_bytes (ram s) (deref_phys dst) (load_bytes (ram s) (deref_phys src) 4096)\<rparr>;
            (r, s) \<leftarrow> map_4kb BuddyPages child_pt addr dst_phys (to_page_flags (vma_flags vma)) s;
            _ \<leftarrow> r;
            Some s
          }
        })
   }"

function fork_area :: "u64 \<Rightarrow> u64 \<Rightarrow> Pid \<Rightarrow> VMA \<Rightarrow> u64 \<Rightarrow> 'a kmem_scheme \<Rightarrow> 'a kmem_scheme option" where
  "fork_area parent_pt child_pt new_pid vma addr s =
     (if addr < vma_end vma then do {
        s \<leftarrow> fork_page parent_pt child_pt new_pid vma addr s;
        addr' \<leftarrow> checked_add addr 0x1000;
        fork_area parent_pt child_pt new_pid vma addr' s
      }
      else Some s)"
  by pat_completeness auto
termination
proof (relation "measure (\<lambda>(p, c, i, v, addr, s). 2 ^ 64 - unat addr)", goal_cases)
  case (2 parent_pt child_pt new_pid vma addr s s' addr')
  have "checked_add addr 0x1000 = Some addr'" by (rule 2)
  then have "unat addr' = unat addr + 0x1000" by (auto dest: checked_add_unat)
  moreover have "unat addr' < 2 ^ 64" using unsigned_less [of addr'] by simp
  ultimately show ?case by simp
qed simp

declare fork_area.simps [simp del]

fun fork_areas ::
    "u64 \<Rightarrow> Pid \<Rightarrow> VMA list \<Rightarrow> AddressSpace \<Rightarrow> 'a kmem_scheme \<Rightarrow> (AddressSpace option \<times> 'a kmem_scheme) option" where
  "fork_areas parent_pt new_pid [] child_as s = Some (Some child_as, s)"
| "fork_areas parent_pt new_pid (vma # vs) child_as s =
     (case add_vma (as_vmas child_as) vma of
        Inl _ \<Rightarrow> Some (None, s)
      | Inr vmas \<Rightarrow> do {
          s \<leftarrow> fork_area parent_pt (as_page_table child_as) new_pid vma (vma_start vma) s;
          fork_areas parent_pt new_pid vs (child_as\<lparr>as_vmas := vmas\<rparr>) s
        })"

definition KSTACK_ORDER :: nat where "KSTACK_ORDER = 3"

text \<open>The kernel stack of the child: the saved registers with result 0, below them the address of the trampoline.\<close>

definition fork_kstack :: "u64 \<Rightarrow> u64 \<Rightarrow> u64 \<Rightarrow> SyscallFrame \<Rightarrow> 'a kernel_scheme \<Rightarrow> 'a kernel_scheme" where
  "fork_kstack kstack_virt frame_base trampoline_slot fr k =
     (let k = clear_mem kstack_virt 32768 k;
          k = k\<lparr>ram := store_bytes (ram k) (deref_phys frame_base) (frame_bytes (fr\<lparr>fr_rax := 0\<rparr>))\<rparr>
      in poke64 trampoline_slot (k_trampoline k) k)"

definition process_fork :: "Process \<Rightarrow> Pid \<Rightarrow> SyscallFrame \<Rightarrow> 'a kernel_scheme \<Rightarrow> (Process option \<times> 'a kernel_scheme) option" where
  "process_fork p new_pid fr k = do {
     (kstack_phys, k) \<leftarrow> buddy_alloc KSTACK_ORDER k;
     (case kstack_phys of None \<Rightarrow> Some (None, k) | Some kstack_phys \<Rightarrow> do {
       k \<leftarrow> track kstack_phys KSTACK_ORDER ''proc:stack'' new_pid k;
       kstack_virt \<leftarrow> phys_to_virt kstack_phys;
       kstack_top \<leftarrow> checked_add kstack_virt 32768;
       frame_base \<leftarrow> checked_sub kstack_top 128;
       trampoline_slot \<leftarrow> checked_sub frame_base 8;
       let k = fork_kstack kstack_virt frame_base trampoline_slot fr k;
       kernel_space \<leftarrow> k_space k;
       (child_pt, k) \<leftarrow> PageTableManager_new_user (as_page_table kernel_space) BuddyPages new_pid k;
       (case child_pt of None \<Rightarrow> Some (None, k) | Some child_pt \<Rightarrow> do {
         (child_as, k) \<leftarrow> fork_areas (as_page_table (p_space p)) new_pid (as_vmas (p_space p)) (AddressSpace_new child_pt new_pid) k;
         (case child_as of None \<Rightarrow> Some (None, k) | Some child_as \<Rightarrow> do {
           parent_table \<leftarrow> phys_to_virt (as_page_table (p_space p));
           child_table \<leftarrow> phys_to_virt (as_page_table child_as);
           let k = k\<lparr>ram := copy_entries child_table parent_table (map of_nat [256..<512]) (ram k)\<rparr>;
           k \<leftarrow> map_kernel_image (as_page_table child_as) (k_image_base k) (k_image_size k) k;
           (fds, io) \<leftarrow> fork_clone (p_fds p) (k_io k);
           let k = k\<lparr>k_io := io\<rparr>;
           _ \<leftarrow> check_metadata_integrity k;
           Some (Some \<lparr>p_pid = new_pid, p_parent_pid = p_pid p, p_state = Ready, p_exit_code = 0,
                       p_context = Context_zero\<lparr>ctx_rbp := frame_base, ctx_rsp := trampoline_slot\<rparr>,
                       p_kernel_stack_alloc = Some (kstack_phys, KSTACK_ORDER), p_kernel_stack_top = kstack_top,
                       p_space = child_as, p_fds = fds, p_fs_base = p_fs_base p, p_brk_start = p_brk_start p,
                       p_brk_current = p_brk_current p, p_cwd = p_cwd p\<rparr>, k)
         })
       })
     })
   }"

definition syscall_fork :: "SyscallFrame \<Rightarrow> 'a kernel_scheme \<Rightarrow> (sys_result \<times> 'a kernel_scheme) option" where
  "syscall_fork fr k = do {
     new_pid \<leftarrow> alloc_pid (k_sched k);
     (child, k) \<leftarrow>
       (case current (k_sched k) of
          Some parent \<Rightarrow> process_fork parent new_pid fr k
        | None \<Rightarrow> Some (None, k));
     (case child of
        None \<Rightarrow> Some (Ret (- 12), k)
      | Some child \<Rightarrow> do {
          _ \<leftarrow> translate (as_page_table (p_space child)) 0x687000 k;
          let (added, sched) = add_process child (k_sched k);
          _ \<leftarrow> added;
          Some (Ret (p_pid child), k\<lparr>k_sched := sched\<rparr>)
        })
   }"

section \<open>Execve\<close>

text \<open>\<^verbatim>\<open>wrmsr\<close> raises a general protection fault for a base that is not canonical, and the handler panics.\<close>

definition write_fs_base :: "u64 \<Rightarrow> 'a kernel_scheme \<Rightarrow> 'a kernel_scheme option" where
  "write_fs_base val k =
     (if 0x0000800000000000 \<le> val \<and> val < 0xffff800000000000 then None else Some (k\<lparr>k_fs_base := val\<rparr>))"

definition setup_child_fs :: "'a kernel_scheme \<Rightarrow> 'a kernel_scheme option" where
  "setup_child_fs k = write_fs_base (case current (k_sched k) of Some p \<Rightarrow> p_fs_base p | None \<Rightarrow> 0) k"

definition highest_end :: "VMA list \<Rightarrow> u64" where
  "highest_end vmas = fold (\<lambda>v h. if vma_kind v \<noteq> Stack \<and> h < vma_end v then vma_end v else h) vmas 0"

definition USTACK_VIRT :: u64 where "USTACK_VIRT = 0x7fff0000"
definition USTACK_PAGES :: nat where "USTACK_PAGES = 128"

definition exec_stack_page :: "u64 \<Rightarrow> u64 \<Rightarrow> nat \<Rightarrow> 'a kmem_scheme \<Rightarrow> 'a kmem_scheme option" where
  "exec_stack_page root ustack_base i s = do {
     off \<leftarrow> checked_mul (of_nat i) 0x1000;
     addr \<leftarrow> checked_add ustack_base off;
     (page, s) \<leftarrow> alloc_page BuddyPages s;
     (_, phys) \<leftarrow> page;
     (r, s) \<leftarrow> map_4kb BuddyPages root addr phys USTACK_FLAGS s;
     _ \<leftarrow> r;
     Some s
   }"

definition exec_tcb :: "u64 \<Rightarrow> Process \<Rightarrow> 'a kernel_scheme \<Rightarrow> (Process \<times> 'a kernel_scheme) option" where
  "exec_tcb canary p k = do {
     (page, k) \<leftarrow> alloc_page BuddyPages k;
     (case page of
        None \<Rightarrow> Some (p, k)
      | Some (_, tcb_phys) \<Rightarrow> do {
          virt \<leftarrow> phys_to_virt tcb_phys;
          p0 \<leftarrow> checked_add virt (TCB_FS_BASE AND 0xFFF);
          p1 \<leftarrow> checked_add p0 0x10;
          p2 \<leftarrow> checked_add p0 0x28;
          let k = poke64 p2 canary (poke64 p1 TCB_FS_BASE (poke64 p0 TCB_FS_BASE (clear_mem virt 0x1000 k)));
          (r, k) \<leftarrow> map_4kb BuddyPages (as_page_table (p_space p)) TCB_PAGE tcb_phys USTACK_FLAGS k;
          _ \<leftarrow> r;
          let a = add_vma_ok (VMA_new TCB_PAGE (TCB_PAGE + 0x1000) VMAFlags_rw Anonymous) (p_space p);
          k \<leftarrow> write_fs_base TCB_FS_BASE k;
          Some (p\<lparr>p_space := a, p_fs_base := TCB_FS_BASE\<rparr>, k)
        })
   }"

definition exec_frame :: "u64 \<Rightarrow> u64 \<Rightarrow> SyscallFrame" where
  "exec_frame entry new_rsp =
     \<lparr>fr_r15 = 0, fr_r14 = 0, fr_r13 = 0, fr_r12 = 0, fr_rbp = 0, fr_rbx = 0, fr_r9 = 0, fr_r8 = 0, fr_r10 = 0,
      fr_rdx = 0, fr_rsi = 0, fr_rdi = 0, fr_rax = 0, fr_user_rsp = new_rsp, fr_r11 = 0x202, fr_rcx = entry\<rparr>"

text \<open>Replacing the program of a process: the old areas go before the new file is looked at.\<close>

definition exec_image ::
    "bytes \<Rightarrow> string list \<Rightarrow> string list \<Rightarrow> SyscallFrame \<Rightarrow> Process \<Rightarrow> 'a kernel_scheme \<Rightarrow>
      (sys_result \<times> SyscallFrame \<times> 'a kernel_scheme) option" where
  "exec_image elf_data argv envp fr p k = do {
     (a, k) \<leftarrow> clear_user (p_space p) k;
     (r, a, k) \<leftarrow> load_elf elf_data a k;
     (case r of
        Inl _ \<Rightarrow> Some (Ret (- 8), fr, set_current (p\<lparr>p_space := a\<rparr>) k)
      | Inr entry \<Rightarrow> do {
          let ehdr = ehdr_of elf_data;
          elf_phdr_vaddr \<leftarrow> checked_add 0x400000 (e_phoff ehdr);
          brk \<leftarrow> checked_add (highest_end (as_vmas a)) 0xFFF;
          let brk = brk AND NOT 0xFFF;
          let ustack_base = USTACK_VIRT - of_nat USTACK_PAGES * 0x1000;
          k \<leftarrow> for_each (exec_stack_page (as_page_table a) ustack_base) [0..<USTACK_PAGES] k;
          let a = add_vma_ok (VMA_new ustack_base (USTACK_VIRT + 0x1000) VMAFlags_rw Stack) a;
          (new_rsp, at_random, k) \<leftarrow>
            build_argv_envp_stack USTACK_VIRT (as_page_table a) argv envp entry elf_phdr_vaddr
              (ucast (e_phentsize ehdr)) (ucast (e_phnum ehdr)) k;
          (p, k) \<leftarrow> exec_tcb (le_word (take 8 at_random)) (p\<lparr>p_space := a, p_brk_start := brk, p_brk_current := brk\<rparr>) k;
          Some (Ret 0, exec_frame entry new_rsp, set_current p k)
        })
   }"

definition syscall_execve :: "SyscallFrame \<Rightarrow> 'a kernel_scheme \<Rightarrow> (sys_result \<times> SyscallFrame \<times> 'a kernel_scheme) option" where
  "syscall_execve fr k = do {
     (raw_path, k) \<leftarrow> read_user_cstr (fr_rdi fr) 256 k;
     (case raw_path of
        None \<Rightarrow> Some (Ret (- 14), fr, k)
      | Some raw_path \<Rightarrow> do {
          let path = resolve_path (cwd_of k) raw_path;
          (argv, k) \<leftarrow> read_user_cstr_array (fr_rsi fr) 32 k;
          (envp, k) \<leftarrow> read_user_cstr_array (fr_rdx fr) 64 k;
          let envp = (if envp = [] then [''PATH=/''] else envp);
          (case open_file path (k_rootfs k) of
             None \<Rightarrow> Some (Ret (- 2), fr, k)
           | Some node \<Rightarrow> do {
               elf_data \<leftarrow> read_all node (k_rootfs k);
               cur \<leftarrow> current_mut (k_sched k);
               (case cur of
                  None \<Rightarrow> Some (Ret (- 1), fr, k)
                | Some p \<Rightarrow> exec_image elf_data argv envp fr p k)
             })
        })
   }"

section \<open>Exit and wait\<close>

text \<open>Waking the parent: the first slot that holds a waiting process with that number.\<close>

definition wake_parent :: "Pid \<Rightarrow> Scheduler \<Rightarrow> Scheduler" where
  "wake_parent parent_pid sched =
     (case position (\<lambda>slot. case slot of None \<Rightarrow> False | Some q \<Rightarrow> p_pid q = parent_pid \<and> p_state q = Waiting)
             (processes sched) of
        None \<Rightarrow> sched
      | Some i \<Rightarrow> set_process i (map_option (\<lambda>q. q\<lparr>p_state := Ready\<rparr>) (processes sched ! i)) sched)"

definition syscall_exit :: "SyscallFrame \<Rightarrow> 'a kernel_scheme \<Rightarrow> (sys_result \<times> 'a kernel_scheme) option" where
  "syscall_exit fr k = do {
     cur \<leftarrow> current_mut (k_sched k);
     let k = (case cur of
                None \<Rightarrow> k
              | Some p \<Rightarrow>
                  let (p, io) = close_all [0..<FD_MAX] (p\<lparr>p_exit_code := ucast (fr_rdi fr), p_state := Dead\<rparr>) (k_io k)
                  in upd_sched (wake_parent (p_parent_pid p)) (set_current p (k\<lparr>k_io := io\<rparr>)));
     (sw, k) \<leftarrow> schedule k;
     Some (NoReturn sw, k)
   }"

definition child_of :: "Pid \<Rightarrow> int \<Rightarrow> Process \<Rightarrow> bool" where
  "child_of caller_pid target_pid p =
     (p_parent_pid p = caller_pid \<and> (target_pid \<le> 0 \<or> sint (p_pid p) = target_pid))"

definition find_zombie :: "Pid \<Rightarrow> int \<Rightarrow> Scheduler \<Rightarrow> nat option" where
  "find_zombie caller_pid target_pid sched =
     position (\<lambda>slot. case slot of None \<Rightarrow> False | Some p \<Rightarrow> child_of caller_pid target_pid p \<and> p_state p = Dead) (processes sched)"

definition reap :: "u64 \<Rightarrow> nat \<Rightarrow> 'a kernel_scheme \<Rightarrow> (sys_result \<times> 'a kernel_scheme) option" where
  "reap status_ptr idx k = do {
     zombie \<leftarrow> processes (k_sched k) ! idx;
     let k = upd_sched (set_process idx None) k;
     (_, k) \<leftarrow> destroy (p_space zombie) k;
     k \<leftarrow> (case p_kernel_stack_alloc zombie of
             None \<Rightarrow> Some k
           | Some (kphys, order) \<Rightarrow> buddy_free kphys order k);
     k \<leftarrow> (if status_ptr = 0 then Some k
           else map_option snd (write_to_user status_ptr (to_le_bytes 4 (push_bit 8 (p_exit_code zombie AND 0xFF))) k));
     Some (Ret (p_pid zombie), k)
   }"

definition syscall_wait4 :: "SyscallFrame \<Rightarrow> 'a kernel_scheme \<Rightarrow> (sys_result \<times> 'a kernel_scheme) option" where
  "syscall_wait4 fr k =
     (let target_pid = sint (ucast (fr_rdi fr) :: u32)
      in with_process (- 1) k (\<lambda>caller.
        case find_zombie (p_pid caller) target_pid (k_sched k) of
          Some idx \<Rightarrow> reap (fr_rsi fr) idx k
        | None \<Rightarrow>
            if \<not> list_ex (\<lambda>slot. case slot of None \<Rightarrow> False | Some p \<Rightarrow> child_of (p_pid caller) target_pid p)
                   (processes (k_sched k)) then Some (Ret (- 10), k)
            else if fr_rdx fr AND 1 \<noteq> 0 then Some (Ret 0, k)
            else do {
              (sw, k) \<leftarrow> schedule (set_current (caller\<lparr>p_state := Waiting\<rparr>) k);
              Some (Suspend sw, k)
            }))"

section \<open>Identity, time and signals\<close>

definition current_field :: "u64 \<Rightarrow> (Process \<Rightarrow> u64) \<Rightarrow> 'a kernel_scheme \<Rightarrow> (sys_result \<times> 'a kernel_scheme) option" where
  "current_field none f k = with_process none k (\<lambda>p. Some (Ret (f p), k))"

definition ARCH_SET_FS :: u64 where "ARCH_SET_FS = 0x1002"
definition ARCH_GET_FS :: u64 where "ARCH_GET_FS = 0x1003"

definition syscall_arch_prctl :: "SyscallFrame \<Rightarrow> 'a kernel_scheme \<Rightarrow> (sys_result \<times> 'a kernel_scheme) option" where
  "syscall_arch_prctl fr k =
     with_process (- 1) k (\<lambda>p.
       if fr_rdi fr = ARCH_SET_FS then do {
         k \<leftarrow> write_fs_base (fr_rsi fr) (set_current (p\<lparr>p_fs_base := fr_rsi fr\<rparr>) k);
         Some (Ret 0, k)
       }
       else if fr_rdi fr = ARCH_GET_FS then do {
         (_, k) \<leftarrow> write_to_user (fr_rsi fr) (to_le_bytes 8 (p_fs_base p)) k;
         Some (Ret 0, k)
       }
       else Some (Ret (- 22), k))"

definition random_bytes :: "u64 \<Rightarrow> nat \<Rightarrow> bytes" where
  "random_bytes tsc n = map (\<lambda>i. (to_le_bytes 8 tsc ! (i mod 8) + of_nat i) * 0x6D) [0..<n]"

definition syscall_getrandom :: "SyscallFrame \<Rightarrow> 'a kernel_scheme \<Rightarrow> (sys_result \<times> 'a kernel_scheme) option" where
  "syscall_getrandom fr k =
     (if fr_rdi fr = 0 \<or> fr_rsi fr = 0 then Some (Ret 0, k)
      else let (tsc, k) = rdtsc k
        in if 0x8000000000000000 \<le> fr_rsi fr then None
        else do {
          (ok, k) \<leftarrow> write_to_user (fr_rdi fr) (random_bytes tsc (unat (fr_rsi fr))) k;
          Some (Ret (if ok then fr_rsi fr else - 14), k)
        })"

definition syscall_clock_gettime :: "SyscallFrame \<Rightarrow> 'a kernel_scheme \<Rightarrow> (sys_result \<times> 'a kernel_scheme) option" where
  "syscall_clock_gettime fr k =
     (if fr_rsi fr = 0 then Some (Ret (- 14), k)
      else do {
        ms \<leftarrow> checked_mul (k_ticks k) 10;
        (ok, k) \<leftarrow> write_to_user (fr_rsi fr)
          (to_le_bytes 8 (ms div 1000) @ to_le_bytes 8 ((ms mod 1000) * 1000000)) k;
        Some (Ret (if ok then 0 else - 14), k)
      })"

definition syscall_clock_getres :: "SyscallFrame \<Rightarrow> 'a kernel_scheme \<Rightarrow> (sys_result \<times> 'a kernel_scheme) option" where
  "syscall_clock_getres fr k =
     (if fr_rsi fr = 0 then Some (Ret 0, k)
      else do {
        (_, k) \<leftarrow> write_to_user (fr_rsi fr) (to_le_bytes 8 (0 :: u64) @ to_le_bytes 8 (10000000 :: u64)) k;
        Some (Ret 0, k)
      })"

definition syscall_time :: "SyscallFrame \<Rightarrow> 'a kernel_scheme \<Rightarrow> (sys_result \<times> 'a kernel_scheme) option" where
  "syscall_time fr k = do {
     let sec = k_ticks k div 100;
     k \<leftarrow> (if fr_rdi fr = 0 then Some k else map_option snd (write_to_user (fr_rdi fr) (to_le_bytes 8 sec) k));
     Some (Ret sec, k)
   }"

definition syscall_futex :: "SyscallFrame \<Rightarrow> 'a kernel_scheme \<Rightarrow> (sys_result \<times> 'a kernel_scheme) option" where
  "syscall_futex fr k =
     (let op = (ucast (fr_rsi fr) :: u32) AND 0x7F
      in if op = 0 then do { (sw, k) \<leftarrow> schedule k; Some (SuspendRet sw (- 11), k) }
      else if op = 1 then Some (Ret 0, k)
      else Some (Ret (- 38), k))"

definition syscall_yield :: "'a kernel_scheme \<Rightarrow> (sys_result \<times> 'a kernel_scheme) option" where
  "syscall_yield k = do { (sw, k) \<leftarrow> schedule k; Some (SuspendRet sw 0, k) }"

definition kill_process :: "Pid \<Rightarrow> 'a kernel_scheme \<Rightarrow> 'a kernel_scheme" where
  "kill_process tgid k =
     (case position (\<lambda>slot. case slot of None \<Rightarrow> False | Some p \<Rightarrow> p_pid p = tgid) (processes (k_sched k)) of
        None \<Rightarrow> k
      | Some i \<Rightarrow>
          (case processes (k_sched k) ! i of
             None \<Rightarrow> k
           | Some p \<Rightarrow>
               let (p, io) = close_all [0..<FD_MAX] (p\<lparr>p_state := Dead\<rparr>) (k_io k)
               in upd_sched (set_process i (Some p)) (k\<lparr>k_io := io\<rparr>)))"

definition syscall_tgkill :: "SyscallFrame \<Rightarrow> 'a kernel_scheme \<Rightarrow> (sys_result \<times> 'a kernel_scheme) option" where
  "syscall_tgkill fr k = do {
     let k = kill_process (fr_rdi fr) k;
     cur \<leftarrow> current_mut (k_sched k);
     if (case cur of None \<Rightarrow> 0 | Some p \<Rightarrow> p_pid p) = fr_rdi fr
     then do { (sw, k) \<leftarrow> schedule k; Some (NoReturn sw, k) }
     else Some (Ret 0, k)
   }"

definition CLONE_THREAD :: u64 where "CLONE_THREAD = 0x10000"

definition syscall_clone :: "SyscallFrame \<Rightarrow> 'a kernel_scheme \<Rightarrow> (sys_result \<times> 'a kernel_scheme) option" where
  "syscall_clone fr k = (if fr_rdi fr AND CLONE_THREAD \<noteq> 0 then Some (Ret (- 38), k) else syscall_fork fr k)"

section \<open>The dispatcher\<close>

text \<open>The calls that answer without doing anything.\<close>

definition nr_constant :: "u64 \<Rightarrow> u64 option" where
  "nr_constant nr =
     map_of [(107, 0), (40, - 22), (10, 0), (13, 0), (14, 0), (35, 0), (230, 0), (102, 0), (104, 0), (108, 0),
             (105, 0), (106, 0), (267, - 2), (273, 0), (302, 0), (334, - 38), (332, - 38)] nr"

definition nr_handler :: "u64 \<Rightarrow> (SyscallFrame \<Rightarrow> 'a kernel_scheme \<Rightarrow> (sys_result \<times> 'a kernel_scheme) option) option" where
  "nr_handler nr =
     map_of [(0, syscall_read), (1, syscall_write), (2, syscall_open), (3, syscall_close), (4, syscall_stat),
       (6, syscall_stat), (5, syscall_fstat), (262, syscall_newfstatat), (72, syscall_fcntl),
       (39, \<lambda>fr. current_field 0 p_pid), (110, \<lambda>fr. current_field 0 p_parent_pid), (79, syscall_getcwd),
       (57, syscall_fork), (56, syscall_clone), (61, syscall_wait4), (80, syscall_chdir), (83, syscall_mkdir),
       (82, syscall_rename), (87, syscall_unlink), (263, syscall_unlinkat), (60, syscall_exit), (231, syscall_exit),
       (24, \<lambda>fr. syscall_yield), (9, syscall_mmap), (11, syscall_munmap), (12, syscall_brk), (16, syscall_ioctl),
       (217, syscall_getdents64), (218, \<lambda>fr. current_field 0 p_pid), (201, syscall_time), (234, syscall_tgkill),
       (158, syscall_arch_prctl), (20, syscall_writev), (17, syscall_pread64), (21, syscall_access),
       (32, syscall_dup), (33, syscall_dup2), (186, \<lambda>fr. current_field 1 p_pid), (63, syscall_uname),
       (202, syscall_futex), (228, syscall_clock_gettime), (229, syscall_clock_getres), (22, syscall_pipe),
       (293, syscall_pipe), (8, syscall_lseek), (257, syscall_openat), (269, syscall_faccessat),
       (318, syscall_getrandom)] nr"

definition EXECVE :: u64 where "EXECVE = 59"

definition syscall_handler :: "SyscallFrame \<Rightarrow> 'a kernel_scheme \<Rightarrow> (sys_result \<times> SyscallFrame \<times> 'a kernel_scheme) option" where
  "syscall_handler fr k =
     (if fr_rax fr = EXECVE then syscall_execve fr k
      else (case nr_constant (fr_rax fr) of
          Some r \<Rightarrow> Some (Ret r, fr, k)
        | None \<Rightarrow>
            (case nr_handler (fr_rax fr) of
               Some h \<Rightarrow> map_option (\<lambda>(r, k). (r, fr, k)) (h fr k)
             | None \<Rightarrow> Some (Ret (- 38), fr, k))))"

end
