(* ===== verification/Vfs_Spec.thy ===== *)
theory Vfs_Spec
  imports Vfs
begin

text \<open>
  What the file system promises: a contract for file nodes with its two implementations, and the
  in-memory file system as a finite map from paths to typed contents.
\<close>

section \<open>The contract of a node\<close>

text \<open>A file node promises that its size is the length of its contents and that reads return parts of them.\<close>

locale file_node =
  fixes stat :: "'n \<Rightarrow> Stat" and read :: "'n \<Rightarrow> nat \<Rightarrow> nat \<Rightarrow> string + bytes" and contents :: "'n \<Rightarrow> bytes"
  assumes stat_size: "st_size (stat n) = length (contents n)"
    and read_part: "read n offset buf_len = Inr (take buf_len (drop offset (contents n)))"
begin

lemma read_whole: "read n 0 (st_size (stat n)) = Inr (contents n)"
  by (simp add: read_part stat_size)

lemma read_eof: "read n offset buf_len = Inr [] \<longleftrightarrow> buf_len = 0 \<or> st_size (stat n) \<le> offset"
  by (simp add: read_part stat_size)

text \<open>Reading on from where the last read stopped yields consecutive parts.\<close>

lemma read_consecutive:
  assumes "read n offset a = Inr xs" and "read n (offset + length xs) b = Inr ys"
  shows "xs @ ys = take (length (xs @ ys)) (drop offset (contents n))"
proof -
  let ?d = "drop offset (contents n)"
  have xs: "xs = take a ?d" and ys: "ys = take b (drop (length xs) ?d)"
    using assms by (simp_all add: read_part add.commute)
  have part: "take (length (take k d)) d = take k d" for k and d :: bytes by (cases "k \<le> length d") auto
  have "take (length xs) ?d = xs" using part xs by metis
  moreover have "take (length ys) (drop (length xs) ?d) = ys" using part ys by metis
  ultimately show ?thesis by (simp add: take_add)
qed

end

lemma stat_inner_size: "st_size (stat_inner n) = length (node_data n)"
  by (simp add: stat_inner_def)

lemma read_inner_part: "read_inner n offset buf_len = Inr (take buf_len (drop offset (node_data n)))"
  by (auto simp: read_inner_def Let_def min_def)

lemma procfs_read_part: "procfs_read n offset buf_len = Inr (take buf_len (drop offset (proc_data n)))"
  by (auto simp: procfs_read_def Let_def min_def)

interpretation ramfs: file_node stat_inner read_inner node_data
  by unfold_locales (simp_all add: stat_inner_size read_inner_part)

interpretation procfs: file_node procfs_stat procfs_read proc_data
  by unfold_locales (simp_all add: procfs_stat_def procfs_read_part)

fun vfs_contents :: "VfsNode \<Rightarrow> Ramfs \<Rightarrow> bytes option" where
  "vfs_contents (RamfsHandle i) fs = map_option node_data (node_at i fs)"
| "vfs_contents (ProcfsFile n) fs = Some (proc_data n)"

lemma vfs_size: "map_option st_size (vfs_stat n fs) = map_option length (vfs_contents n fs)"
  by (cases n) (simp_all add: option.map_comp comp_def ramfs.stat_size procfs.stat_size)

lemma vfs_read_part:
  "vfs_read n offset buf_len fs = map_option (\<lambda>d. Inr (take buf_len (drop offset d))) (vfs_contents n fs)"
  by (cases n) (simp_all add: option.map_comp comp_def ramfs.read_part procfs.read_part)

text \<open>
  \<^verbatim>\<open>read_all\<close> returns exactly the contents of the node, for both kinds of node: the buffer that it
  allocates from \<^verbatim>\<open>stat\<close> is filled completely by the single \<^verbatim>\<open>read\<close>.
\<close>

theorem read_all_contents: "read_all n fs = vfs_contents n fs"
proof (cases n)
  case (RamfsHandle i)
  then show ?thesis by (cases "node_at i fs") (simp_all add: read_all_def Let_def ramfs.read_part ramfs.stat_size)
next
  case (ProcfsFile p)
  then show ?thesis by (simp add: read_all_def Let_def procfs.read_part procfs.stat_size)
qed

section \<open>The file system as a map\<close>

definition fs_inv :: "Ramfs \<Rightarrow> bool" where
  "fs_inv fs \<longleftrightarrow> distinct (map entry_path (fs_entries fs)) \<and> distinct (map entry_node (fs_entries fs)) \<and>
     (\<forall>e\<in>set (fs_entries fs). entry_node e < length (fs_nodes fs))"

definition fs_abs :: "Ramfs \<Rightarrow> string \<Rightarrow> RamfsNode option" where
  "fs_abs fs p = map_option (\<lambda>e. fs_nodes fs ! entry_node e) (find (\<lambda>e. entry_path e = p) (fs_entries fs))"

lemma find_path:
  assumes "distinct (map entry_path es)"
  shows "find (\<lambda>e. entry_path e = p) es = Some e \<longleftrightarrow> e \<in> set es \<and> entry_path e = p"
  using assms by (induction es) auto

lemma find_path_None: "find (\<lambda>e. entry_path e = p) es = None \<longleftrightarrow> p \<notin> entry_path ` set es"
  by (induction es) auto

lemma fs_abs_Some:
  assumes "fs_inv fs"
  shows "fs_abs fs p = Some n \<longleftrightarrow> (\<exists>e\<in>set (fs_entries fs). entry_path e = p \<and> fs_nodes fs ! entry_node e = n)"
  using assms by (auto simp: fs_abs_def fs_inv_def find_path)

lemma fs_abs_None: "fs_abs fs p = None \<longleftrightarrow> p \<notin> entry_path ` set (fs_entries fs)"
  by (simp add: fs_abs_def find_path_None)

text \<open>Opening a path gives the node that the map has there.\<close>

lemma open_file_abs:
  assumes "fs_inv fs"
  shows "(case open_file p fs of None \<Rightarrow> None | Some h \<Rightarrow> (case h of RamfsHandle i \<Rightarrow> node_at i fs | _ \<Rightarrow> None)) = fs_abs fs p"
proof (cases "find (\<lambda>e. entry_path e = p) (fs_entries fs)")
  case (Some e)
  then have "entry_node e < length (fs_nodes fs)" using assms by (auto simp: fs_inv_def find_path)
  then show ?thesis using Some by (simp add: open_file_def fs_abs_def node_at_def)
qed (simp add: open_file_def fs_abs_def)

lemma open_file_None: "open_file p fs = None \<longleftrightarrow> fs_abs fs p = None"
  by (simp add: open_file_def fs_abs_def)

lemma list_ex_path: "list_ex (\<lambda>e. entry_path e = p) (fs_entries fs) \<longleftrightarrow> fs_abs fs p \<noteq> None"
  by (auto simp: fs_abs_None list_ex_iff)

lemma fs_push_ok:
  assumes "fs_inv fs" and "fs_abs fs p = None"
  shows "fs_inv (fs_push p n fs)" and "fs_abs (fs_push p n fs) = (fs_abs fs)(p \<mapsto> n)"
proof -
  have new: "p \<notin> entry_path ` set (fs_entries fs)" using assms(2) by (simp add: fs_abs_None)
  have lt: "\<forall>e\<in>set (fs_entries fs). entry_node e < length (fs_nodes fs)" using assms(1) by (simp add: fs_inv_def)
  then show "fs_inv (fs_push p n fs)" using assms(1) new by (auto simp: fs_inv_def fs_push_def)
  show "fs_abs (fs_push p n fs) = (fs_abs fs)(p \<mapsto> n)"
  proof
    fix q
    show "fs_abs (fs_push p n fs) q = ((fs_abs fs)(p \<mapsto> n)) q"
    proof (cases "find (\<lambda>e. entry_path e = q) (fs_entries fs)")
      case None
      then show ?thesis by (simp add: fs_abs_def fs_push_def find_append)
    next
      case (Some e)
      then have "e \<in> set (fs_entries fs)" "entry_path e = q" using assms(1) by (auto simp: fs_inv_def find_path)
      then show ?thesis using Some lt new by (auto simp: fs_abs_def fs_push_def find_append nth_append)
    qed
  qed
qed

lemma fs_set_node:
  assumes "fs_inv fs" and "find (\<lambda>e. entry_path e = p) (fs_entries fs) = Some e"
  shows "fs_inv (fs\<lparr>fs_nodes := (fs_nodes fs)[entry_node e := n]\<rparr>)"
    and "fs_abs (fs\<lparr>fs_nodes := (fs_nodes fs)[entry_node e := n]\<rparr>) = (fs_abs fs)(p \<mapsto> n)"
proof -
  have e: "e \<in> set (fs_entries fs)" "entry_path e = p" using assms by (auto simp: fs_inv_def find_path)
  then have lt: "entry_node e < length (fs_nodes fs)" using assms(1) by (simp add: fs_inv_def)
  show "fs_inv (fs\<lparr>fs_nodes := (fs_nodes fs)[entry_node e := n]\<rparr>)" using assms(1) by (simp add: fs_inv_def)
  show "fs_abs (fs\<lparr>fs_nodes := (fs_nodes fs)[entry_node e := n]\<rparr>) = (fs_abs fs)(p \<mapsto> n)"
  proof
    fix q
    show "fs_abs (fs\<lparr>fs_nodes := (fs_nodes fs)[entry_node e := n]\<rparr>) q = ((fs_abs fs)(p \<mapsto> n)) q"
    proof (cases "find (\<lambda>e. entry_path e = q) (fs_entries fs)")
      case None
      then show ?thesis using assms(2) by (auto simp: fs_abs_def)
    next
      case (Some f)
      then have f: "f \<in> set (fs_entries fs)" "entry_path f = q" using assms(1) by (auto simp: fs_inv_def find_path)
      have "distinct (map entry_node (fs_entries fs))" using assms(1) by (simp add: fs_inv_def)
      then have "f = e" if "entry_node f = entry_node e" using that e(1) f(1) by (auto simp: distinct_map inj_on_def)
      then have "entry_node f = entry_node e \<longleftrightarrow> q = p" using assms(2) Some e(2) f(2) by (metis option.inject)
      then show ?thesis using Some lt by (auto simp: fs_abs_def nth_list_update)
    qed
  qed
qed

lemma position_path:
  assumes "position (\<lambda>e. entry_path e = p) es = Some i"
  obtains e where "i < length es" and "es ! i = e" and "entry_path e = p" and "es = take i es @ e # drop (Suc i) es"
  using that assms by (auto simp: position_Some id_take_nth_drop)

lemma unlink_ok:
  assumes inv: "fs_inv fs" and "unlink p fs = (r, fs')"
  shows "r = (if fs_abs fs p = None then Inl ''not found'' else Inr ())"
    and "fs_inv fs'" and "fs_abs fs' = (fs_abs fs)(p := None)" and "fs_nodes fs' = fs_nodes fs"
proof -
  let ?es = "fs_entries fs"
  have *: "r = (if fs_abs fs p = None then Inl ''not found'' else Inr ()) \<and> fs_inv fs' \<and>
    fs_abs fs' = (fs_abs fs)(p := None) \<and> fs_nodes fs' = fs_nodes fs"
  proof (cases "position (\<lambda>e. entry_path e = p) ?es")
    case None
    then have "fs_abs fs p = None" by (auto simp: position_None fs_abs_None)
    then show ?thesis using assms None by (auto simp: unlink_def)
  next
    case (Some i)
    then obtain e where e: "i < length ?es" "?es ! i = e" "entry_path e = p" "?es = take i ?es @ e # drop (Suc i) ?es"
      by (rule position_path)
    let ?rest = "take i ?es @ drop (Suc i) ?es"
    have fs': "r = Inr ()" "fs' = fs\<lparr>fs_entries := ?rest\<rparr>" using assms(2) Some by (auto simp: unlink_def)
    have d: "distinct (map entry_path (take i ?es @ e # drop (Suc i) ?es))"
      "distinct (map entry_node (take i ?es @ e # drop (Suc i) ?es))"
      using inv e(4) by (auto simp: fs_inv_def)
    have s: "set ?es = insert e (set ?rest)" using arg_cong [OF e(4), of set] by auto
    then have inv': "fs_inv fs'"
      using inv d unfolding fs_inv_def fs'(2) by (auto simp del: append_take_drop_id)
    have "fs_abs fs p \<noteq> None" using s e(3) by (auto simp: fs_abs_None)
    moreover have "fs_abs fs' q = ((fs_abs fs)(p := None)) q" for q
    proof (cases "q = p")
      case True
      then show ?thesis using d(1) e(3) by (auto simp: fs_abs_None fs'(2))
    next
      case False
      have "find (\<lambda>e. entry_path e = q) ?es = find (\<lambda>e. entry_path e = q) ?rest"
        using False e(3) by (subst e(4)) (auto simp: find_append split: option.splits)
      then show ?thesis using False by (simp add: fs_abs_def fs'(2))
    qed
    ultimately show ?thesis using inv' fs' by auto
  qed
  then show "r = (if fs_abs fs p = None then Inl ''not found'' else Inr ())" "fs_inv fs'"
    "fs_abs fs' = (fs_abs fs)(p := None)" "fs_nodes fs' = fs_nodes fs" by auto
qed

text \<open>\<^verbatim>\<open>rename\<close> behaves as long as the new path is free.\<close>

lemma rename_ok:
  assumes inv: "fs_inv fs" and new: "new \<noteq> old \<longrightarrow> fs_abs fs new = None" and "rename_file old new fs = (r, fs')"
  shows "r = (if fs_abs fs old = None then Inl ''not found'' else Inr ())"
    and "fs_inv fs'"
    and "fs_abs fs' = (case fs_abs fs old of None \<Rightarrow> fs_abs fs | Some n \<Rightarrow> (fs_abs fs)(old := None, new \<mapsto> n))"
proof -
  let ?es = "fs_entries fs"
  have *: "r = (if fs_abs fs old = None then Inl ''not found'' else Inr ()) \<and> fs_inv fs' \<and>
    fs_abs fs' = (case fs_abs fs old of None \<Rightarrow> fs_abs fs | Some n \<Rightarrow> (fs_abs fs)(old := None, new \<mapsto> n))"
  proof (cases "position (\<lambda>e. entry_path e = old) ?es")
    case None
    then have "fs_abs fs old = None" by (auto simp: position_None fs_abs_None)
    then show ?thesis using assms None by (auto simp: rename_file_def)
  next
    case (Some i)
    then obtain e where e: "i < length ?es" "?es ! i = e" "entry_path e = old" "?es = take i ?es @ e # drop (Suc i) ?es"
      by (rule position_path)
    let ?xs = "take i ?es" and ?ys = "drop (Suc i) ?es" and ?e = "e\<lparr>entry_path := new\<rparr>"
    have fs': "r = Inr ()" "fs' = fs\<lparr>fs_entries := ?xs @ ?e # ?ys\<rparr>"
      using assms(3) Some e by (auto simp: rename_file_def upd_conv_take_nth_drop)
    have ok: "fs_inv (fs\<lparr>fs_entries := ?xs @ e # ?ys\<rparr>)" using inv e(4) by simp
    have s: "set ?es = set ?xs \<union> insert e (set ?ys)" using arg_cong [OF e(4), of set] by auto
    have nn: "new \<notin> entry_path ` (set ?xs \<union> set ?ys)"
    proof (cases "new = old")
      case True
      then show ?thesis using ok e(3) by (auto simp: fs_inv_def)
    next
      case False
      then show ?thesis using new s by (auto simp: fs_abs_None)
    qed
    have inv': "fs_inv fs'" using ok nn unfolding fs_inv_def fs'(2) by auto
    have oldn: "fs_abs fs old = Some (fs_nodes fs ! entry_node e)"
      using s e(3) by (auto simp: fs_abs_Some [OF inv])
    have "fs_abs fs' q = ((fs_abs fs)(old := None, new \<mapsto> fs_nodes fs ! entry_node e)) q" for q
    proof (cases "q = new")
      case True
      then show ?thesis using fs_abs_Some [OF inv'] by (auto simp: fs'(2))
    next
      case False
      have o: "old \<notin> entry_path ` (set ?xs \<union> set ?ys)" using ok e(3) by (auto simp: fs_inv_def)
      then have fo: "find (\<lambda>e. entry_path e = old) ?xs = None" "find (\<lambda>e. entry_path e = old) ?ys = None"
        by (auto simp: find_path_None)
      have "find (\<lambda>e. entry_path e = q) ?es = (if q = old then Some e else find (\<lambda>e. entry_path e = q) (?xs @ ?ys))"
        using fo e(3) by (subst e(4)) (cases "q = old"; auto simp: find_append split: option.splits)
      moreover have "find (\<lambda>e. entry_path e = q) (?xs @ ?e # ?ys) = find (\<lambda>e. entry_path e = q) (?xs @ ?ys)"
        using False by (simp add: find_append split: option.splits)
      moreover have "q = old \<Longrightarrow> find (\<lambda>e. entry_path e = q) (?xs @ ?ys) = None" using o by (auto simp: find_path_None)
      ultimately show ?thesis using False by (auto simp: fs_abs_def fs'(2))
    qed
    then have "fs_abs fs' = (fs_abs fs)(old := None, new \<mapsto> fs_nodes fs ! entry_node e)" by blast
    then show ?thesis using inv' fs'(1) oldn by simp
  qed
  then show "r = (if fs_abs fs old = None then Inl ''not found'' else Inr ())" "fs_inv fs'"
    "fs_abs fs' = (case fs_abs fs old of None \<Rightarrow> fs_abs fs | Some n \<Rightarrow> (fs_abs fs)(old := None, new \<mapsto> n))" by auto
qed

text \<open>The operations on paths, and what each of them means for a finite map from paths to nodes.\<close>

datatype fs_op =
    OpCreate string FileType
  | OpWrite string bytes
  | OpMkdir string
  | OpUnlink string
  | OpRename string string

fun fs_run :: "fs_op \<Rightarrow> Ramfs \<Rightarrow> (string + unit) \<times> Ramfs" where
  "fs_run (OpCreate p t) fs = create_file p t fs"
| "fs_run (OpWrite p d) fs = write_file p d fs"
| "fs_run (OpMkdir p) fs = mkdir p fs"
| "fs_run (OpUnlink p) fs = unlink p fs"
| "fs_run (OpRename old new) fs = rename_file old new fs"

fun map_run :: "fs_op \<Rightarrow> (string \<rightharpoonup> RamfsNode) \<Rightarrow> (string + unit) \<times> (string \<rightharpoonup> RamfsNode)" where
  "map_run (OpCreate p t) m =
     (if m p = None then (Inr (), m(p \<mapsto> \<lparr>node_type = t, node_data = []\<rparr>)) else (Inl ''file already exists'', m))"
| "map_run (OpWrite p d) m =
     (Inr (), m(p \<mapsto> \<lparr>node_type = (case m p of None \<Rightarrow> Regular | Some n \<Rightarrow> node_type n), node_data = d\<rparr>))"
| "map_run (OpMkdir p) m =
     (Inr (), if m p = None then m(p \<mapsto> \<lparr>node_type = Directory, node_data = []\<rparr>) else m)"
| "map_run (OpUnlink p) m = (if m p = None then (Inl ''not found'', m) else (Inr (), m(p := None)))"
| "map_run (OpRename old new) m =
     (case m old of None \<Rightarrow> (Inl ''not found'', m) | Some n \<Rightarrow> (Inr (), m(old := None, new \<mapsto> n)))"

fun fs_trace :: "fs_op list \<Rightarrow> Ramfs \<Rightarrow> (string + unit) list \<times> Ramfs" where
  "fs_trace [] fs = ([], fs)"
| "fs_trace (q # qs) fs = (let (r, fs) = fs_run q fs; (rs, fs) = fs_trace qs fs in (r # rs, fs))"

fun map_trace :: "fs_op list \<Rightarrow> (string \<rightharpoonup> RamfsNode) \<Rightarrow> (string + unit) list \<times> (string \<rightharpoonup> RamfsNode)" where
  "map_trace [] m = ([], m)"
| "map_trace (q # qs) m = (let (r, m) = map_run q m; (rs, m) = map_trace qs m in (r # rs, m))"

fun rename_free :: "fs_op \<Rightarrow> (string \<rightharpoonup> RamfsNode) \<Rightarrow> bool" where
  "rename_free (OpRename old new) m \<longleftrightarrow> (new \<noteq> old \<longrightarrow> m new = None)"
| "rename_free _ m \<longleftrightarrow> True"

fun renames_free :: "fs_op list \<Rightarrow> (string \<rightharpoonup> RamfsNode) \<Rightarrow> bool" where
  "renames_free [] m \<longleftrightarrow> True"
| "renames_free (q # qs) m \<longleftrightarrow> rename_free q m \<and> renames_free qs (snd (map_run q m))"

lemma fs_run_refines:
  assumes inv: "fs_inv fs" and "rename_free q (fs_abs fs)"
  shows "fs_inv (snd (fs_run q fs))" and "map_run q (fs_abs fs) = (fst (fs_run q fs), fs_abs (snd (fs_run q fs)))"
proof -
  have *: "fs_inv (snd (fs_run q fs)) \<and> map_run q (fs_abs fs) = (fst (fs_run q fs), fs_abs (snd (fs_run q fs)))"
  proof (cases q)
    case (OpCreate p t)
    then show ?thesis using fs_push_ok [OF inv, of p] inv by (auto simp: create_file_def list_ex_path)
  next
    case (OpWrite p d)
    show ?thesis
    proof (cases "find (\<lambda>e. entry_path e = p) (fs_entries fs)")
      case None
      then have "fs_abs fs p = None" by (simp add: fs_abs_def)
      then show ?thesis using None OpWrite fs_push_ok [OF inv, of p] by (simp add: write_file_def)
    next
      case (Some e)
      then have "fs_abs fs p = Some (fs_nodes fs ! entry_node e)" by (simp add: fs_abs_def)
      moreover have upd: "n\<lparr>node_data := d\<rparr> = \<lparr>node_type = node_type n, node_data = d\<rparr>" for n :: RamfsNode
        by (cases n) simp
      ultimately show ?thesis using Some OpWrite fs_set_node [OF inv Some] by (simp add: write_file_def upd)
    qed
  next
    case (OpMkdir p)
    then show ?thesis using fs_push_ok [OF inv, of p] inv by (auto simp: mkdir_def list_ex_path)
  next
    case (OpUnlink p)
    obtain r fs' where u: "unlink p fs = (r, fs')" by fastforce
    from unlink_ok [OF inv u] OpUnlink u show ?thesis by (auto simp: fun_upd_idem)
  next
    case (OpRename old new)
    then have "new \<noteq> old \<longrightarrow> fs_abs fs new = None" using assms(2) by simp
    moreover obtain r fs' where u: "rename_file old new fs = (r, fs')" by fastforce
    ultimately show ?thesis using rename_ok [OF inv _ u] OpRename u by (auto split: option.splits)
  qed
  then show "fs_inv (snd (fs_run q fs))" "map_run q (fs_abs fs) = (fst (fs_run q fs), fs_abs (snd (fs_run q fs)))" by auto
qed

text \<open>
  C29. Over every sequence of creations, writes, directory creations, removals and renames the file system
  behaves as a finite map from paths to typed contents: it returns the same results, keeps one entry per path
  and one node per entry, and ends in the state the map ends in; the only condition is that no rename
  goes to another path that exists.
\<close>

theorem ramfs_refines_map:
  assumes "fs_inv fs" and "renames_free qs (fs_abs fs)"
  shows "fs_inv (snd (fs_trace qs fs)) \<and> map_trace qs (fs_abs fs) = (fst (fs_trace qs fs), fs_abs (snd (fs_trace qs fs)))"
  using assms
proof (induction qs arbitrary: fs)
  case (Cons q qs)
  have q: "fs_inv (snd (fs_run q fs))" "map_run q (fs_abs fs) = (fst (fs_run q fs), fs_abs (snd (fs_run q fs)))"
    using fs_run_refines [OF Cons.prems(1)] Cons.prems(2) by auto
  have "renames_free qs (fs_abs (snd (fs_run q fs)))" using Cons.prems(2) q(2) by simp
  from Cons.IH [OF q(1) this] q(2) show ?case
    by (cases "fs_run q fs"; cases "fs_trace qs (snd (fs_run q fs))") simp
qed simp

theorem ramfs_refines_map_witness:
  "fs_inv (snd (fs_trace [OpMkdir ''/d'', OpWrite ''/d/a'' [7], OpRename ''/d/a'' ''/d/b'', OpUnlink ''/d''] Ramfs_new)) \<and>
   fst (fs_trace [OpMkdir ''/d'', OpWrite ''/d/a'' [7], OpRename ''/d/a'' ''/d/b'', OpUnlink ''/d''] Ramfs_new) =
     [Inr (), Inr (), Inr (), Inr ()]"
proof -
  have "fs_inv Ramfs_new" by (simp add: fs_inv_def Ramfs_new_def)
  moreover have abs: "fs_abs Ramfs_new = Map.empty" by (rule ext) (simp add: fs_abs_def Ramfs_new_def)
  ultimately show ?thesis
    using ramfs_refines_map [of Ramfs_new "[OpMkdir ''/d'', OpWrite ''/d/a'' [7], OpRename ''/d/a'' ''/d/b'', OpUnlink ''/d'']"]
    by (simp del: fs_trace.simps)
qed

text \<open>
  C35. Renaming a file to a path that another file has succeeds and leaves both entries under that path:
  after removing the path once, it still exists. (POSIX \<^verbatim>\<open>rename\<close> replaces the target.)
\<close>

theorem rename_keeps_target:
  assumes inv: "fs_inv fs" and "fs_abs fs old \<noteq> None" and "fs_abs fs new \<noteq> None" and "old \<noteq> new"
  shows "fst (rename_file old new fs) = Inr () \<and>
    fst (unlink new (snd (rename_file old new fs))) = Inr () \<and>
    open_file new (snd (unlink new (snd (rename_file old new fs)))) \<noteq> None"
proof -
  let ?es = "fs_entries fs" and ?new = "\<lambda>e. entry_path e = new"
  have "\<exists>e\<in>set ?es. entry_path e = old" using assms(2) by (auto simp: fs_abs_None)
  then obtain i where i: "position (\<lambda>e. entry_path e = old) ?es = Some i"
    using position_None [of "\<lambda>e. entry_path e = old" ?es] by (cases "position (\<lambda>e. entry_path e = old) ?es") auto
  then have il: "i < length ?es" "entry_path (?es ! i) = old" by (auto simp: position_Some)
  obtain j where j: "j < length ?es" "entry_path (?es ! j) = new"
    using assms(3) by (auto simp: fs_abs_None image_iff in_set_conv_nth)
  let ?es' = "?es[i := (?es ! i)\<lparr>entry_path := new\<rparr>]"
  have ij: "i \<noteq> j" using il j assms(4) by auto
  have two: "?new (?es' ! i)" "?new (?es' ! j)" using il(1) j ij by auto
  have "\<exists>e\<in>set ?es'. ?new e" using two(1) il(1) by (metis length_list_update nth_mem)
  then obtain k where k: "position ?new ?es' = Some k"
    using position_None [of ?new ?es'] by (cases "position ?new ?es'") auto
  then have kl: "k < length ?es'" by (simp add: position_Some)
  obtain l where l: "l < length ?es'" "l \<noteq> k" "?new (?es' ! l)"
    using two il(1) j(1) ij by (metis length_list_update)
  have "?es' ! l \<in> set (take k ?es' @ drop (Suc k) ?es')"
  proof (cases "l < k")
    case True
    then show ?thesis using l(1) by (auto simp: in_set_conv_nth intro!: exI [of _ l])
  next
    case False
    then have "Suc k \<le> l" using l(2) by simp
    then have "drop (Suc k) ?es' ! (l - Suc k) = ?es' ! l" "l - Suc k < length (drop (Suc k) ?es')"
      using l(1) by auto
    then show ?thesis by (metis Un_iff nth_mem set_append)
  qed
  then have "find ?new (take k ?es' @ drop (Suc k) ?es') \<noteq> None"
    using l(3) unfolding find_None_iff by blast
  then show ?thesis using i k by (simp add: rename_file_def unlink_def open_file_def)
qed

theorem rename_keeps_target_witness:
  "open_file ''/b'' (snd (unlink ''/b'' (snd (rename_file ''/a'' ''/b''
     (fs_push ''/b'' \<lparr>node_type = Regular, node_data = []\<rparr> (fs_push ''/a'' \<lparr>node_type = Regular, node_data = [1]\<rparr> Ramfs_new)))))) \<noteq> None"
  (is "open_file _ (snd (unlink _ (snd (rename_file _ _ ?fs)))) \<noteq> None")
proof -
  have "fs_inv ?fs" "fs_abs ?fs ''/a'' \<noteq> None" "fs_abs ?fs ''/b'' \<noteq> None"
    by (simp_all add: fs_inv_def fs_abs_def fs_push_def Ramfs_new_def)
  then show ?thesis using rename_keeps_target [of ?fs "''/a''" "''/b''"] by simp
qed

definition overwrite :: "nat \<Rightarrow> bytes \<Rightarrow> bytes \<Rightarrow> bytes" where
  "overwrite offset buf d = take offset d @ replicate (offset - length d) 0 @ buf @ drop (offset + length buf) d"

lemma read_overwrite: "take (length buf) (drop offset (overwrite offset buf d)) = buf"
  by (simp add: overwrite_def)

lemma handle_write_ok:
  assumes i: "i < length (fs_nodes fs)" and lim: "offset + length buf < 2 ^ 63"
  shows "vfs_write (RamfsHandle i) offset buf fs =
    Some (Inr (length buf),
      fs\<lparr>fs_nodes := (fs_nodes fs)[i := (fs_nodes fs ! i)\<lparr>node_data := overwrite offset buf (node_data (fs_nodes fs ! i))\<rparr>]\<rparr>)"
proof -
  let ?n = "fs_nodes fs ! i" and ?e = "offset + length buf"
  let ?d = "node_data ?n"
  let ?r = "if length ?d < ?e then ?d @ replicate (?e - length ?d) 0 else ?d"
  have lim': "int ?e < 2 ^ 63" using lim by simp
  have add: "usize_add offset (length buf) = Some ?e" using lim by (intro usize_add_ok) simp
  have eq: "take offset ?r @ buf @ drop ?e ?r = overwrite offset buf ?d" by (auto simp: overwrite_def min_def)
  have "vfs_write (RamfsHandle i) offset buf fs =
    Some (Inr (length buf), fs\<lparr>fs_nodes := (fs_nodes fs)[i := ?n\<lparr>node_data := take offset ?r @ buf @ drop ?e ?r\<rparr>]\<rparr>)"
    using i lim' add by (simp add: node_at_def write_inner_def)
  then show ?thesis unfolding eq .
qed



lemma in_dir_child:
  "name \<in> set (dir_child prefix e) \<longleftrightarrow> entry_path e = prefix @ name \<and> name \<noteq> [] \<and> CHR ''/'' \<notin> set name"
proof (cases "strip_prefix prefix (entry_path e)")
  case None
  then have "entry_path e \<noteq> prefix @ name" by (metis option.distinct(1) strip_prefix_eq_Some)
  then show ?thesis using None by (simp add: dir_child_def)
next
  case (Some r)
  moreover from Some have "entry_path e = prefix @ r" by (simp only: strip_prefix_eq_Some)
  ultimately show ?thesis by (auto simp: dir_child_def)
qed

lemma distinct_dir_child: "distinct (map entry_path es) \<Longrightarrow> distinct (concat (map (dir_child prefix) es))"
proof (induction es)
  case (Cons e es)
  have "distinct (dir_child prefix e)" by (simp add: dir_child_def split: option.split)
  moreover have "set (dir_child prefix e) \<inter> set (concat (map (dir_child prefix) es)) = {}"
    using Cons.prems by (force simp: in_dir_child)
  ultimately show ?case using Cons by simp
qed simp

text \<open>
  C31. \<^verbatim>\<open>list_dir\<close> lists exactly the direct children of a directory, each once: the names without a slash
  for which the directory path, a slash and the name is a path of the file system.
\<close>

theorem list_dir_children:
  assumes "fs_inv fs"
  shows "distinct (list_dir dir fs) \<and>
    (name \<in> set (list_dir dir fs) \<longleftrightarrow>
       name \<noteq> [] \<and> CHR ''/'' \<notin> set name \<and> open_file (dir_prefix dir @ name) fs \<noteq> None)"
proof
  show "distinct (list_dir dir fs)" using assms distinct_dir_child by (simp add: list_dir_def fs_inv_def)
  have "name \<in> set (list_dir dir fs) \<longleftrightarrow> (\<exists>e\<in>set (fs_entries fs). name \<in> set (dir_child (dir_prefix dir) e))"
    by (simp add: list_dir_def)
  then show "name \<in> set (list_dir dir fs) \<longleftrightarrow>
      name \<noteq> [] \<and> CHR ''/'' \<notin> set name \<and> open_file (dir_prefix dir @ name) fs \<noteq> None"
    unfolding in_dir_child open_file_None fs_abs_None image_iff by metis
qed

theorem list_dir_children_witness:
  "''x'' \<in> set (list_dir ''/d'' (fs_push ''/d/x'' \<lparr>node_type = Regular, node_data = []\<rparr> Ramfs_new))"
proof -
  let ?fs = "fs_push ''/d/x'' \<lparr>node_type = Regular, node_data = []\<rparr> Ramfs_new"
  have "fs_inv ?fs" by (simp add: fs_inv_def fs_push_def Ramfs_new_def)
  moreover have "open_file (dir_prefix ''/d'' @ ''x'') ?fs \<noteq> None"
    by (simp add: open_file_def dir_prefix_def fs_push_def Ramfs_new_def)
  ultimately show ?thesis using list_dir_children [of ?fs "''/d''" "''x''"] by simp
qed

end
