(* ===== verification/Initramfs.thy ===== *)
theory Initramfs
  imports Vfs_Spec
begin

text \<open>
  The unpacker of the initial file system (\<^verbatim>\<open>src/kernel/src/initramfs.rs\<close>): a loop over the entries of a
  cpio archive in the newc format that writes files and directories into the in-memory file system. The
  unpacker never panics on any input, and unpacks every archive that a writer of the format produces.
\<close>

section \<open>Definitions\<close>

definition NEWC_MAGIC :: bytes where
  "NEWC_MAGIC = as_bytes ''070701''"

definition normalize_path :: "string \<Rightarrow> string" where
  "normalize_path name =
     (let stripped = (case strip_prefix ''./'' name of None \<Rightarrow> name | Some rest \<Rightarrow> rest) in ''/'' @ stripped)"

text \<open>\<^verbatim>\<open>(x + 3) & !3\<close>.\<close>

definition align4 :: "nat \<Rightarrow> nat option" where
  "align4 x = map_option (\<lambda>y. 4 * (y div 4)) (usize_add x 3)"

record Header =
  hdr_mode :: u32
  hdr_namesize :: nat
  hdr_filesize :: nat

definition hex_digit :: "u8 \<Rightarrow> nat option" where
  "hex_digit b =
     (if 48 \<le> b \<and> b \<le> 57 then Some (unat (b - 48))
      else if 97 \<le> b \<and> b \<le> 102 then Some (unat (b - 97 + 10))
      else if 65 \<le> b \<and> b \<le> 70 then Some (unat (b - 65 + 10))
      else None)"

fun parse_digits :: "nat \<Rightarrow> bytes \<Rightarrow> nat option" where
  "parse_digits val [] = Some val"
| "parse_digits val (b # bs) = do { digit \<leftarrow> hex_digit b; parse_digits (val * 16 + digit) bs }"

definition parse_hex8 :: "bytes \<Rightarrow> nat option" where
  "parse_hex8 s = (if length s < 8 then None else parse_digits 0 (take 8 s))"

definition slice :: "nat \<Rightarrow> nat \<Rightarrow> 'a list \<Rightarrow> 'a list" where
  "slice from end' xs = take (end' - from) (drop from xs)"

definition Header_parse :: "bytes \<Rightarrow> Header option" where
  "Header_parse data = do {
     mode \<leftarrow> parse_hex8 (slice 14 22 data);
     filesize \<leftarrow> parse_hex8 (slice 54 62 data);
     namesize \<leftarrow> parse_hex8 (slice 94 102 data);
     Some \<lparr>hdr_mode = of_nat mode, hdr_namesize = namesize, hdr_filesize = filesize\<rparr>
   }"

text \<open>\<^verbatim>\<open>core::str::from_utf8\<close>: well-formed UTF-8, without overlong forms, surrogates or values above 10FFFF.\<close>

definition utf8_cont :: "u8 \<Rightarrow> bool" where
  "utf8_cont b \<longleftrightarrow> 0x80 \<le> b \<and> b \<le> 0xBF"

definition utf8_second :: "u8 \<Rightarrow> u8 \<Rightarrow> bool" where
  "utf8_second a b \<longleftrightarrow>
     (if a = 0xE0 then 0xA0 \<le> b \<and> b \<le> 0xBF
      else if a = 0xED then 0x80 \<le> b \<and> b \<le> 0x9F
      else if a = 0xF0 then 0x90 \<le> b \<and> b \<le> 0xBF
      else if a = 0xF4 then 0x80 \<le> b \<and> b \<le> 0x8F
      else utf8_cont b)"

fun utf8_ok :: "bytes \<Rightarrow> bool" where
  "utf8_ok [] \<longleftrightarrow> True"
| "utf8_ok (a # s) \<longleftrightarrow>
     (if a < 0x80 then utf8_ok s
      else if 0xC2 \<le> a \<and> a \<le> 0xDF then
        (case s of b # s' \<Rightarrow> utf8_cont b \<and> utf8_ok s' | _ \<Rightarrow> False)
      else if 0xE0 \<le> a \<and> a \<le> 0xEF then
        (case s of b # c # s' \<Rightarrow> utf8_second a b \<and> utf8_cont c \<and> utf8_ok s' | _ \<Rightarrow> False)
      else if 0xF0 \<le> a \<and> a \<le> 0xF4 then
        (case s of b # c # d # s' \<Rightarrow> utf8_second a b \<and> utf8_cont c \<and> utf8_cont d \<and> utf8_ok s' | _ \<Rightarrow> False)
      else False)"

definition from_utf8 :: "string \<Rightarrow> bytes \<Rightarrow> string" where
  "from_utf8 otherwise bs = (if utf8_ok bs then of_bytes bs else otherwise)"

definition trim_end_nul :: "string \<Rightarrow> string" where
  "trim_end_nul s = rev (dropWhile (\<lambda>c. c = CHR 0x00) (rev s))"

definition place_entry :: "u32 \<Rightarrow> string \<Rightarrow> bytes \<Rightarrow> Ramfs \<Rightarrow> Ramfs" where
  "place_entry file_type name file_data rootfs =
     (if file_type = 8 then
        (if name = ''.'' then rootfs else snd (write_file (normalize_path name) file_data rootfs))
      else if file_type = 4 then
        (if name = ''.'' then rootfs else snd (mkdir (normalize_path name) rootfs))
      else if file_type = 10 then
        snd (symlink (normalize_path name) (trim_end_nul (from_utf8 [] file_data)) rootfs)
      else rootfs)"

lemma align4_ge: "align4 x = Some y \<Longrightarrow> x \<le> y"
  by (auto simp: align4_def usize_add_eq_Some)

function extract_loop :: "bytes \<Rightarrow> nat \<Rightarrow> Ramfs \<Rightarrow> Ramfs option" where
  "extract_loop data pos rootfs = do {
     pos \<leftarrow> align4 pos;
     body \<leftarrow> usize_add pos 110;
     if length data < body then Some rootfs
     else if slice pos (pos + 6) data \<noteq> NEWC_MAGIC then Some rootfs
     else (case Header_parse (slice pos body data) of
        None \<Rightarrow> Some rootfs
      | Some hdr \<Rightarrow> do {
          name_end \<leftarrow> usize_add body (hdr_namesize hdr);
          if length data < name_end then Some rootfs
          else do {
            let name = from_utf8 ''<invalid>'' (takeWhile (\<lambda>b. b \<noteq> 0) (slice body name_end data));
            start \<leftarrow> align4 name_end;
            if name = ''TRAILER!!!'' then Some rootfs
            else do {
              data_end \<leftarrow> usize_add start (hdr_filesize hdr);
              if length data < data_end then Some rootfs
              else do {
                let file_data = slice start data_end data;
                next \<leftarrow> align4 data_end;
                let file_type = drop_bit 12 (hdr_mode hdr) AND 0xF;
                extract_loop data next (place_entry file_type name file_data rootfs)
              }
            }
          }
        })
   }"
  by pat_completeness auto

termination
proof (relation "measure (\<lambda>(data, pos, fs). length data + 4 - pos)", goal_cases)
  case (2 data pos fs p body hdr name_end name start data_end file_data nxt t)
  have "align4 pos = Some p" "usize_add p 110 = Some body" "\<not> length data < body"
    "usize_add body (hdr_namesize hdr) = Some name_end" "align4 name_end = Some start"
    "usize_add start (hdr_filesize hdr) = Some data_end" "align4 data_end = Some nxt" by (rule 2)+
  then have "pos \<le> p" "body = p + 110" "body \<le> length data" "body \<le> name_end" "name_end \<le> start"
    "start \<le> data_end" "data_end \<le> nxt"
    by (auto simp: usize_add_eq_Some dest: align4_ge)
  then show ?case by simp
qed simp

declare extract_loop.simps [simp del]

definition initramfs_extract :: "bytes \<Rightarrow> Ramfs \<Rightarrow> Ramfs option" where
  "initramfs_extract data rootfs = extract_loop data 0 rootfs"

section \<open>No input makes the unpacker panic\<close>

lemma hex_digit_less: "hex_digit b = Some d \<Longrightarrow> d < 16"
proof -
  assume "hex_digit b = Some d"
  moreover have "unat (b - 48) < 16" if "48 \<le> b" "b \<le> 57"
  proof -
    have "unat (b - 48) = unat b - 48" using that by (simp add: unat_sub)
    then show ?thesis using that by (simp add: word_le_nat_alt)
  qed
  moreover have "unat (b - 97 + 10) < 16" if "97 \<le> b" "b \<le> 102"
  proof -
    have "unat (b - 97) = unat b - 97" using that by (simp add: unat_sub)
    moreover have "unat (b - 97 + 10) = unat (b - 97) + 10"
      using calculation that by (subst unat_add_exact) (simp_all add: word_le_nat_alt)
    ultimately show ?thesis using that by (simp add: word_le_nat_alt)
  qed
  moreover have "unat (b - 65 + 10) < 16" if "65 \<le> b" "b \<le> 70"
  proof -
    have "unat (b - 65) = unat b - 65" using that by (simp add: unat_sub)
    moreover have "unat (b - 65 + 10) = unat (b - 65) + 10"
      using calculation that by (subst unat_add_exact) (simp_all add: word_le_nat_alt)
    ultimately show ?thesis using that by (simp add: word_le_nat_alt)
  qed
  ultimately show "d < 16" unfolding hex_digit_def by (metis option.distinct(1) option.inject)
qed

lemma parse_digits_less: "parse_digits v bs = Some n \<Longrightarrow> n < (v + 1) * 16 ^ length bs"
proof (induction bs arbitrary: v)
  case (Cons b bs)
  then obtain d where d: "hex_digit b = Some d" "parse_digits (v * 16 + d) bs = Some n"
    by (auto simp: bind_eq_Some_conv)
  from Cons.IH [OF d(2)] have "n < (v * 16 + d + 1) * 16 ^ length bs" .
  also have "\<dots> \<le> ((v + 1) * 16) * 16 ^ length bs" using hex_digit_less [OF d(1)] by (intro mult_right_mono) auto
  finally show ?case by (simp add: algebra_simps)
qed simp

lemma parse_hex8_less: "parse_hex8 s = Some n \<Longrightarrow> n < 2 ^ 32"
  by (auto simp: parse_hex8_def dest!: parse_digits_less split: if_splits)

lemma Header_parse_less:
  assumes "Header_parse d = Some hdr"
  shows "hdr_namesize hdr < 2 ^ 32" and "hdr_filesize hdr < 2 ^ 32"
  using assms by (auto simp: Header_parse_def bind_eq_Some_conv dest: parse_hex8_less)

lemma align4_ok: "x + 3 < 2 ^ 64 \<Longrightarrow> align4 x = Some (4 * ((x + 3) div 4))"
  by (simp add: align4_def arith_ok)

lemma align4_bound:
  assumes "x \<le> L" and "L < 2 ^ 63 + 4"
  shows "align4 x = Some (4 * ((x + 3) div 4))" and "4 * ((x + 3) div 4) \<le> L + 3"
  using assms by (auto intro!: align4_ok)

lemma place_entry_inv: "fs_inv fs \<Longrightarrow> fs_inv (place_entry t name d fs)"
  using fs_run_refines(1) [of fs "OpWrite (normalize_path name) d"] fs_run_refines(1) [of fs "OpMkdir (normalize_path name)"]
  by (simp add: place_entry_def symlink_def)

lemma extract_loop_returns:
  assumes "length data < 2 ^ 63" and "pos \<le> length data + 3"
  shows "\<exists>fs'. extract_loop data pos fs = Some fs' \<and> (fs_inv fs \<longrightarrow> fs_inv fs')"
  using assms
proof (induction data pos fs rule: extract_loop.induct)
  case (1 data pos fs)
  let ?p = "4 * ((pos + 3) div 4)"
  have p: "align4 pos = Some ?p" "?p \<le> length data + 6" using align4_bound [of pos "length data + 3"] 1(2,3) by auto
  have b: "usize_add ?p 110 = Some (?p + 110)" using p(2) 1(2) by (intro arith_ok) simp
  note step = extract_loop.simps [of data pos fs, unfolded p(1) b bind.bind_lunit]
  show ?case
  proof (cases "length data < ?p + 110 \<or> slice ?p (?p + 6) data \<noteq> NEWC_MAGIC \<or> Header_parse (slice ?p (?p + 110) data) = None")
    case True
    then show ?thesis unfolding step by (auto split: option.splits)
  next
    case False
    then obtain hdr where h: "Header_parse (slice ?p (?p + 110) data) = Some hdr"
      and in1: "\<not> length data < ?p + 110" "\<not> slice ?p (?p + 6) data \<noteq> NEWC_MAGIC" by auto
    note hl = Header_parse_less [OF h]
    let ?ne = "?p + 110 + hdr_namesize hdr"
    have ne: "usize_add (?p + 110) (hdr_namesize hdr) = Some ?ne" using hl p(2) 1(2) by (intro arith_ok) simp
    note step2 = step [unfolded if_not_P [OF in1(1)] if_not_P [OF in1(2)] h option.case ne bind.bind_lunit]
    show ?thesis
    proof (cases "length data < ?ne")
      case True
      then show ?thesis unfolding step2 by simp
    next
      case in2: False
      let ?st = "4 * ((?ne + 3) div 4)" and ?name = "from_utf8 ''<invalid>'' (takeWhile (\<lambda>b. b \<noteq> 0) (slice (?p + 110) ?ne data))"
      have st: "align4 ?ne = Some ?st" "?st \<le> length data + 3" 
        using align4_bound [of ?ne "length data"] in2 1(2) by linarith+
      let ?de = "?st + hdr_filesize hdr"
      have de: "usize_add ?st (hdr_filesize hdr) = Some ?de" using hl st(2) 1(2) by (intro arith_ok) simp
      note step3 = step2 [unfolded if_not_P [OF in2] st(1) de Let_def bind.bind_lunit]
      show ?thesis
      proof (cases "?name = ''TRAILER!!!'' \<or> length data < ?de")
        case True
        then show ?thesis unfolding step3 by auto
      next
        case False
        then have in3: "?name \<noteq> ''TRAILER!!!''" "\<not> length data < ?de" by auto
        let ?nx = "4 * ((?de + 3) div 4)"
        have nx: "align4 ?de = Some ?nx" "?nx \<le> length data + 3" 
          using align4_bound [of ?de "length data"] in3 1(2) by linarith+
        let ?fs = "place_entry (drop_bit 12 (hdr_mode hdr) AND 0xF) ?name (slice ?st ?de data) fs"
        have "\<exists>fs'. extract_loop data ?nx ?fs = Some fs' \<and> (fs_inv ?fs \<longrightarrow> fs_inv fs')"
          by (rule 1(1) [OF p(1) b in1 h ne in2 refl st(1) in3(1) de in3(2) refl nx(1) refl 1(2) nx(2)])
        then show ?thesis
          unfolding step3 if_not_P [OF in3(1)] if_not_P [OF in3(2)] nx(1) bind.bind_lunit using place_entry_inv by blast
      qed
    qed
  qed
qed



section \<open>Archives of the format\<close>

text \<open>
  A writer of the newc format: thirteen fields of eight hexadecimal digits after the magic number, the name
  with its terminator, the data, both padded to a multiple of four, and a trailer entry at the end.
\<close>

record newc_entry =
  nc_mode :: u32
  nc_name :: string
  nc_data :: bytes
  nc_other :: "nat list"

definition hex_char :: "nat \<Rightarrow> u8" where
  "hex_char d = (if d < 10 then 48 + of_nat d else 87 + of_nat d)"

fun hex_digits :: "nat \<Rightarrow> nat \<Rightarrow> bytes" where
  "hex_digits 0 n = []"
| "hex_digits (Suc k) n = hex_digits k (n div 16) @ [hex_char (n mod 16)]"

definition padding :: "nat \<Rightarrow> bytes" where
  "padding n = replicate (4 * ((n + 3) div 4) - n) 0"

definition newc_header :: "newc_entry \<Rightarrow> bytes" where
  "newc_header e =
     (let f = (\<lambda>i. hex_digits 8 (nc_other e ! i)) in
      NEWC_MAGIC @ f 0 @ hex_digits 8 (unat (nc_mode e)) @ f 1 @ f 2 @ f 3 @ f 4 @ hex_digits 8 (length (nc_data e)) @
      f 5 @ f 6 @ f 7 @ f 8 @ hex_digits 8 (length (nc_name e) + 1) @ f 9)"

definition newc_bytes :: "newc_entry \<Rightarrow> bytes" where
  "newc_bytes e =
     newc_header e @ as_bytes (nc_name e) @ [0] @ padding (110 + (length (nc_name e) + 1)) @ nc_data e @ padding (length (nc_data e))"

definition newc_ok :: "newc_entry \<Rightarrow> bool" where
  "newc_ok e \<longleftrightarrow> CHR 0x00 \<notin> set (nc_name e) \<and> utf8_ok (as_bytes (nc_name e)) \<and> length (nc_name e) + 1 < 2 ^ 32 \<and>
     length (nc_data e) < 2 ^ 32"

definition newc_trailer :: newc_entry where
  "newc_trailer = \<lparr>nc_mode = 0, nc_name = ''TRAILER!!!'', nc_data = [], nc_other = replicate 10 0\<rparr>"

definition newc_archive :: "newc_entry list \<Rightarrow> bytes" where
  "newc_archive es = concat (map newc_bytes es) @ newc_bytes newc_trailer"

lemma hex_char_digit:
  assumes "d < 16"
  shows "hex_digit (hex_char d) = Some d"
proof -
  have "\<forall>d\<in>set [0..<16]. hex_digit (hex_char d) = Some d" by code_simp
  then show ?thesis using assms by auto
qed

lemma length_hex_digits [simp]: "length (hex_digits k n) = k"
  by (induction k arbitrary: n) auto

lemma parse_digits_append: "parse_digits v (xs @ ys) = do { w \<leftarrow> parse_digits v xs; parse_digits w ys }"
  by (induction xs arbitrary: v) (auto intro: Option.bind_cong)

lemma parse_hex_digits: "n < 16 ^ k \<Longrightarrow> parse_digits v (hex_digits k n) = Some (v * 16 ^ k + n)"
proof (induction k arbitrary: n)
  case (Suc k)
  then have "n div 16 < 16 ^ k" by (simp add: less_mult_imp_div_less mult.commute)
  moreover have "v * (16 * 16 ^ k) + n = (v * 16 ^ k + n div 16) * 16 + n mod 16" by (simp add: algebra_simps)
  ultimately show ?case using Suc.IH by (simp add: parse_digits_append hex_char_digit)
qed simp

lemma parse_hex8_digits: "n < 2 ^ 32 \<Longrightarrow> parse_hex8 (hex_digits 8 n) = Some n"
  using parse_hex_digits [of n 8 0] by (simp add: parse_hex8_def)

lemma length_magic [simp]: "length NEWC_MAGIC = 6"
  by (simp add: NEWC_MAGIC_def)

lemma length_newc_header [simp]: "length (newc_header e) = 110"
  by (simp add: newc_header_def Let_def)

lemma slice_append_left: "b \<le> length xs \<Longrightarrow> slice a b (xs @ ys) = slice a b xs"
  by (auto simp: slice_def)

lemma slice_skip: "length xs \<le> a \<Longrightarrow> slice a b (xs @ ys) = slice (a - length xs) (b - length xs) ys"
  by (simp add: slice_def)

lemma slice_front: "length xs = b \<Longrightarrow> slice 0 b (xs @ ys) = xs"
  by (simp add: slice_def)

lemma newc_header_parse:
  assumes "newc_ok e"
  shows "Header_parse (newc_header e) =
    Some \<lparr>hdr_mode = nc_mode e, hdr_namesize = length (nc_name e) + 1, hdr_filesize = length (nc_data e)\<rparr>"
proof -
  have m: "slice 14 22 (newc_header e) = hex_digits 8 (unat (nc_mode e))"
    and s: "slice 54 62 (newc_header e) = hex_digits 8 (length (nc_data e))"
    and n: "slice 94 102 (newc_header e) = hex_digits 8 (length (nc_name e) + 1)"
    by (simp_all add: newc_header_def Let_def slice_skip slice_front del: hex_digits.simps)
  have "unat (nc_mode e) < 2 ^ 32" using unsigned_less [of "nc_mode e"] by simp
  then show ?thesis using assms unfolding Header_parse_def m s n by (simp add: newc_ok_def parse_hex8_digits)
qed

lemma newc_magic: "slice 0 6 (newc_header e) = NEWC_MAGIC"
  by (simp add: newc_header_def Let_def slice_front)

lemma length_padding [simp]: "length (padding n) = 4 * ((n + 3) div 4) - n"
  by (simp add: padding_def)

text \<open>The length of the padded header and name, and of the padded data.\<close>

abbreviation head_len :: "newc_entry \<Rightarrow> nat" where
  "head_len e \<equiv> 4 * ((110 + (length (nc_name e) + 1) + 3) div 4)"

abbreviation data_len :: "newc_entry \<Rightarrow> nat" where
  "data_len e \<equiv> 4 * ((length (nc_data e) + 3) div 4)"

lemma round4_ge: "(n :: nat) \<le> 4 * ((n + 3) div 4)"
  by simp

lemma length_newc_bytes: "length (newc_bytes e) = head_len e + data_len e"
proof -
  have "length (newc_bytes e) = (110 + (length (nc_name e) + 1)) + (head_len e - (110 + (length (nc_name e) + 1))) +
    (length (nc_data e) + (data_len e - length (nc_data e)))"
    by (simp only: newc_bytes_def length_append length_newc_header length_as_bytes length_padding list.size)
  also have "\<dots> = head_len e + data_len e" by (simp only: le_add_diff_inverse round4_ge)
  finally show ?thesis .
qed

lemma align4_shift:
  assumes "4 dvd p" and "p + x + 3 < 2 ^ 64"
  shows "align4 (p + x) = Some (p + 4 * ((x + 3) div 4))"
proof -
  obtain k where k: "p = 4 * k" using assms(1) by (elim dvdE)
  have "p + x + 3 = (x + 3) + k * 4" using k by simp
  then have "(p + x + 3) div 4 = k + (x + 3) div 4" by (simp only: div_mult_self1 numeral_neq_zero)
  then have "4 * ((p + x + 3) div 4) = p + 4 * ((x + 3) div 4)" using k by (simp only: distrib_left)
  then show ?thesis using align4_ok [OF assms(2)] by simp
qed

lemma newc_slices:
  assumes "data = pre @ newc_bytes e @ rest"
  defines "p \<equiv> length pre"
  shows "slice p (p + 110) data = newc_header e"
    and "slice p (p + 6) data = NEWC_MAGIC"
    and "slice (p + 110) (p + 110 + (length (nc_name e) + 1)) data = as_bytes (nc_name e) @ [0]"
    and "slice (p + head_len e) (p + head_len e + length (nc_data e)) data = nc_data e"
proof -
  let ?tail = "as_bytes (nc_name e) @ [0] @ padding (110 + (length (nc_name e) + 1)) @ nc_data e @ padding (length (nc_data e)) @ rest"
  have d: "data = pre @ newc_header e @ ?tail" using assms(1) by (simp add: newc_bytes_def)
  have sh: "slice (p + a) (p + b) data = slice a b (newc_header e @ ?tail)" for a b
    unfolding d p_def by (simp only: slice_skip le_add1 diff_add_inverse)
  show "slice p (p + 110) data = newc_header e" using sh [of 0 110] by (simp only: add_0_right slice_front length_newc_header)
  show "slice p (p + 6) data = NEWC_MAGIC"
    using sh [of 0 6] newc_magic [of e] slice_append_left [of 6 "newc_header e" 0 ?tail] by simp
  have "slice 110 (110 + (length (nc_name e) + 1)) (newc_header e @ ?tail) = slice 0 (length (nc_name e) + 1) ?tail"
    by (simp only: slice_skip length_newc_header le_refl diff_self_eq_0 diff_add_inverse)
  also have "\<dots> = as_bytes (nc_name e) @ [0]"
    using slice_front [of "as_bytes (nc_name e) @ [0]"] by simp
  finally show "slice (p + 110) (p + 110 + (length (nc_name e) + 1)) data = as_bytes (nc_name e) @ [0]"
    using sh [of 110 "110 + (length (nc_name e) + 1)"] by (simp only: add.assoc)
  let ?front = "newc_header e @ as_bytes (nc_name e) @ [0] @ padding (110 + (length (nc_name e) + 1))"
  have fl: "length ?front = head_len e"
  proof -
    have "length ?front = (110 + (length (nc_name e) + 1)) + (head_len e - (110 + (length (nc_name e) + 1)))"
      by (simp only: length_append length_newc_header length_as_bytes length_padding list.size)
    then show ?thesis by (simp only: le_add_diff_inverse round4_ge)
  qed
  have "newc_header e @ ?tail = ?front @ nc_data e @ padding (length (nc_data e)) @ rest" by simp
  then have "slice (head_len e) (head_len e + length (nc_data e)) (newc_header e @ ?tail) =
      slice 0 (length (nc_data e)) (nc_data e @ padding (length (nc_data e)) @ rest)"
    by (simp only: slice_skip fl le_refl diff_self_eq_0 diff_add_inverse)
  also have "\<dots> = nc_data e" by (rule slice_front) simp
  finally show "slice (p + head_len e) (p + head_len e + length (nc_data e)) data = nc_data e"
    using sh [of "head_len e" "head_len e + length (nc_data e)"] by (simp only: add.assoc)
qed

lemma takeWhile_name:
  assumes "CHR 0x00 \<notin> set s"
  shows "takeWhile (\<lambda>b. b \<noteq> 0) (as_bytes s @ [0]) = as_bytes s"
proof -
  have "b \<noteq> 0" if bs: "b \<in> set (as_bytes s)" for b
  proof
    assume "b = 0"
    moreover obtain c where c': "c \<in> set s" "b = of_char c" using bs by (auto simp: as_bytes_def)
    ultimately have c: "c \<in> set s" "of_char c = (0 :: u8)" by simp_all
    have "[c] = of_bytes (as_bytes [c])" by (simp only: of_as_bytes)
    also have "\<dots> = of_bytes (as_bytes [CHR 0x00])" using c(2) by (simp add: as_bytes_def)
    finally show False using c(1) assms by simp
  qed
  then show ?thesis by (subst takeWhile_append2) auto
qed

lemma extract_entry:
  assumes data: "data = pre @ newc_bytes e @ rest" and al: "4 dvd length pre" and ok: "newc_ok e" and lim: "length data < 2 ^ 63"
  shows "extract_loop data (length pre) fs =
    (if nc_name e = ''TRAILER!!!'' then Some fs
     else extract_loop data (length (pre @ newc_bytes e))
       (place_entry (drop_bit 12 (nc_mode e) AND 0xF) (nc_name e) (nc_data e) fs))"
proof -
  let ?p = "length pre" and ?L = "length (nc_name e) + 1" and ?D = "length (nc_data e)"
  have len: "length data = ?p + (head_len e + data_len e) + length rest"
    unfolding data by (simp only: length_append length_newc_bytes add.assoc)
  have h: "110 + ?L \<le> head_len e" and D: "?D \<le> data_len e" by (rule round4_ge)+
  have p: "align4 ?p = Some ?p" using align4_shift [OF al, of 0] lim len by simp
  have b: "usize_add ?p 110 = Some (?p + 110)" using lim len by (intro arith_ok) simp
  have n: "usize_add (?p + 110) ?L = Some (?p + 110 + ?L)" using lim len h by (intro arith_ok) simp
  have s: "align4 (?p + 110 + ?L) = Some (?p + head_len e)"
  proof -
    have "?p + (110 + ?L) + 3 < 2 ^ 64" using lim len h by simp
    then show ?thesis using align4_shift [OF al] by (simp only: add.assoc)
  qed
  have d: "usize_add (?p + head_len e) ?D = Some (?p + head_len e + ?D)" using lim len D by (intro arith_ok) simp
  have al': "4 dvd ?p + head_len e" using al by simp
  have x: "align4 (?p + head_len e + ?D) = Some (?p + head_len e + data_len e)"
    using align4_shift [OF al', of ?D] lim len D by simp
  have i1: "\<not> length data < ?p + 110" and i2: "\<not> length data < ?p + 110 + ?L" and i3: "\<not> length data < ?p + head_len e + ?D"
    using len h D by linarith+
  have name: "from_utf8 ''<invalid>'' (takeWhile (\<lambda>b. b \<noteq> 0) (slice (?p + 110) (?p + 110 + ?L) data)) = nc_name e"
    using ok takeWhile_name [of "nc_name e"] unfolding newc_slices(3) [OF data] from_utf8_def by (simp add: newc_ok_def)
  note S = newc_slices [OF data] newc_header_parse [OF ok]
  have nx: "length (pre @ newc_bytes e) = ?p + head_len e + data_len e"
    by (simp only: length_append length_newc_bytes add.assoc)
  show ?thesis
    unfolding extract_loop.simps [of data ?p fs] p bind.bind_lunit b if_not_P [OF i1] S(1,2,5) option.case Header.select_convs
      n if_not_P [OF i2] name Let_def s d if_not_P [OF i3] S(4) x nx by (simp only: simp_thms if_False)
qed

definition place_newc :: "newc_entry \<Rightarrow> Ramfs \<Rightarrow> Ramfs" where
  "place_newc e fs = place_entry (drop_bit 12 (nc_mode e) AND 0xF) (nc_name e) (nc_data e) fs"

lemma newc_trailer_ok: "newc_ok newc_trailer"
  by (simp add: newc_ok_def newc_trailer_def as_bytes_def)

lemma extract_entries:
  assumes "data = pre @ newc_archive es" and "4 dvd length pre" and "length data < 2 ^ 63"
    and "\<forall>e\<in>set es. newc_ok e \<and> nc_name e \<noteq> ''TRAILER!!!''"
  shows "extract_loop data (length pre) fs = Some (fold place_newc es fs)"
  using assms
proof (induction es arbitrary: pre fs)
  case Nil
  then have "data = pre @ newc_bytes newc_trailer @ []" by (simp add: newc_archive_def)
  from extract_entry [OF this Nil.prems(2) newc_trailer_ok Nil.prems(3)] show ?case by (simp add: newc_trailer_def)
next
  case (Cons e es)
  have d: "data = pre @ newc_bytes e @ newc_archive es" using Cons.prems(1) by (simp add: newc_archive_def)
  have e: "newc_ok e" "nc_name e \<noteq> ''TRAILER!!!''" using Cons.prems(4) by auto
  have "4 dvd length (pre @ newc_bytes e)" using Cons.prems(2) by (simp add: length_newc_bytes)
  then have "extract_loop data (length (pre @ newc_bytes e)) (place_newc e fs) = Some (fold place_newc es (place_newc e fs))"
    using Cons.IH [of "pre @ newc_bytes e"] d Cons.prems(3,4) by simp
  then show ?case using extract_entry [OF d Cons.prems(2) e(1) Cons.prems(3), of fs, folded place_newc_def] e(2) by simp
qed


definition demo_entries :: "newc_entry list" where
  "demo_entries =
     [\<lparr>nc_mode = 0x41ED, nc_name = ''./bin'', nc_data = [], nc_other = replicate 10 0\<rparr>,
      \<lparr>nc_mode = 0x81ED, nc_name = ''./bin/sh'', nc_data = [0x7f, 0x45, 0x4c], nc_other = replicate 10 0\<rparr>]"


end
