(* ===== verification/Boot.thy ===== *)
theory Boot
  imports Syscalls_Proc Initramfs
begin

text \<open>
  Starting the kernel (\<^verbatim>\<open>src/kernel/src/main.rs\<close>): the first page tables and the free memory from the firmware's memory
  map, the initial file system, and the first process. The memory map, the stack pointer and the place of the static
  page-table storage are parameters, as are the addresses and selectors a user process starts with.
\<close>

section \<open>Memory\<close>

datatype MemoryType = RESERVED | CONVENTIONAL | BOOT_SERVICES_CODE | BOOT_SERVICES_DATA | OtherMemory

record MemoryDescriptor =
  md_ty :: MemoryType
  md_phys_start :: u64
  md_page_count :: u64

definition md_size :: "MemoryDescriptor \<Rightarrow> u64 option" where
  "md_size entry = checked_mul (md_page_count entry) PAGE_SIZE"

text \<open>
  \<^verbatim>\<open>add_region_excluding\<close>: what is left of the pieces after one excluded range. The pieces live in an array of
  eight, and a ninth panics.
\<close>

definition cut_piece :: "u64 \<times> u64 \<Rightarrow> u64 \<times> u64 \<Rightarrow> (u64 \<times> u64) list" where
  "cut_piece ex r =
     (let (ex_s, ex_e) = ex; (r_s, r_e) = r
      in if r_s < ex_e \<and> ex_s < r_e then
           (if r_s < ex_s then [(r_s, ex_s)] else []) @ (if ex_e < r_e then [(ex_e, r_e)] else [])
         else [r])"

definition cut_pieces :: "u64 \<times> u64 \<Rightarrow> (u64 \<times> u64) list \<Rightarrow> (u64 \<times> u64) list option" where
  "cut_pieces ex remaining =
     (let next = concat (map (cut_piece ex) remaining) in if 8 < length next then None else Some next)"

definition add_piece :: "u64 \<times> u64 \<Rightarrow> 'a buddy_scheme \<Rightarrow> 'a buddy_scheme option" where
  "add_piece r s = (let (r_s, r_e) = r in if r_s < r_e then add_region r_s (r_e - r_s) s else Some s)"

definition add_region_excluding :: "u64 \<Rightarrow> u64 \<Rightarrow> (u64 \<times> u64) list \<Rightarrow> 'a buddy_scheme \<Rightarrow> 'a buddy_scheme option" where
  "add_region_excluding start end' excludes s = do {
     remaining \<leftarrow> for_each cut_pieces excludes [(start, end')];
     for_each add_piece remaining s
   }"

definition expect_map :: "(unit option \<times> 'a) option \<Rightarrow> 'a option" where
  "expect_map r = do { (ok, s) \<leftarrow> r; _ \<leftarrow> ok; Some s }"

definition identity_entry :: "'a kmem_scheme allocator_ops \<Rightarrow> u64 \<Rightarrow> MemoryDescriptor \<Rightarrow> 'a kmem_scheme \<Rightarrow> 'a kmem_scheme option" where
  "identity_entry A pt entry s =
     (if md_ty entry = RESERVED then Some s
      else do {
        sz \<leftarrow> md_size entry;
        expect_map (map_identity pt A [\<lparr>region_start = md_phys_start entry, region_size = sz\<rparr>] s)
      })"

definition higher_half_entry :: "'a kmem_scheme allocator_ops \<Rightarrow> u64 \<Rightarrow> MemoryDescriptor \<Rightarrow> 'a kmem_scheme \<Rightarrow> 'a kmem_scheme option" where
  "higher_half_entry A pt entry s =
     (if md_ty entry = RESERVED then Some s
      else do {
        sz \<leftarrow> md_size entry;
        expect_map (map_higher_half_region pt A (md_phys_start entry) sz s)
      })"

definition register_entry :: "(u64 \<times> u64) list \<Rightarrow> MemoryDescriptor \<Rightarrow> 'a buddy_scheme \<Rightarrow> 'a buddy_scheme option" where
  "register_entry excludes entry s =
     (if md_ty entry \<in> {CONVENTIONAL, BOOT_SERVICES_CODE, BOOT_SERVICES_DATA} then do {
        sz \<leftarrow> md_size entry;
        end' \<leftarrow> checked_add (md_phys_start entry) sz;
        if md_phys_start entry = 0 then Some s
        else add_region_excluding (md_phys_start entry) end' excludes s
      }
      else Some s)"

definition early_storage_range :: "u64 \<Rightarrow> (u64 \<times> u64) option" where
  "early_storage_range base = do { end' \<leftarrow> checked_add base (of_nat EARLY_PT_COUNT * 4096); Some (base, end') }"

definition setup_paging :: "MemoryDescriptor list \<Rightarrow> u64 \<Rightarrow> u64 \<Rightarrow> 'a kernel_scheme \<Rightarrow> 'a kernel_scheme option" where
  "setup_paging mmap' rsp early_base k = do {
     let stack_phys_base = saturating_sub rsp 0x100000 AND NOT 0xFFF;
     stack_phys_end \<leftarrow> checked_add stack_phys_base 0x200000;
     (early_phys_base, early_phys_end) \<leftarrow> early_storage_range early_base;
     let A = EarlyAllocator early_base;
     (pt, k) \<leftarrow> PageTableManager_new A k;
     pt \<leftarrow> pt;
     k \<leftarrow> for_each (identity_entry A pt) mmap' k;
     k \<leftarrow> expect_map (map_identity pt A [\<lparr>region_start = 0xfee00000, region_size = 0x1000\<rparr>] k);
     k \<leftarrow> expect_map (map_identity pt A [\<lparr>region_start = 0, region_size = 0x10000\<rparr>] k);
     k \<leftarrow> for_each (higher_half_entry A pt) mmap' k;
     k \<leftarrow> expect_map (map_higher_half_region pt A 0xfee00000 0x1000 k);
     k \<leftarrow> expect_map (map_higher_half_region pt A stack_phys_base 0x200000 k);
     let k = k\<lparr>k_cr3 := pt\<rparr>;
     kernel_end \<leftarrow> checked_add (k_image_base k) (k_image_size k);
     k \<leftarrow> for_each (register_entry [(stack_phys_base, stack_phys_end), (early_phys_base, early_phys_end),
                                   (k_image_base k, kernel_end)]) mmap' k;
     Some (k\<lparr>k_space := Some (AddressSpace_new pt 0)\<rparr>)
   }"

section \<open>The initial file system\<close>

definition ensure_file :: "string \<Rightarrow> Ramfs \<Rightarrow> Ramfs" where
  "ensure_file dev fs = (if open_file dev fs = None then snd (write_file dev [] fs) else fs)"

definition populate_rootfs :: "bytes option \<Rightarrow> Ramfs \<Rightarrow> Ramfs option" where
  "populate_rootfs initramfs_data fs = do {
     fs \<leftarrow> (case initramfs_data of None \<Rightarrow> Some fs | Some data \<Rightarrow> initramfs_extract data fs);
     let fs = fold (\<lambda>dir fs. snd (mkdir dir fs)) [''/dev'', ''/proc'', ''/tmp'', ''/etc''] fs;
     Some (fold ensure_file [''/dev/null'', ''/dev/zero'', ''/dev/tty''] fs)
   }"

fun load_first :: "string list \<Rightarrow> Ramfs \<Rightarrow> bytes option option" where
  "load_first [] fs = Some None"
| "load_first (path # paths) fs =
     (case open_file path fs of
        None \<Rightarrow> load_first paths fs
      | Some node \<Rightarrow> do {
          data \<leftarrow> read_all node fs;
          if data \<noteq> [] then Some (Some data) else load_first paths fs
        })"

definition load_init_elf :: "Ramfs \<Rightarrow> bytes option option" where
  "load_init_elf fs = load_first [''/bin/sh'', ''/init''] fs"

section \<open>The first process\<close>

definition init_process ::
    "u64 \<Rightarrow> u16 \<times> u16 \<Rightarrow> u64 \<Rightarrow> u64 \<Rightarrow> u64 \<Rightarrow> u64 \<Rightarrow> bytes \<Rightarrow> 'a kernel_scheme \<Rightarrow> 'a kernel_scheme option" where
  "init_process trampoline sel kernel_pml4 src_pml4 kstack_phys kstack_virt elf_data k = do {
     (pt, k) \<leftarrow> PageTableManager_new_user kernel_pml4 BuddyPages 1 k;
     pt \<leftarrow> pt;
     loader \<leftarrow> (case ElfLoader_new elf_data of Inl _ \<Rightarrow> None | Inr l \<Rightarrow> Some l);
     (r, a, k) \<leftarrow> ElfLoader_load loader (AddressSpace_new pt 1) k;
     entry \<leftarrow> (case r of Inl _ \<Rightarrow> None | Inr entry \<Rightarrow> Some entry);
     let ehdr = ehdr_of elf_data;
     elf_phdr_vaddr \<leftarrow> checked_add 0x400000 (e_phoff ehdr);
     k \<leftarrow> map_kernel_image (as_page_table a) (k_image_base k) (k_image_size k) k;
     k \<leftarrow> sync_higher_half (as_page_table a) src_pml4 k;
     (p, k) \<leftarrow> new_user_with_address_space trampoline sel 1 entry kstack_virt 32768 (Some (kstack_phys, KSTACK_ORDER))
       0x7ffef000 128 [''ash''] [''PATH=/bin:/sbin:/usr/bin'', ''HOME=/root'', ''TERM=vt100'']
       entry elf_phdr_vaddr (ucast (e_phentsize ehdr)) (ucast (e_phnum ehdr)) a k;
     p \<leftarrow> p;
     brk \<leftarrow> checked_add (highest_end (as_vmas (p_space p))) 0xFFF;
     let brk = brk AND NOT 0xFFF;
     let (added, sched) = add_process (p\<lparr>p_brk_start := brk, p_brk_current := brk\<rparr>) (k_sched k);
     _ \<leftarrow> added;
     let k = k\<lparr>k_sched := sched\<rparr>;
     _ \<leftarrow> check_metadata_integrity k;
     Some k
   }"

definition start_scheduler ::
    "u64 \<Rightarrow> u16 \<times> u16 \<Rightarrow> 'a kernel_scheme \<Rightarrow> (switch \<times> 'a kernel_scheme) option" where
  "start_scheduler trampoline sel k = do {
     kernel_space \<leftarrow> k_space k;
     src_pml4 \<leftarrow> phys_to_virt (k_cr3 k);
     (kstack_phys, k) \<leftarrow> buddy_alloc KSTACK_ORDER k;
     kstack_phys \<leftarrow> kstack_phys;
     kstack_virt \<leftarrow> phys_to_virt kstack_phys;
     let k = clear_mem kstack_virt 32768 k;
     elf \<leftarrow> load_init_elf (k_rootfs k);
     k \<leftarrow> (case elf of
             None \<Rightarrow> Some k
           | Some elf_data \<Rightarrow>
               init_process trampoline sel (as_page_table kernel_space) src_pml4 kstack_phys kstack_virt elf_data k);
     top \<leftarrow> checked_add kstack_virt 32768;
     schedule (k\<lparr>k_kernel_rsp := top, k_preempt := True\<rparr>)
   }"

end
