(* ===== verification/Boot_Spec.thy ===== *)
theory Boot_Spec
  imports Boot
begin

text \<open>
  What start-up does with the firmware's memory map: cutting the excluded ranges out of an entry leaves separated
  pieces that cover exactly the rest, and the frames handed to the allocator are exactly the whole pages of usable
  memory outside the excluded ranges.
\<close>

section \<open>Cutting ranges\<close>

definition bytes_of :: "u64 \<times> u64 \<Rightarrow> nat set" where
  "bytes_of r = {unat (fst r) ..< unat (snd r)}"

definition pages_in :: "nat set \<Rightarrow> nat set" where
  "pages_in X = {f. {4096 * f ..< 4096 * f + 4096} \<subseteq> X}"

text \<open>Pieces in order, none empty, with at least a byte between neighbours.\<close>

definition separated :: "(u64 \<times> u64) list \<Rightarrow> bool" where
  "separated rs \<longleftrightarrow> sorted_wrt (\<lambda>r q. unat (snd r) < unat (fst q)) rs \<and> (\<forall>r\<in>set rs. fst r < snd r)"

lemma pages_in_mono: "X \<subseteq> Y \<Longrightarrow> pages_in X \<subseteq> pages_in Y"
  by (auto simp: pages_in_def)

lemma pages_in_disjoint: "X \<inter> Y = {} \<Longrightarrow> pages_in X \<inter> pages_in Y = {}"
  by (fastforce simp: pages_in_def)

lemma pages_in_range: "pages_in {a ..< b} = {(a + 4095) div 4096 ..< b div 4096}"
proof (rule set_eqI)
  fix f
  have "{4096 * f ..< 4096 * f + 4096} \<subseteq> {a ..< b} \<longleftrightarrow> a \<le> 4096 * f \<and> 4096 * f + 4096 \<le> b"
    by auto
  also have "\<dots> \<longleftrightarrow> a + 4095 < Suc f * 4096 \<and> Suc f * 4096 \<le> b" by auto
  also have "\<dots> \<longleftrightarrow> (a + 4095) div 4096 < Suc f \<and> Suc f \<le> b div 4096"
    by (simp only: div_less_iff_less_mult less_eq_div_iff_mult_less_eq zero_less_numeral)
  also have "\<dots> \<longleftrightarrow> (a + 4095) div 4096 \<le> f \<and> f < b div 4096" by (simp only: less_Suc_eq_le Suc_le_eq)
  finally show "f \<in> pages_in {a ..< b} \<longleftrightarrow> f \<in> {(a + 4095) div 4096 ..< b div 4096}"
    by (simp add: pages_in_def)
qed

lemma separated_Cons: "separated (r # rs) \<longleftrightarrow> fst r < snd r \<and> (\<forall>q\<in>set rs. unat (snd r) < unat (fst q)) \<and> separated rs"
  by (auto simp: separated_def)

lemma separated_append:
  "separated (rs @ qs) \<longleftrightarrow> separated rs \<and> separated qs \<and> (\<forall>r\<in>set rs. \<forall>q\<in>set qs. unat (snd r) < unat (fst q))"
  by (auto simp: separated_def sorted_wrt_append)

lemma cut_piece_props:
  assumes "fst r < snd r" and "fst ex < snd ex"
  shows "separated (cut_piece ex r)" and "(\<Union>q\<in>set (cut_piece ex r). bytes_of q) = bytes_of r - bytes_of ex"
    and "q \<in> set (cut_piece ex r) \<Longrightarrow> fst r \<le> fst q \<and> snd q \<le> snd r"
proof -
  obtain rs re es ee where [simp]: "r = (rs, re)" "ex = (es, ee)" by (cases r, cases ex)
  show "separated (cut_piece ex r)" "q \<in> set (cut_piece ex r) \<Longrightarrow> fst r \<le> fst q \<and> snd q \<le> snd r"
    using assms by (auto simp: cut_piece_def separated_def word_less_nat_alt word_le_nat_alt split: if_splits)
  show "(\<Union>q\<in>set (cut_piece ex r). bytes_of q) = bytes_of r - bytes_of ex"
    using assms by (auto simp: cut_piece_def bytes_of_def word_less_nat_alt)
qed

lemma cut_pieces_props:
  assumes "separated rs" and ex: "fst ex < snd ex"
  shows "separated (concat (map (cut_piece ex) rs))"
    and "(\<Union>q\<in>set (concat (map (cut_piece ex) rs)). bytes_of q) = (\<Union>r\<in>set rs. bytes_of r) - bytes_of ex"
    and "length (concat (map (cut_piece ex) rs)) \<le> length rs + 1"
proof -
  show "separated (concat (map (cut_piece ex) rs))"
    using assms(1)
  proof (induction rs)
    case (Cons r rs)
    have r: "fst r < snd r" and rs: "separated rs" and gap: "\<forall>q\<in>set rs. unat (snd r) < unat (fst q)"
      using Cons.prems by (auto simp: separated_Cons)
    have "unat (snd q) < unat (fst q')" if q: "q \<in> set (cut_piece ex r)" and q': "q' \<in> set (concat (map (cut_piece ex) rs))" for q q'
    proof -
      obtain r' where r': "r' \<in> set rs" "q' \<in> set (cut_piece ex r')" using q' by auto
      have "fst r' < snd r'" using rs r'(1) by (simp add: separated_def)
      then have "unat (fst r') \<le> unat (fst q')" using cut_piece_props(3) [OF _ ex r'(2)] by (simp add: word_le_nat_alt)
      moreover have "unat (snd q) \<le> unat (snd r)" using cut_piece_props(3) [OF r ex q] by (simp add: word_le_nat_alt)
      ultimately show ?thesis using gap r'(1) by fastforce
    qed
    then show ?case using Cons.IH [OF rs] cut_piece_props(1) [OF r ex] by (simp add: separated_append)
  qed (simp add: separated_def)
  show "(\<Union>q\<in>set (concat (map (cut_piece ex) rs)). bytes_of q) = (\<Union>r\<in>set rs. bytes_of r) - bytes_of ex"
  proof -
    have "(\<Union>q\<in>set (cut_piece ex r). bytes_of q) = bytes_of r - bytes_of ex" if "r \<in> set rs" for r
      using cut_piece_props(2) [OF _ ex] that assms(1) by (simp add: separated_def)
    then show ?thesis by auto
  qed
  show "length (concat (map (cut_piece ex) rs)) \<le> length rs + 1"
    using assms(1)
  proof (induction rs)
    case (Cons r rs)
    have r: "fst r < snd r" and rs: "separated rs" and gap: "\<forall>q\<in>set rs. unat (snd r) < unat (fst q)"
      using Cons.prems by (auto simp: separated_Cons)
    show ?case
    proof (cases "snd ex < snd r")
      case True
      have "cut_piece ex q = [q]" if "q \<in> set rs" for q
        using gap that True by (auto simp: cut_piece_def word_less_nat_alt split: prod.splits)
      then have "concat (map (cut_piece ex) rs) = rs" by (induction rs) auto
      moreover have "length (cut_piece ex r) \<le> 2" by (simp add: cut_piece_def split: prod.splits)
      ultimately show ?thesis by simp
    next
      case False
      then have "length (cut_piece ex r) \<le> 1" by (auto simp: cut_piece_def split: prod.splits)
      then show ?thesis using Cons.IH [OF rs] by simp
    qed
  qed simp
qed

lemma cut_all:
  assumes "separated rs" and "\<forall>ex\<in>set excludes. fst ex < snd ex" and "length rs + length excludes \<le> 8"
  obtains qs where "for_each cut_pieces excludes rs = Some qs" and "separated qs"
    and "(\<Union>q\<in>set qs. bytes_of q) = (\<Union>r\<in>set rs. bytes_of r) - (\<Union>ex\<in>set excludes. bytes_of ex)"
  using assms
proof (induction excludes arbitrary: rs thesis)
  case Nil
  then show ?case by simp
next
  case (Cons ex excludes)
  have ex: "fst ex < snd ex" using Cons.prems(3) by simp
  let ?qs = "concat (map (cut_piece ex) rs)"
  note P = cut_pieces_props [OF Cons.prems(2) ex]
  have len: "length ?qs + length excludes \<le> 8" using P(3) Cons.prems(4) by simp
  have "\<forall>ex\<in>set excludes. fst ex < snd ex" using Cons.prems(3) by simp
  from Cons.IH [OF _ P(1) this len] obtain qs where
    qs: "for_each cut_pieces excludes ?qs = Some qs" "separated qs"
      "(\<Union>q\<in>set qs. bytes_of q) = (\<Union>r\<in>set ?qs. bytes_of r) - (\<Union>ex\<in>set excludes. bytes_of ex)" by blast
  have "cut_pieces ex rs = Some ?qs" using len by (simp add: cut_pieces_def)
  moreover have "(\<Union>q\<in>set qs. bytes_of q) = (\<Union>r\<in>set rs. bytes_of r) - (\<Union>ex\<in>set (ex # excludes). bytes_of ex)"
    unfolding qs(3) P(2) by auto
  ultimately show ?case using Cons.prems(1) [of qs] qs(1,2) by simp
qed

text \<open>A whole page inside separated pieces is inside one of them.\<close>

lemma pages_in_separated:
  assumes "separated rs"
  shows "pages_in (\<Union>r\<in>set rs. bytes_of r) = (\<Union>r\<in>set rs. pages_in (bytes_of r))"
proof
  show "(\<Union>r\<in>set rs. pages_in (bytes_of r)) \<subseteq> pages_in (\<Union>r\<in>set rs. bytes_of r)"
    by (auto simp: pages_in_def)
  show "pages_in (\<Union>r\<in>set rs. bytes_of r) \<subseteq> (\<Union>r\<in>set rs. pages_in (bytes_of r))"
  proof
    fix f assume "f \<in> pages_in (\<Union>r\<in>set rs. bytes_of r)"
    then have f: "{4096 * f ..< 4096 * f + 4096} \<subseteq> (\<Union>r\<in>set rs. bytes_of r)" by (simp add: pages_in_def)
    then have "4096 * f \<in> (\<Union>r\<in>set rs. bytes_of r)" by (rule subsetD) simp
    then obtain r where r: "r \<in> set rs" "4096 * f \<in> bytes_of r" by auto
    have "4096 * f + 4096 \<le> unat (snd r)"
    proof (rule ccontr)
      assume "\<not> ?thesis"
      then have "unat (snd r) \<in> {4096 * f ..< 4096 * f + 4096}" using r(2) by (simp add: bytes_of_def)
      then obtain q where q: "q \<in> set rs" "unat (snd r) \<in> bytes_of q" using f by blast
      have "r = q \<or> unat (snd r) < unat (fst q) \<or> unat (snd q) < unat (fst r)"
        using assms r(1) q(1) unfolding separated_def sorted_wrt_iff_nth_less by (metis in_set_conv_nth linorder_neqE_nat)
      then show False using q(2) r(2) by (auto simp: bytes_of_def)
    qed
    then have "{4096 * f ..< 4096 * f + 4096} \<subseteq> bytes_of r" using r(2) by (auto simp: bytes_of_def)
    then show "f \<in> (\<Union>r\<in>set rs. pages_in (bytes_of r))" using r(1) by (auto simp: pages_in_def)
  qed
qed

lemma bytes_of_separated:
  assumes "separated (r # rs)"
  shows "bytes_of r \<inter> (\<Union>q\<in>set rs. bytes_of q) = {}"
  using assms by (fastforce simp: separated_Cons bytes_of_def)

section \<open>Registering memory\<close>

text \<open>One step of handing memory to the allocator: exactly the frames \<open>X\<close> become free.\<close>

definition frees :: "nat set \<Rightarrow> 'a buddy_scheme \<Rightarrow> 'a buddy_scheme \<Rightarrow> bool" where
  "frees X s s' \<longleftrightarrow> buddy_inv s' \<and> avail s' = avail s \<union> X \<and> mem_eq_off (avail s') (ram s) (ram s')"

lemma frees_trans: "frees X s s' \<Longrightarrow> frees Y s' s'' \<Longrightarrow> frees (X \<union> Y) s s''"
  by (auto simp: frees_def intro: mem_eq_off_trans)

lemma frees_none: "buddy_inv s \<Longrightarrow> frees {} s s"
  by (simp add: frees_def)

lemma add_piece_ok:
  assumes "buddy_inv s" and "fst r < snd r" and "0 < fst r" and "unat (snd r) \<le> 2 ^ 47" and "pages_in (bytes_of r) \<inter> avail s = {}"
  obtains s' where "add_piece r s = Some s'" and "frees (pages_in (bytes_of r)) s s'"
proof -
  obtain a b where r: "r = (a, b)" by (cases r)
  have ab: "unat a < unat b" "unat (b - a) = unat b - unat a"
    using assms(2) r by (simp_all add: word_less_nat_alt unat_sub word_le_nat_alt)
  have pos: "0 < unat a" using assms(3) r by (simp add: word_less_nat_alt)
  have pg: "pages_in (bytes_of r) = {(unat a + 4095) div 4096 ..< (unat a + unat (b - a)) div 4096}"
    using ab by (simp add: r bytes_of_def pages_in_range)
  have top: "unat a + unat (b - a) \<le> 2 ^ 47" using ab assms(4) r by simp
  obtain s' where "add_region a (b - a) s = Some s'" "buddy_inv s'" "avail s' = pages_in (bytes_of r) \<union> avail s"
    "mem_eq_off (avail s') (ram s) (ram s')"
    using add_region_inv [OF assms(1) pos top assms(5) [unfolded pg]] unfolding pg by blast
  then show ?thesis using that [of s'] assms(2) r by (simp add: add_piece_def frees_def Un_commute)
qed

lemma add_pieces_ok:
  assumes "buddy_inv s" and "separated rs" and "\<forall>r\<in>set rs. 0 < fst r \<and> unat (snd r) \<le> 2 ^ 47"
    and "(\<Union>r\<in>set rs. pages_in (bytes_of r)) \<inter> avail s = {}"
  obtains s' where "for_each add_piece rs s = Some s'" and "frees (\<Union>r\<in>set rs. pages_in (bytes_of r)) s s'"
  using assms
proof (induction rs arbitrary: s thesis)
  case Nil
  then show ?case by (simp add: frees_none)
next
  case (Cons r rs)
  have r: "fst r < snd r" "0 < fst r" "unat (snd r) \<le> 2 ^ 47" "separated rs" "pages_in (bytes_of r) \<inter> avail s = {}"
    using Cons.prems(3-5) by (auto simp: separated_Cons)
  obtain s1 where s1: "add_piece r s = Some s1" "frees (pages_in (bytes_of r)) s s1"
    using add_piece_ok [OF Cons.prems(2) r(1-3,5)] .
  have "pages_in (bytes_of r) \<inter> (\<Union>q\<in>set rs. pages_in (bytes_of q)) = {}"
    using pages_in_disjoint [OF bytes_of_separated [OF Cons.prems(3)]] pages_in_separated [OF r(4)] by simp
  then have d: "(\<Union>q\<in>set rs. pages_in (bytes_of q)) \<inter> avail s1 = {}"
    using s1(2) Cons.prems(5) by (auto simp: frees_def)
  have "buddy_inv s1" using s1(2) by (simp add: frees_def)
  from Cons.IH [OF _ this r(4) _ d] Cons.prems(4) obtain s' where
    s': "for_each add_piece rs s1 = Some s'" "frees (\<Union>q\<in>set rs. pages_in (bytes_of q)) s1 s'" by auto
  show ?case using Cons.prems(1) [of s'] s1(1) s'(1) frees_trans [OF s1(2) s'(2)] by simp
qed

lemma add_region_excluding_ok:
  assumes inv: "buddy_inv s" and se: "0 < start" "start < end'" "unat end' \<le> 2 ^ 47"
    and ex: "\<forall>ex\<in>set excludes. fst ex < snd ex" "length excludes \<le> 7"
    and free: "pages_in {unat start ..< unat end'} \<inter> avail s = {}"
  obtains s' where "add_region_excluding start end' excludes s = Some s'"
    and "frees (pages_in ({unat start ..< unat end'} - (\<Union>ex\<in>set excludes. bytes_of ex))) s s'"
proof -
  have one: "separated [(start, end')]" using se by (simp add: separated_def)
  have len: "length [(start, end')] + length excludes \<le> 8" using ex(2) by simp
  obtain qs where qs: "for_each cut_pieces excludes [(start, end')] = Some qs" "separated qs"
    "(\<Union>q\<in>set qs. bytes_of q) = {unat start ..< unat end'} - (\<Union>ex\<in>set excludes. bytes_of ex)"
    using cut_all [OF one ex(1) len] by (auto simp: bytes_of_def)
  have "0 < fst q \<and> unat (snd q) \<le> 2 ^ 47" if q: "q \<in> set qs" for q
  proof -
    have lt: "unat (fst q) < unat (snd q)" using qs(2) q by (simp add: separated_def word_less_nat_alt)
    then have "{unat (fst q), unat (snd q) - 1} \<subseteq> bytes_of q" by (auto simp: bytes_of_def)
    moreover have "bytes_of q \<subseteq> {unat start ..< unat end'}" using qs(3) q by blast
    ultimately have "unat start \<le> unat (fst q)" "unat (snd q) - 1 < unat end'" by auto
    then show ?thesis using se lt by (auto simp: word_less_nat_alt)
  qed
  moreover have "(\<Union>q\<in>set qs. pages_in (bytes_of q)) = pages_in ({unat start ..< unat end'} - (\<Union>ex\<in>set excludes. bytes_of ex))"
    using pages_in_separated [OF qs(2)] qs(3) by simp
  moreover from this have "(\<Union>q\<in>set qs. pages_in (bytes_of q)) \<inter> avail s = {}"
    using free pages_in_mono [of "{unat start ..< unat end'} - (\<Union>ex\<in>set excludes. bytes_of ex)" "{unat start ..< unat end'}"]
    by blast
  ultimately obtain s' where "for_each add_piece qs s = Some s'"
    "frees (pages_in ({unat start ..< unat end'} - (\<Union>ex\<in>set excludes. bytes_of ex))) s s'"
    using add_pieces_ok [OF inv qs(2)] by metis
  then show ?thesis using that [of s'] qs(1) by (simp add: add_region_excluding_def)
qed

text \<open>The bytes of a descriptor that the allocator may use: those of usable types, unless it starts at address 0.\<close>

definition md_bytes :: "MemoryDescriptor \<Rightarrow> nat set" where
  "md_bytes e = {unat (md_phys_start e) ..< unat (md_phys_start e) + unat (md_page_count e) * 4096}"

definition usable :: "MemoryDescriptor \<Rightarrow> bool" where
  "usable e \<longleftrightarrow> md_ty e \<in> {CONVENTIONAL, BOOT_SERVICES_CODE, BOOT_SERVICES_DATA} \<and> md_phys_start e \<noteq> 0"

lemma register_entry_ok:
  assumes inv: "buddy_inv s" and md: "md_bytes e \<subseteq> {..< 2 ^ 47}" "0 < md_page_count e"
    and ex: "\<forall>ex\<in>set excludes. fst ex < snd ex" "length excludes \<le> 7"
    and free: "usable e \<Longrightarrow> pages_in (md_bytes e) \<inter> avail s = {}"
  obtains s' where "register_entry excludes e s = Some s'"
    and "frees (if usable e then pages_in (md_bytes e - (\<Union>ex\<in>set excludes. bytes_of ex)) else {}) s s'"
proof -
  let ?a = "md_phys_start e" and ?n = "unat (md_page_count e)"
  have n: "0 < ?n" using md(2) by (simp add: word_less_nat_alt)
  then have "unat ?a + ?n * 4096 - 1 \<in> md_bytes e" by (auto simp: md_bytes_def)
  then have top: "unat ?a + ?n * 4096 \<le> 2 ^ 47" using md(1) by force
  have mul: "md_size e = Some (md_page_count e * 4096)" "unat (md_page_count e * 4096) = ?n * 4096"
  proof -
    have "?n * 4096 < 2 ^ 64" using top by simp
    then show "unat (md_page_count e * 4096) = ?n * 4096" by (simp add: unat_mult_lem [THEN iffD1])
    show "md_size e = Some (md_page_count e * 4096)"
      using \<open>?n * 4096 < 2 ^ 64\<close> by (simp add: md_size_def checked_mul_unat_def PAGE_SIZE_def)
  qed
  have add: "checked_add ?a (md_page_count e * 4096) = Some (?a + md_page_count e * 4096)"
    "unat (?a + md_page_count e * 4096) = unat ?a + ?n * 4096"
    using top mul(2) by (simp_all add: checked_add_ok unat_add_exact)
  show ?thesis
  proof (cases "usable e")
    case True
    have "0 < ?a" "?a < ?a + md_page_count e * 4096"
      using True n add(2) by (simp_all add: usable_def word_less_nat_alt word_neq_0_conv)
    moreover have "pages_in {unat ?a ..< unat (?a + md_page_count e * 4096)} \<inter> avail s = {}"
      using free [OF True] by (simp add: md_bytes_def add(2))
    ultimately obtain s' where "add_region_excluding ?a (?a + md_page_count e * 4096) excludes s = Some s'"
      "frees (pages_in ({unat ?a ..< unat (?a + md_page_count e * 4096)} - (\<Union>ex\<in>set excludes. bytes_of ex))) s s'"
      using add_region_excluding_ok [OF inv _ _ _ ex] top add(2) by metis
    then show ?thesis
      using that [of s'] True mul add by (simp add: register_entry_def usable_def md_bytes_def)
  next
    case False
    then have "register_entry excludes e s = Some s"
      using mul add by (auto simp: register_entry_def usable_def)
    then show ?thesis using that [of s] False inv by (simp add: frees_none)
  qed
qed


text \<open>
  C5. Registering the firmware's memory map frees exactly the right memory. For a map whose usable entries do not overlap
  and end below the 128 TiB limit of the direct map, and at most seven non-empty excluded ranges (the boot stack, the early page tables
  and the kernel image at start-up), the loop over the map returns, and the frames that become free are
  exactly the whole pages that lie in one usable entry and touch no excluded range.
\<close>

theorem register_memory_correct:
  assumes inv: "buddy_inv s" and ex: "\<forall>ex\<in>set excludes. fst ex < snd ex" "length excludes \<le> 7"
    and md: "\<forall>e\<in>set mmap'. md_bytes e \<subseteq> {..< 2 ^ 47} \<and> 0 < md_page_count e"
    and disj: "sorted_wrt (\<lambda>e e'. usable e \<and> usable e' \<longrightarrow> md_bytes e \<inter> md_bytes e' = {}) mmap'"
    and free: "\<forall>e\<in>set mmap'. usable e \<longrightarrow> pages_in (md_bytes e) \<inter> avail s = {}"
  shows "\<exists>s'. for_each (register_entry excludes) mmap' s = Some s' \<and> buddy_inv s' \<and>
    avail s' = avail s \<union> (\<Union>e\<in>{e \<in> set mmap'. usable e}. pages_in (md_bytes e - (\<Union>ex\<in>set excludes. bytes_of ex))) \<and>
    mem_eq_off (avail s') (ram s) (ram s')"
proof -
  let ?X = "\<lambda>e. if usable e then pages_in (md_bytes e - (\<Union>ex\<in>set excludes. bytes_of ex)) else {}"
  have "\<exists>s'. for_each (register_entry excludes) mmap' s = Some s' \<and> frees (\<Union>e\<in>set mmap'. ?X e) s s'"
    using inv md disj free
  proof (induction mmap' arbitrary: s)
    case Nil
    then show ?case by (simp add: frees_none)
  next
    case (Cons e es)
    obtain s1 where s1: "register_entry excludes e s = Some s1" "frees (?X e) s s1"
      using register_entry_ok [OF Cons.prems(1) _ _ ex] Cons.prems(2,4) by (metis list.set_intros(1))
    have sub: "?X e \<subseteq> (if usable e then pages_in (md_bytes e) else {})" by (auto simp: pages_in_def)
    have "pages_in (md_bytes e') \<inter> avail s1 = {}" if e': "e' \<in> set es" "usable e'" for e'
    proof -
      have "md_bytes e \<inter> md_bytes e' = {}" if "usable e" using Cons.prems(3) e' that by simp
      then have "?X e \<inter> pages_in (md_bytes e') = {}" using sub pages_in_disjoint [of "md_bytes e" "md_bytes e'"] by (cases "usable e") auto
      moreover have "avail s1 = avail s \<union> ?X e" using s1(2) by (simp only: frees_def)
      ultimately show ?thesis using Cons.prems(4) e' by auto
    qed
    moreover have "buddy_inv s1" using s1(2) by (simp only: frees_def)
    ultimately obtain s' where s': "for_each (register_entry excludes) es s1 = Some s'" "frees (\<Union>e\<in>set es. ?X e) s1 s'"
      using Cons.IH [of s1] Cons.prems(2,3) by auto
    have "(\<Union>x\<in>set (e # es). ?X x) = ?X e \<union> (\<Union>x\<in>set es. ?X x)" by (simp only: list.set(2) UN_insert)
    with s1(1) s'(1) frees_trans [OF s1(2) s'(2)] show ?case by simp
  qed
  moreover have "(\<Union>e\<in>set mmap'. ?X e) = (\<Union>e\<in>{e \<in> set mmap'. usable e}. pages_in (md_bytes e - (\<Union>ex\<in>set excludes. bytes_of ex)))"
    by auto
  ultimately show ?thesis unfolding frees_def by auto
qed

definition demo_map :: "MemoryDescriptor list" where
  "demo_map =
     [\<lparr>md_ty = CONVENTIONAL, md_phys_start = 0, md_page_count = 1\<rparr>,
      \<lparr>md_ty = CONVENTIONAL, md_phys_start = 0x1000, md_page_count = 4\<rparr>,
      \<lparr>md_ty = RESERVED, md_phys_start = 0x5000, md_page_count = 2\<rparr>,
      \<lparr>md_ty = BOOT_SERVICES_DATA, md_phys_start = 0x8000, md_page_count = 1\<rparr>]"

theorem register_memory_correct_witness:
  "\<exists>s'. for_each (register_entry [(0x2800, 0x3000)]) demo_map demo0 = Some s' \<and> buddy_inv s' \<and> avail s' = {1, 3, 4, 8}"
proof -
  have md: "\<forall>e\<in>set demo_map. md_bytes e \<subseteq> {..< 2 ^ 47} \<and> 0 < md_page_count e"
    by (auto simp: demo_map_def md_bytes_def)
  have disj: "sorted_wrt (\<lambda>e e'. usable e \<and> usable e' \<longrightarrow> md_bytes e \<inter> md_bytes e' = {}) demo_map"
    by (auto simp: demo_map_def md_bytes_def usable_def)
  have ex: "\<forall>ex\<in>set [(0x2800, 0x3000)]. fst ex < (snd ex :: u64)" "length [(0x2800 :: u64, 0x3000 :: u64)] \<le> 7" by auto
  have free: "\<forall>e\<in>set demo_map. usable e \<longrightarrow> pages_in (md_bytes e) \<inter> avail demo0 = {}" by (simp add: demo0_ok)
  have u: "{e \<in> set demo_map. usable e} =
      {\<lparr>md_ty = CONVENTIONAL, md_phys_start = 0x1000, md_page_count = 4\<rparr>,
       \<lparr>md_ty = BOOT_SERVICES_DATA, md_phys_start = 0x8000, md_page_count = 1\<rparr>}"
    by (auto simp: demo_map_def usable_def)
  have p1: "pages_in ({4096..<20480} - {10240..<12288}) = {1, 3, 4}"
  proof -
    let ?rs = "[(0x1000, 0x2800), (0x3000, 0x5000)] :: (u64 \<times> u64) list"
    have sep: "separated ?rs" by (simp add: separated_def)
    have "{4096..<20480} - {10240..<12288} = (\<Union>r\<in>set ?rs. bytes_of r)" by (auto simp: bytes_of_def)
    then have "pages_in ({4096..<20480} - {10240..<12288}) = (\<Union>r\<in>set ?rs. pages_in (bytes_of r))"
      using pages_in_separated [OF sep] by (simp only:)
    also have "\<dots> = {1..<2} \<union> {3..<5}" by (simp add: bytes_of_def pages_in_range)
    also have "\<dots> = {1, 3, 4}" by auto
    finally show ?thesis .
  qed
  have p2: "pages_in ({32768..<36864} - {10240..<12288}) = {8}"
  proof -
    have "{32768..<36864} - {10240..<12288} = {32768..<36864 :: nat}" by auto
    then show ?thesis by (simp add: pages_in_range) auto
  qed
  show ?thesis
    using register_memory_correct [OF demo0_ok(1) ex md disj free] p1 p2
    by (auto simp: u md_bytes_def bytes_of_def demo0_ok)
qed

end
