(* ===== verification/Kernel_Heap.thy ===== *)
theory Kernel_Heap
  imports Buddy_Spec
begin

text \<open>
  The kernel's heap (\<^verbatim>\<open>src/kernel/src/heap.rs\<close>): caches of objects of ten sizes, each with a list of free objects
  threaded through the objects themselves, filled page by page from the buddy allocator; larger requests go to
  the buddy allocator directly. The locks around heap and allocator are the subject of \<^verbatim>\<open>Spin_Lock\<close>.
\<close>

definition SLAB_SIZES :: "nat list" where
  "SLAB_SIZES = [8, 16, 32, 64, 128, 256, 512, 1024, 2048, 4096]"

record SlabCache =
  object_size :: nat
  free_list :: u64

definition SlabCache_new :: "nat \<Rightarrow> SlabCache" where
  "SlabCache_new sz = \<lparr>object_size = sz, free_list = 0\<rparr>"

text \<open>The link word of a free object, through its kernel pointer.\<close>

definition node_next :: "pmem \<Rightarrow> u64 \<Rightarrow> u64" where
  "node_next m node = read64 m (deref_phys node)"

definition slab_free :: "u64 \<Rightarrow> SlabCache \<Rightarrow> 'a buddy_scheme \<Rightarrow> SlabCache \<times> 'a buddy_scheme" where
  "slab_free ptr c s =
     (c\<lparr>free_list := ptr\<rparr>, s\<lparr>ram := write64 (ram s) (deref_phys ptr) (free_list c)\<rparr>)"

text \<open>The loop that cuts a new page into objects. The offset grows by the object size, which no cache has as 0.\<close>

partial_function (option) grow_loop ::
    "u64 \<Rightarrow> nat \<Rightarrow> SlabCache \<Rightarrow> 'a buddy_scheme \<Rightarrow> (SlabCache \<times> 'a buddy_scheme) option" where
  "grow_loop base offset c s =
     (if offset + object_size c \<le> 4096 then do {
        node \<leftarrow> checked_add base (of_nat offset);
        (case slab_free node c s of (c, s) \<Rightarrow> grow_loop base (offset + object_size c) c s)
      }
      else Some (c, s))"

declare grow_loop.simps [code]

definition slab_grow :: "SlabCache \<Rightarrow> 'a buddy_scheme \<Rightarrow> (u64 \<times> SlabCache \<times> 'a buddy_scheme) option" where
  "slab_grow c s = do {
     (phys, s) \<leftarrow> buddy_alloc 0 s;
     (case phys of
        None \<Rightarrow> Some (0, c, s)
      | Some phys \<Rightarrow> do {
          base \<leftarrow> phys_to_virt phys;
          (c, s) \<leftarrow> grow_loop base (object_size c) c (s\<lparr>ram := write_bytes (ram s) (deref_phys base) 0 4096\<rparr>);
          Some (base, c, s)
        })
   }"

definition slab_alloc :: "SlabCache \<Rightarrow> 'a buddy_scheme \<Rightarrow> (u64 \<times> SlabCache \<times> 'a buddy_scheme) option" where
  "slab_alloc c s =
     (if free_list c \<noteq> 0 then Some (free_list c, c\<lparr>free_list := node_next (ram s) (free_list c)\<rparr>, s)
      else slab_grow c s)"

partial_function (option) order_loop :: "u64 \<Rightarrow> u64 \<Rightarrow> nat \<Rightarrow> nat option" where
  "order_loop pages n order = (if n < pages then order_loop pages (push_bit 1 n) (order + 1) else Some order)"

declare order_loop.simps [code]

definition pages_to_order :: "u64 \<Rightarrow> nat option" where
  "pages_to_order pages = order_loop pages 1 0"

definition size_to_slab :: "nat \<Rightarrow> nat option" where
  "size_to_slab sz = position (\<lambda>s. sz \<le> s) SLAB_SIZES"

type_synonym KernelHeap = "SlabCache list"

definition KernelHeap_new :: KernelHeap where
  "KernelHeap_new = map SlabCache_new SLAB_SIZES"

text \<open>The effective size of a layout of a size and an alignment, and the block order of a large one.\<close>

definition layout_size :: "nat \<times> nat \<Rightarrow> nat" where
  "layout_size layout = (let (sz, al) = layout in max (max sz al) 8)"

definition large_order :: "nat \<Rightarrow> nat option" where
  "large_order sz = pages_to_order (of_nat ((sz + 4095) div 4096))"

definition heap_alloc :: "nat \<times> nat \<Rightarrow> KernelHeap \<Rightarrow> 'a buddy_scheme \<Rightarrow> (u64 \<times> KernelHeap \<times> 'a buddy_scheme) option" where
  "heap_alloc layout h s =
     (case size_to_slab (layout_size layout) of
        Some idx \<Rightarrow> do {
          (ptr, c, s) \<leftarrow> slab_alloc (h ! idx) s;
          Some (ptr, h[idx := c], s)
        }
      | None \<Rightarrow> do {
          order \<leftarrow> large_order (layout_size layout);
          (phys, s) \<leftarrow> buddy_alloc order s;
          (case phys of
             None \<Rightarrow> Some (0, h, s)
           | Some p \<Rightarrow> do { v \<leftarrow> phys_to_virt p; Some (v, h, s) })
        })"

definition heap_dealloc :: "u64 \<Rightarrow> nat \<times> nat \<Rightarrow> KernelHeap \<Rightarrow> 'a buddy_scheme \<Rightarrow> (KernelHeap \<times> 'a buddy_scheme) option" where
  "heap_dealloc ptr layout h s =
     (case size_to_slab (layout_size layout) of
        Some idx \<Rightarrow> (case slab_free ptr (h ! idx) s of (c, s) \<Rightarrow> Some (h[idx := c], s))
      | None \<Rightarrow> do {
          order \<leftarrow> large_order (layout_size layout);
          phys \<leftarrow> virt_to_phys ptr;
          s \<leftarrow> buddy_free phys order s;
          Some (h, s)
        })"

definition global_alloc :: "nat \<times> nat \<Rightarrow> KernelHeap \<Rightarrow> 'a buddy_scheme \<Rightarrow> (u64 \<times> KernelHeap \<times> 'a buddy_scheme) option" where
  "global_alloc layout h s = do {
     (ptr, h, s) \<leftarrow> heap_alloc layout h s;
     if ptr = 0 then None else Some (ptr, h, s)
   }"

end
