(* ===== verification/Heap_Spec.thy ===== *)
theory Heap_Spec
  imports Kernel_Heap Paging_Spec "HOL-Library.Disjoint_Sets"
begin

text \<open>
  What the kernel's heap promises its clients. An object is its bytes of physical memory; the relation \<open>heap_rel\<close>
  says that the objects in use, the free objects of the caches (linked through their first words), the free frames
  and the frames held by the rest of the kernel are disjoint. Every operation keeps it, so objects never overlap
  and no operation touches the contents of an object in use.
\<close>

section \<open>Bytes and lists of free objects\<close>

definition same_on :: "nat set \<Rightarrow> pmem \<Rightarrow> pmem \<Rightarrow> bool" where
  "same_on B m m' \<longleftrightarrow> (\<forall>x. unat x \<in> B \<longrightarrow> m' x = m x)"

definition frame_space :: "nat set \<Rightarrow> nat set" where
  "frame_space F = {x. x div 4096 \<in> F}"

text \<open>The bytes of an object of a size behind a kernel pointer, and what makes a pointer one.\<close>

definition extent :: "u64 \<Rightarrow> nat \<Rightarrow> nat set" where
  "extent v n = {unat (deref_phys v) ..< unat (deref_phys v) + n}"

definition placed :: "u64 \<Rightarrow> nat \<Rightarrow> bool" where
  "placed v n \<longleftrightarrow> KERNEL_VIRT_BASE \<le> v \<and> 0 < unat (deref_phys v) \<and> n dvd unat (deref_phys v) \<and>
     unat (deref_phys v) + n \<le> 2 ^ 47"

lemma same_on_simps: "same_on B m m" "same_on B m m' \<Longrightarrow> same_on B m' m'' \<Longrightarrow> same_on B m m''"
  "same_on B m m' \<Longrightarrow> C \<subseteq> B \<Longrightarrow> same_on C m m'"
  by (auto simp: same_on_def)

lemma same_on_frames: "mem_eq_off F m m' \<Longrightarrow> B \<inter> frame_space F = {} \<Longrightarrow> same_on B m m'"
  by (auto simp: same_on_def mem_eq_off_def frame_space_def frame_def)

lemma read64_same_on:
  assumes "same_on {unat a ..< unat a + 8} m m'" and "unat a + 8 \<le> 2 ^ 47"
  shows "read64 m' a = read64 m a"
proof -
  have "m' (a + of_nat i) = m (a + of_nat i)" if "i < 8" for i
  proof -
    have "unat (of_nat i :: u64) = i" using that by (simp add: unat_of_nat)
    then have "unat (a + of_nat i) = unat a + i" using that assms(2) by (simp add: unat_add_exact)
    then show ?thesis using that assms(1) by (simp add: same_on_def)
  qed
  then show ?thesis unfolding read64_def by (simp cong: load_bytes_cong)
qed

lemma write64_outside:
  assumes "unat a + 8 \<le> 2 ^ 47" and "unat x \<notin> {unat a ..< unat a + 8}"
  shows "write64 m a w x = m x"
proof -
  have "\<not> unat (x - a) < 8"
  proof
    assume lt: "unat (x - a) < 8"
    have "x = a + (x - a)" by simp
    moreover have "unat (a + (x - a)) = unat a + unat (x - a)" by (rule unat_add_exact) (use lt assms(1) in simp)
    ultimately have "unat x = unat a + unat (x - a)" by simp
    then show False using assms(2) lt by simp
  qed
  then show ?thesis unfolding write64_def store_bytes_def uint_less_int by simp
qed

primrec slab_list :: "pmem \<Rightarrow> u64 \<Rightarrow> u64 list \<Rightarrow> bool" where
  "slab_list m a [] \<longleftrightarrow> a = 0"
| "slab_list m a (x # xs) \<longleftrightarrow> a = x \<and> x \<noteq> 0 \<and> slab_list m (node_next m x) xs"

lemma placed_nonzero: "placed v n \<Longrightarrow> v \<noteq> 0"
  by (auto simp: placed_def KERNEL_VIRT_BASE_def)

lemma slab_list_same_on:
  assumes "slab_list m a xs" and "\<forall>x\<in>set xs. unat (deref_phys x) + 8 \<le> 2 ^ 47 \<and> same_on (extent x 8) m m'"
  shows "slab_list m' a xs"
  using assms by (induction xs arbitrary: a) (auto simp: node_next_def extent_def read64_same_on)

lemma slab_list_push:
  assumes "slab_list m a xs" and "placed v n" and "8 \<le> n"
    and "\<forall>x\<in>set xs. unat (deref_phys x) + 8 \<le> 2 ^ 47 \<and> extent x 8 \<inter> extent v 8 = {}"
  shows "slab_list (write64 m (deref_phys v) a) v (v # xs)"
proof -
  have v: "unat (deref_phys v) + 8 \<le> 2 ^ 47" using assms(2,3) by (simp add: placed_def)
  have "same_on (extent x 8) m (write64 m (deref_phys v) a)" if "x \<in> set xs" for x
    using assms(4) that write64_outside [OF v] unfolding same_on_def extent_def by blast
  then have "slab_list (write64 m (deref_phys v) a) a xs" using assms(4) by (intro slab_list_same_on [OF assms(1)]) blast
  then show ?thesis using placed_nonzero [OF assms(2)] by (simp add: node_next_def)
qed

section \<open>Cutting a page into objects\<close>

definition nth_object :: "u64 \<Rightarrow> nat \<Rightarrow> nat \<Rightarrow> u64" where
  "nth_object base n i = base + of_nat (i * n)"

lemma nth_object_ok:
  assumes p: "in_window p" "p \<noteq> 0" and i: "i * n + n \<le> 4096" and n: "n dvd 4096" "0 < n"
  shows "placed (nth_object (KERNEL_VIRT_BASE + p) n i) n"
    and "deref_phys (nth_object (KERNEL_VIRT_BASE + p) n i) = p + of_nat (i * n)"
    and "unat (p + of_nat (i * n)) = unat p + i * n"
    and "checked_add (KERNEL_VIRT_BASE + p) (of_nat (i * n)) = Some (nth_object (KERNEL_VIRT_BASE + p) n i)"
proof -
  have pw: "4096 dvd unat p" "unat p < 2 ^ 47" using p by (auto simp: in_window_def)
  then have top: "unat p + 4096 \<le> 2 ^ 47" by (auto elim!: dvdE)
  have ui: "unat (of_nat (i * n) :: u64) = i * n" using i n(2) by (simp only: unat_of_nat) simp
  show u: "unat (p + of_nat (i * n)) = unat p + i * n"
    using ui top i n(2) by (simp add: unat_add_exact)
  have e: "nth_object (KERNEL_VIRT_BASE + p) n i = KERNEL_VIRT_BASE + (p + of_nat (i * n))" by (simp add: nth_object_def)
  have lt: "unat (p + of_nat (i * n)) < 2 ^ 47" unfolding u using top i n(2) by simp
  show d: "deref_phys (nth_object (KERNEL_VIRT_BASE + p) n i) = p + of_nat (i * n)"
    unfolding e by (rule deref_phys_virt [OF lt])
  have k: "unat KERNEL_VIRT_BASE + unat (p + of_nat (i * n)) < 2 ^ LENGTH(64)"
    using lt by (simp add: KERNEL_VIRT_BASE_def)
  have kv: "KERNEL_VIRT_BASE \<le> nth_object (KERNEL_VIRT_BASE + p) n i"
    unfolding e word_le_nat_alt using unat_add_exact [OF k] by simp
  have "n dvd unat p + i * n" using n(1) pw(1) by (intro dvd_add) (auto intro: dvd_trans)
  moreover have "0 < unat p" using p(2) by (simp add: unat_gt_0)
  ultimately show "placed (nth_object (KERNEL_VIRT_BASE + p) n i) n"
    unfolding placed_def d u using kv top i by simp
  have "unat (KERNEL_VIRT_BASE + p) = unat KERNEL_VIRT_BASE + unat p"
    by (rule unat_add_exact) (use pw(2) in \<open>simp add: KERNEL_VIRT_BASE_def\<close>)
  then have "unat (KERNEL_VIRT_BASE + p) + unat (of_nat (i * n) :: u64) < 2 ^ LENGTH(64)"
    using k u ui by simp
  then show "checked_add (KERNEL_VIRT_BASE + p) (of_nat (i * n)) = Some (nth_object (KERNEL_VIRT_BASE + p) n i)"
    unfolding nth_object_def by (rule checked_add_ok)
qed

lemma grow_loop_ok:
  fixes s :: "'a buddy_scheme"
  assumes p: "in_window p" "p \<noteq> 0" and n: "n * m = 4096" "8 \<le> n"
    and "object_size c = n" and "j \<le> m" and "slab_list (ram s) (free_list c) xs"
    and "\<forall>x\<in>set xs. unat (deref_phys x) + 8 \<le> 2 ^ 47 \<and> extent x 8 \<inter> {unat p + j * n ..< unat p + 4096} = {}"
  shows "\<exists>c' m'. grow_loop (KERNEL_VIRT_BASE + p) (j * n) c s = Some (c', s\<lparr>ram := m'\<rparr>) \<and> object_size c' = n \<and>
    slab_list m' (free_list c') (rev (map (nth_object (KERNEL_VIRT_BASE + p) n) [j..<m]) @ xs) \<and>
    (\<forall>x. unat x \<notin> {unat p + j * n ..< unat p + 4096} \<longrightarrow> m' x = ram s x)"
  using assms(5-8)
proof (induction "m - j" arbitrary: j c s xs)
  case 0
  then have "j = m" by simp
  then have "\<not> j * n + n \<le> 4096" using n by (simp add: mult.commute)
  then show ?case
    using 0 \<open>j = m\<close> by (intro exI [of _ c] exI [of _ "ram s"]) (simp add: grow_loop.simps [of _ "m * n"])
next
  case (Suc d)
  then have jm: "j < m" by simp
  then have "Suc j * n \<le> m * n" by (intro mult_le_mono1) simp
  then have fit: "j * n + n \<le> 4096" using n by (simp add: mult.commute)
  have dv: "n dvd 4096" using n(1) by (metis dvd_triv_left)
  have n0: "0 < n" using n(2) by simp
  let ?b = "KERNEL_VIRT_BASE + p"
  let ?v = "nth_object ?b n j"
  note O = nth_object_ok [OF p fit dv n0]
  let ?m1 = "write64 (ram s) (deref_phys ?v) (free_list c)"
  let ?c1 = "c\<lparr>free_list := ?v\<rparr>" and ?s1 = "s\<lparr>ram := ?m1\<rparr>"
  have ex: "extent ?v 8 \<subseteq> {unat p + j * n ..< unat p + Suc j * n}" using n(2) unfolding extent_def O(2,3) by auto
  have ex': "extent ?v 8 \<subseteq> {unat p + j * n ..< unat p + 4096}" using ex fit by auto
  have push: "slab_list ?m1 ?v (?v # xs)"
    by (rule slab_list_push [OF Suc.prems(3) O(1) n(2)]) (use Suc.prems(4) ex' in blast)
  have w: "unat (deref_phys ?v) + 8 \<le> 2 ^ 47" using O(1) n(2) by (simp add: placed_def)
  have xs': "\<forall>x\<in>set (?v # xs). unat (deref_phys x) + 8 \<le> 2 ^ 47 \<and> extent x 8 \<inter> {unat p + Suc j * n ..< unat p + 4096} = {}"
    using Suc.prems(4) w ex by fastforce
  have d: "d = m - Suc j" using Suc.hyps(2) by simp
  have c1: "object_size ?c1 = n" using Suc.prems(1) by simp
  have sl: "slab_list (ram ?s1) (free_list ?c1) (?v # xs)" using push by simp
  obtain c' m' where I: "grow_loop ?b (Suc j * n) ?c1 ?s1 = Some (c', ?s1\<lparr>ram := m'\<rparr>)" "object_size c' = n"
    "slab_list m' (free_list c') (rev (map (nth_object ?b n) [Suc j..<m]) @ ?v # xs)"
    "\<forall>x. unat x \<notin> {unat p + Suc j * n ..< unat p + 4096} \<longrightarrow> m' x = ram ?s1 x"
    using Suc.hyps(1) [OF d c1 Suc_leI [OF jm] sl xs'] by blast
  have "grow_loop ?b (j * n) c s = Some (c', s\<lparr>ram := m'\<rparr>)"
    using fit O(4) I(1) Suc.prems(1)
    by (simp add: grow_loop.simps [of _ "j * n"] slab_free_def add.commute)
  moreover have "rev (map (nth_object ?b n) [j..<m]) @ xs = rev (map (nth_object ?b n) [Suc j..<m]) @ ?v # xs"
    using jm by (simp add: upt_conv_Cons)
  moreover have "m' x = ram s x" if "unat x \<notin> {unat p + j * n ..< unat p + 4096}" for x
  proof -
    have "unat x \<notin> {unat p + Suc j * n ..< unat p + 4096}" using that by auto
    then have "m' x = ?m1 x" using I(4) by simp
    also have "\<dots> = ram s x" using write64_outside [OF w] that ex' unfolding extent_def by blast
    finally show ?thesis .
  qed
  ultimately show ?case using I(2,3) by (intro exI [of _ c'] exI [of _ m']) simp
qed

section \<open>Sizes\<close>

lemma slab_size:
  assumes "i < 10"
  shows "SLAB_SIZES ! i = 2 ^ (i + 3)"
proof -
  have "list_all (\<lambda>i. SLAB_SIZES ! i = 2 ^ (i + 3)) [0..<10]" by code_simp
  then show ?thesis using assms by (simp add: list_all_iff)
qed

lemma slab_size_facts:
  assumes "i < 10"
  shows "8 \<le> SLAB_SIZES ! i" and "SLAB_SIZES ! i * 2 ^ (9 - i) = 4096" and "SLAB_SIZES ! i \<le> 4096" and "SLAB_SIZES ! i dvd 4096"
proof -
  have "(2::nat) ^ 3 \<le> 2 ^ (i + 3)" by (rule power_increasing) auto
  then show "8 \<le> SLAB_SIZES ! i" using slab_size [OF assms] by simp
  have "i + 3 + (9 - i) = 12" using assms by simp
  then have "(2::nat) ^ (i + 3) * 2 ^ (9 - i) = 2 ^ 12" by (simp only: flip: power_add)
  then show eq: "SLAB_SIZES ! i * 2 ^ (9 - i) = 4096" using slab_size [OF assms] by simp
  show "SLAB_SIZES ! i dvd 4096" unfolding eq [symmetric] by simp
  then show "SLAB_SIZES ! i \<le> 4096" by (rule dvd_imp_le) simp
qed

lemma size_to_slab_Some: "size_to_slab n = Some i \<Longrightarrow> i < 10 \<and> n \<le> SLAB_SIZES ! i"
  by (simp add: size_to_slab_def position_Some) (simp add: SLAB_SIZES_def)

lemma size_to_slab_None: "size_to_slab n = None \<Longrightarrow> 4096 < n"
  unfolding size_to_slab_def position_None SLAB_SIZES_def by simp

lemma order_loop_ok:
  assumes "unat pages \<le> 2 ^ 52" and "unat n = 2 ^ k" and "k \<le> 52"
  shows "\<exists>r. order_loop pages n k = Some r \<and> unat pages \<le> 2 ^ r"
  using assms
proof (induction "52 - k" arbitrary: n k)
  case 0
  then have "k = 52" by simp
  then have "unat pages \<le> unat n" using 0(2,3) by simp
  then have "\<not> n < pages" by (simp add: word_less_nat_alt)
  then show ?case using 0 by (simp add: order_loop.simps [of _ n])
next
  case (Suc d)
  show ?case
  proof (cases "n < pages")
    case False
    then show ?thesis using Suc by (simp add: order_loop.simps [of _ n] word_less_nat_alt)
  next
    case True
    have "k < 52" using Suc.hyps(2) by simp
    then have "(2::nat) ^ Suc k \<le> 2 ^ 52" by (intro power_increasing) auto
    then have "unat (push_bit 1 n) = 2 ^ Suc k"
      using Suc.prems(2) by (simp add: push_bit_eq_mult unat_word_ariths mult.commute)
    then have "\<exists>r. order_loop pages (push_bit 1 n) (Suc k) = Some r \<and> unat pages \<le> 2 ^ r"
      using Suc.hyps(2) Suc.prems(1) \<open>k < 52\<close> by (intro Suc.hyps(1)) auto
    then show ?thesis using True by (simp add: order_loop.simps [of _ n])
  qed
qed

lemma large_order_ok:
  assumes "n \<le> 2 ^ 63"
  obtains k where "large_order n = Some k" and "n \<le> 4096 * 2 ^ k"
proof -
  let ?q = "(n + 4095) div 4096"
  have "?q \<le> (2 ^ 63 + 4095) div 4096" using assms by (intro div_le_mono) simp
  then have q: "?q \<le> 2 ^ 52" by simp
  then have u: "unat (of_nat ?q :: u64) = ?q" by (simp only: unat_of_nat) simp
  then obtain k where "order_loop (of_nat ?q) 1 0 = Some k" "?q \<le> 2 ^ k"
    using order_loop_ok [of "of_nat ?q" 1 0] q by auto
  moreover have "n \<le> 4096 * ?q" by simp
  ultimately show ?thesis using that [of k] by (simp add: large_order_def pages_to_order_def)
qed

text \<open>A layout as the language guarantees it, and the size of the objects that serve it.\<close>

definition layout_ok :: "nat \<times> nat \<Rightarrow> bool" where
  "layout_ok l \<longleftrightarrow> fst l < 2 ^ 63 \<and> (\<exists>j\<le>63. snd l = 2 ^ j)"

definition served_size :: "nat \<times> nat \<Rightarrow> nat" where
  "served_size l =
     (case size_to_slab (layout_size l) of
        Some i \<Rightarrow> SLAB_SIZES ! i
      | None \<Rightarrow> 4096 * 2 ^ the (large_order (layout_size l)))"

lemma layout_size_bound:
  assumes "layout_ok l"
  shows "layout_size l \<le> 2 ^ 63"
proof -
  obtain j where j: "j \<le> 63" "snd l = 2 ^ j" using assms by (auto simp: layout_ok_def)
  then have "snd l \<le> 2 ^ 63" using power_increasing [of j 63 "2::nat"] by simp
  then show ?thesis using assms by (simp add: layout_size_def layout_ok_def case_prod_unfold)
qed

lemma served_size_ok:
  assumes "layout_ok l"
  shows "fst l \<le> served_size l" and "snd l dvd served_size l" and "0 < served_size l"
proof -
  have "layout_size l \<le> served_size l \<and> (\<exists>k. served_size l = 2 ^ k)"
  proof (cases "size_to_slab (layout_size l)")
    case None
    obtain k where k: "large_order (layout_size l) = Some k" "layout_size l \<le> 4096 * 2 ^ k"
      using large_order_ok [OF layout_size_bound [OF assms]] .
    have "(4096::nat) * 2 ^ k = 2 ^ (12 + k)" by (simp add: power_add)
    then show ?thesis using None k by (auto simp: served_size_def)
  next
    case (Some i)
    then show ?thesis using size_to_slab_Some [OF Some] slab_size by (auto simp: served_size_def)
  qed
  then obtain k where le: "layout_size l \<le> 2 ^ k" and s: "served_size l = 2 ^ k" by auto
  have b: "fst l \<le> layout_size l" "snd l \<le> layout_size l" by (auto simp: layout_size_def case_prod_unfold)
  show "fst l \<le> served_size l" using b le s by simp
  obtain j where j: "snd l = 2 ^ j" using assms by (auto simp: layout_ok_def)
  then have "(2::nat) ^ j \<le> 2 ^ k" using b(2) le by linarith
  then have "j \<le> k" by simp
  then show "snd l dvd served_size l" unfolding s j by (rule le_imp_power_dvd)
  show "0 < served_size l" unfolding s by simp
qed

section \<open>The objects of a heap\<close>

text \<open>Large requests beyond the biggest block are never served.\<close>

definition servable :: "nat \<times> nat \<Rightarrow> bool" where
  "servable l \<longleftrightarrow> layout_ok l \<and>
     (size_to_slab (layout_size l) = None \<longrightarrow> the (large_order (layout_size l)) < MAX_ORDER)"

text \<open>The objects in use, each with its layout, and the free objects of each cache.\<close>

datatype heap_object = Used u64 "nat \<times> nat" | Free nat u64

primrec object_bytes :: "heap_object \<Rightarrow> nat set" where
  "object_bytes (Used v l) = extent v (served_size l)"
| "object_bytes (Free i v) = extent v (SLAB_SIZES ! i)"

primrec object_placed :: "heap_object \<Rightarrow> bool" where
  "object_placed (Used v l) = placed v (served_size l)"
| "object_placed (Free i v) = placed v (SLAB_SIZES ! i)"

definition free_objects :: "(nat \<Rightarrow> u64 list) \<Rightarrow> heap_object set" where
  "free_objects L = {Free i v | i v. i < 10 \<and> v \<in> set (L i)}"

definition heap_objects :: "(u64 \<times> nat \<times> nat) set \<Rightarrow> (nat \<Rightarrow> u64 list) \<Rightarrow> heap_object set" where
  "heap_objects H L = (\<lambda>(v, l). Used v l) ` H \<union> free_objects L"

definition used_bytes :: "(u64 \<times> nat \<times> nat) set \<Rightarrow> nat set" where
  "used_bytes H = (\<Union>(v, l)\<in>H. extent v (served_size l))"

text \<open>
  The relation between a heap and its objects; \<open>E\<close> are the frames that other parts of the kernel hold.
\<close>

definition heap_rel ::
    "KernelHeap \<Rightarrow> 'a buddy_scheme \<Rightarrow> (u64 \<times> nat \<times> nat) set \<Rightarrow> nat set \<Rightarrow> (nat \<Rightarrow> u64 list) \<Rightarrow> bool" where
  "heap_rel h s H E L \<longleftrightarrow> buddy_inv s \<and> E \<inter> avail s = {} \<and> length h = 10 \<and>
     (\<forall>i<10. object_size (h ! i) = SLAB_SIZES ! i \<and> slab_list (ram s) (free_list (h ! i)) (L i) \<and> distinct (L i)) \<and>
     (\<forall>(v, l)\<in>H. servable l) \<and> disjoint_family_on object_bytes (heap_objects H L) \<and>
     (\<forall>x\<in>heap_objects H L. object_placed x \<and> object_bytes x \<inter> frame_space (avail s \<union> E) = {})"

lemma heap_relD:
  assumes "heap_rel h s H E L"
  shows "buddy_inv s" "E \<inter> avail s = {}" "length h = 10"
    "i < 10 \<Longrightarrow> object_size (h ! i) = SLAB_SIZES ! i" "i < 10 \<Longrightarrow> slab_list (ram s) (free_list (h ! i)) (L i)"
    "i < 10 \<Longrightarrow> distinct (L i)" "(v, l) \<in> H \<Longrightarrow> layout_ok l" "disjoint_family_on object_bytes (heap_objects H L)"
    "x \<in> heap_objects H L \<Longrightarrow> object_placed x" "x \<in> heap_objects H L \<Longrightarrow> object_bytes x \<inter> frame_space (avail s \<union> E) = {}"
    "(v, l) \<in> H \<Longrightarrow> servable l"
  using assms by (auto simp: heap_rel_def servable_def)

lemma free_link:
  assumes "object_placed (Free i v)" and "i < 10"
  shows "unat (deref_phys v) + 8 \<le> 2 ^ 47" and "extent v 8 \<subseteq> object_bytes (Free i v)"
  using assms slab_size_facts(1) [OF assms(2)] by (auto simp: placed_def extent_def)

text \<open>Whatever happens outside the free objects leaves their lists alone.\<close>

lemma heap_rel_elsewhere:
  fixes s :: "'a buddy_scheme" and s' :: "'b buddy_scheme"
  assumes rel: "heap_rel h s H E L" and inv: "buddy_inv s'" and E: "E' \<inter> avail s' = {}"
    and fr: "\<And>x. x \<in> heap_objects H L \<Longrightarrow> object_bytes x \<inter> frame_space (avail s' \<union> E') = {}"
    and mem: "\<And>x. x \<in> free_objects L \<Longrightarrow> same_on (object_bytes x) (ram s) (ram s')"
  shows "heap_rel h s' H E' L"
proof -
  note D = heap_relD [OF rel]
  have "slab_list (ram s') (free_list (h ! i)) (L i)" if "i < 10" for i
  proof (rule slab_list_same_on [OF D(5) [OF that]], intro ballI conjI)
    fix v assume v: "v \<in> set (L i)"
    then have f: "Free i v \<in> free_objects L" using that by (auto simp: free_objects_def)
    then have "object_placed (Free i v)" using D(9) [of "Free i v"] unfolding heap_objects_def by blast
    note F = free_link [OF this that]
    show "unat (deref_phys v) + 8 \<le> 2 ^ 47" by (rule F(1))
    show "same_on (extent v 8) (ram s) (ram s')" by (rule same_on_simps(3) [OF mem [OF f] F(2)])
  qed
  then show ?thesis using rel inv E fr by (auto simp: heap_rel_def)
qed

lemma disjoint_family_swap:
  "disjoint_family_on f S \<Longrightarrow> x \<in> S \<Longrightarrow> f y = f x \<Longrightarrow> disjoint_family_on f (insert y (S - {x}))"
  unfolding disjoint_family_on_def by blast

lemma disjoint_family_join:
  "disjoint_family_on f S \<Longrightarrow> disjoint_family_on f T \<Longrightarrow> (\<And>x y. x \<in> S \<Longrightarrow> y \<in> T \<Longrightarrow> f x \<inter> f y = {}) \<Longrightarrow>
   disjoint_family_on f (S \<union> T)"
  unfolding disjoint_family_on_def by blast

section \<open>Taking and returning objects of a cache\<close>

lemma heap_objects_mem [simp]:
  "Used v l \<in> heap_objects H L \<longleftrightarrow> (v, l) \<in> H" "Free i v \<in> heap_objects H L \<longleftrightarrow> i < 10 \<and> v \<in> set (L i)"
  by (auto simp: heap_objects_def free_objects_def)

lemma used_not_free:
  assumes rel: "heap_rel h s H E L" and "(v, l) \<in> H" and "i < 10"
  shows "v \<notin> set (L i)"
proof
  assume "v \<in> set (L i)"
  then have "Used v l \<in> heap_objects H L" "Free i v \<in> heap_objects H L"
    using assms(2,3) by (auto simp: heap_objects_def free_objects_def)
  then have "object_bytes (Used v l) \<inter> object_bytes (Free i v) = {}"
    using disjoint_family_onD [OF heap_relD(8) [OF rel], of "Used v l" "Free i v"] by simp
  moreover have "unat (deref_phys v) \<in> object_bytes (Used v l) \<inter> object_bytes (Free i v)"
    using served_size_ok(3) [OF heap_relD(7) [OF rel assms(2)]] slab_size_facts(1) [OF assms(3)] by (simp add: extent_def)
  ultimately show False by blast
qed

lemma heap_pop:
  fixes s :: "'a buddy_scheme"
  assumes rel: "heap_rel h s H E L" and i: "i < 10" and L: "L i = v # vs"
    and l: "servable l" "served_size l = SLAB_SIZES ! i"
  shows "heap_rel (h[i := (h ! i)\<lparr>free_list := node_next (ram s) v\<rparr>]) s (insert (v, l) H) E (L(i := vs))"
    and "(v, l) \<notin> H" and "free_list (h ! i) = v" and "v \<noteq> 0"
proof -
  note D = heap_relD [OF rel]
  have hd: "free_list (h ! i) = v" "v \<noteq> 0" "slab_list (ram s) (node_next (ram s) v) vs" using D(5) [OF i] L by auto
  then show "free_list (h ! i) = v" "v \<noteq> 0" by auto
  have v: "v \<notin> set vs" using D(6) [OF i] L by simp
  show "(v, l) \<notin> H" using used_not_free [OF rel, of v l i] i L by auto
  have fr: "Free i v \<in> heap_objects H L" using i L by (simp add: heap_objects_def free_objects_def)
  have eq: "heap_objects (insert (v, l) H) (L(i := vs)) = insert (Used v l) (heap_objects H L - {Free i v})"
  proof (rule set_eqI)
    show "x \<in> heap_objects (insert (v, l) H) (L(i := vs)) \<longleftrightarrow> x \<in> insert (Used v l) (heap_objects H L - {Free i v})" for x
      using v L i by (cases x) auto
  qed
  have b: "object_bytes (Used v l) = object_bytes (Free i v)" "object_placed (Used v l) = object_placed (Free i v)"
    using l(2) by simp_all
  have dis: "disjoint_family_on object_bytes (heap_objects (insert (v, l) H) (L(i := vs)))"
    unfolding eq by (rule disjoint_family_swap [OF D(8) fr b(1)])
  have ob: "\<forall>x\<in>heap_objects (insert (v, l) H) (L(i := vs)). object_placed x \<and> object_bytes x \<inter> frame_space (avail s \<union> E) = {}"
    unfolding eq using D(9,10) [OF fr] D(9,10) b by blast
  have "\<forall>j<10. let c = h[i := (h ! i)\<lparr>free_list := node_next (ram s) v\<rparr>] ! j in
      object_size c = SLAB_SIZES ! j \<and> slab_list (ram s) (free_list c) ((L(i := vs)) j) \<and> distinct ((L(i := vs)) j)"
  proof (intro allI impI)
    fix j :: nat assume "j < 10"
    then show "let c = h[i := (h ! i)\<lparr>free_list := node_next (ram s) v\<rparr>] ! j in
      object_size c = SLAB_SIZES ! j \<and> slab_list (ram s) (free_list c) ((L(i := vs)) j) \<and> distinct ((L(i := vs)) j)"
      using D(3) D(4-6) [of j] hd(3) L i by (cases "j = i") auto
  qed
  then show "heap_rel (h[i := (h ! i)\<lparr>free_list := node_next (ram s) v\<rparr>]) s (insert (v, l) H) E (L(i := vs))"
    using D(1-3,11) l(1) dis ob unfolding heap_rel_def Let_def by auto
qed

lemma heap_push:
  fixes s :: "'a buddy_scheme"
  assumes rel: "heap_rel h s H E L" and i: "i < 10" and H: "(v, l) \<in> H" and l: "served_size l = SLAB_SIZES ! i"
  defines "m' \<equiv> write64 (ram s) (deref_phys v) (free_list (h ! i))"
  shows "heap_rel (h[i := (h ! i)\<lparr>free_list := v\<rparr>]) (s\<lparr>ram := m'\<rparr>) (H - {(v, l)}) E (L(i := v # L i))"
    and "same_on (- extent v (served_size l)) (ram s) m'"
proof -
  note D = heap_relD [OF rel]
  have us: "Used v l \<in> heap_objects H L" using H by (force simp: heap_objects_def)
  have p: "placed v (SLAB_SIZES ! i)" using D(9) [OF us] l by simp
  note n8 = slab_size_facts(1) [OF i]
  have w: "unat (deref_phys v) + 8 \<le> 2 ^ 47" using p n8 by (simp add: placed_def)
  have ex: "extent v 8 \<subseteq> object_bytes (Used v l)" using n8 l by (auto simp: extent_def)
  show out: "same_on (- extent v (served_size l)) (ram s) m'"
    using write64_outside [OF w] ex unfolding same_on_def m'_def by (auto simp: extent_def)
  have vi: "v \<notin> set (L i)" by (rule used_not_free [OF rel H i])
  have eq: "heap_objects (H - {(v, l)}) (L(i := v # L i)) = insert (Free i v) (heap_objects H L - {Used v l})"
  proof (rule set_eqI)
    show "x \<in> heap_objects (H - {(v, l)}) (L(i := v # L i)) \<longleftrightarrow> x \<in> insert (Free i v) (heap_objects H L - {Used v l})" for x
      using vi i by (cases x) auto
  qed
  have b: "object_bytes (Free i v) = object_bytes (Used v l)" "object_placed (Free i v) = object_placed (Used v l)"
    using l by simp_all
  have fm: "same_on (object_bytes x) (ram s) m'" if "x \<in> free_objects L" for x
  proof -
    have "x \<in> heap_objects H L" "x \<noteq> Used v l" using that by (auto simp: heap_objects_def free_objects_def)
    then have "object_bytes x \<inter> object_bytes (Used v l) = {}" using disjoint_family_onD [OF D(8)] us by blast
    then show ?thesis using out by (intro same_on_simps(3) [OF out]) auto
  qed
  have wm: "mem_eq_off (frame ` {x. unat x \<in> extent v (served_size l)}) (ram s) m'"
    using out unfolding mem_eq_off_def same_on_def by blast
  have "frame ` {x. unat x \<in> extent v (served_size l)} \<inter> avail s = {}"
    using D(10) [OF us] by (auto simp: frame_space_def frame_def)
  note B = buddy_write_ok [OF D(1) wm this]
  have rel': "heap_rel h (s\<lparr>ram := m'\<rparr>) H E L"
    by (rule heap_rel_elsewhere [OF rel B(1)]) (use D(2,10) B(2) fm in auto)
  note D' = heap_relD [OF rel']
  have push: "slab_list m' v (v # L i)"
    unfolding m'_def
  proof (rule slab_list_push [OF D(5) [OF i] p n8], intro ballI conjI)
    fix x assume "x \<in> set (L i)"
    then have f: "Free i x \<in> heap_objects H L" using i by (simp add: heap_objects_def free_objects_def)
    note F = free_link [OF D(9) [OF f] i]
    show "unat (deref_phys x) + 8 \<le> 2 ^ 47" by (rule F(1))
    have "object_bytes (Free i x) \<inter> object_bytes (Used v l) = {}" using disjoint_family_onD [OF D(8) f us] by blast
    then show "extent x 8 \<inter> extent v 8 = {}" using F(2) ex by blast
  qed
  have "\<forall>j<10. let c = h[i := (h ! i)\<lparr>free_list := v\<rparr>] ! j in
      object_size c = SLAB_SIZES ! j \<and> slab_list m' (free_list c) ((L(i := v # L i)) j) \<and> distinct ((L(i := v # L i)) j)"
  proof (intro allI impI)
    fix j :: nat assume "j < 10"
    then show "let c = h[i := (h ! i)\<lparr>free_list := v\<rparr>] ! j in
      object_size c = SLAB_SIZES ! j \<and> slab_list m' (free_list c) ((L(i := v # L i)) j) \<and> distinct ((L(i := v # L i)) j)"
      using D(3) D'(4-6) [of j] push vi i by (cases "j = i") auto
  qed
  moreover have "disjoint_family_on object_bytes (heap_objects (H - {(v, l)}) (L(i := v # L i)))"
    unfolding eq by (rule disjoint_family_swap [OF D(8) us b(1)])
  moreover have "\<forall>x\<in>heap_objects (H - {(v, l)}) (L(i := v # L i)).
      object_placed x \<and> object_bytes x \<inter> frame_space (avail s \<union> E) = {}"
    unfolding eq using D(9,10) [OF us] D(9,10) b by blast
  ultimately show "heap_rel (h[i := (h ! i)\<lparr>free_list := v\<rparr>]) (s\<lparr>ram := m'\<rparr>) (H - {(v, l)}) E (L(i := v # L i))"
    using D(1-3,11) B unfolding heap_rel_def Let_def by auto
qed

section \<open>A new page for a cache\<close>

lemma page_objects:
  assumes p: "in_window p" "p \<noteq> 0" and n: "n * m = 4096" "0 < n"
  defines "ob \<equiv> nth_object (KERNEL_VIRT_BASE + p) n"
  shows "j < m \<Longrightarrow> placed (ob j) n" and "j < m \<Longrightarrow> extent (ob j) n = {unat p + j * n ..< unat p + Suc j * n}"
    and "j < m \<Longrightarrow> extent (ob j) n \<subseteq> frame_space {frame p}"
    and "j < m \<Longrightarrow> k < m \<Longrightarrow> j \<noteq> k \<Longrightarrow> extent (ob j) n \<inter> extent (ob k) n = {}"
    and "inj_on ob {..<m}"
proof -
  have dv: "n dvd 4096" using n(1) by (metis dvd_triv_left)
  have fit: "i * n + n \<le> 4096" if "i < m" for i
  proof -
    have "Suc i * n \<le> m * n" using that by (intro mult_le_mono1) simp
    then show ?thesis using n(1) by (simp add: mult.commute)
  qed
  show pl: "placed (ob j) n" if "j < m" for j unfolding ob_def by (rule nth_object_ok(1) [OF p fit [OF that] dv n(2)])
  show ex: "extent (ob j) n = {unat p + j * n ..< unat p + Suc j * n}" if "j < m" for j
    unfolding ob_def extent_def nth_object_ok(2,3) [OF p fit [OF that] dv n(2)] by (simp add: ac_simps)
  show "extent (ob j) n \<subseteq> frame_space {frame p}" if "j < m" for j
  proof
    fix x assume "x \<in> extent (ob j) n"
    then have b: "unat p \<le> x" "x < unat p + 4096" using ex [OF that] fit [OF that] by auto
    have "unat p = 4096 * frame p" using p(1) by (simp add: in_window_def frame_def)
    then have "x div 4096 = frame p" using b by (intro div_nat_eqI) auto
    then show "x \<in> frame_space {frame p}" by (simp add: frame_space_def)
  qed
  have lt: "extent (ob j) n \<inter> extent (ob k) n = {}" if "j < k" "k < m" for j k
  proof -
    have "Suc j * n \<le> k * n" using that by (intro mult_le_mono1) simp
    then show ?thesis using that by (auto simp: ex)
  qed
  show dj: "extent (ob j) n \<inter> extent (ob k) n = {}" if "j < m" "k < m" "j \<noteq> k" for j k
    using lt [of j k] lt [of k j] that by (cases "j < k") auto
  show "inj_on ob {..<m}"
  proof (rule inj_onI, rule ccontr)
    fix j k assume jk: "j \<in> {..<m}" "k \<in> {..<m}" "ob j = ob k" "j \<noteq> k"
    then have "extent (ob j) n = {}" using dj [of j k] by simp
    then show False using ex [of j] jk n(2) by simp
  qed
qed

text \<open>The memory after a page has been cut: a frame less is free, and nothing but free frames was written.\<close>

lemma slab_grow_runs:
  fixes s :: "'a buddy_scheme"
  assumes inv: "buddy_inv s" and n: "n * m = 4096" "8 \<le> n" and c: "object_size c = n" "free_list c = 0"
  obtains (no_memory) "slab_grow c s = Some (0, c, s)" and "avail s = {}"
  | (page) p c' s' where "slab_grow c s = Some (KERNEL_VIRT_BASE + p, c', s')" and "in_window p" and "p \<noteq> 0"
    and "frame p \<in> avail s" and "buddy_inv s'" and "avail s' = avail s - {frame p}" and "object_size c' = n"
    and "slab_list (ram s') (free_list c') (rev (map (nth_object (KERNEL_VIRT_BASE + p) n) [1..<m]))"
    and "mem_eq_off (avail s) (ram s) (ram s')"
proof -
  obtain r s1 where al: "buddy_alloc 0 s = Some (r, s1)" using buddy_alloc_returns [OF inv] by fast
  show ?thesis
  proof (cases r)
    case None
    then show ?thesis
      using no_memory al buddy_alloc_inv(3) [OF inv al] buddy_alloc_none_empty [OF inv] by (simp add: slab_grow_def)
  next
    case (Some p)
    note A = buddy_alloc_inv(1) [OF inv al] buddy_alloc_inv(4) [OF inv al Some]
    have B: "block_ok p 0" "frame p \<in> avail s" "avail s1 = avail s - {frame p}" "mem_eq_off (avail s1) (ram s) (ram s1)"
      using A(2) unfolding block_frames_0 by blast+
    have pw: "in_window p" "p \<noteq> 0" using block_ok_window [OF B(1)] B(1) by (auto simp: block_ok_def)
    have ptr: "phys_to_virt p = Some (KERNEL_VIRT_BASE + p)" "deref_phys (KERNEL_VIRT_BASE + p) = p"
      using window_ptr [OF pw(1)] by auto
    let ?s2 = "s1\<lparr>ram := write_bytes (ram s1) p 0 4096\<rparr>"
    have m1: "1 \<le> m" using n(1) by (cases m) auto
    have sl: "slab_list (ram ?s2) (free_list c) []" using c(2) by simp
    have pre: "\<forall>x\<in>set []. unat (deref_phys x) + 8 \<le> 2 ^ 47 \<and> extent x 8 \<inter> {unat p + 1 * n..<unat p + 4096} = {}" by simp
    obtain c' m' where G: "grow_loop (KERNEL_VIRT_BASE + p) (1 * n) c ?s2 = Some (c', ?s2\<lparr>ram := m'\<rparr>)" "object_size c' = n"
      "slab_list m' (free_list c') (rev (map (nth_object (KERNEL_VIRT_BASE + p) n) [1..<m]) @ [])"
      "\<forall>x. unat x \<notin> {unat p + 1 * n ..< unat p + 4096} \<longrightarrow> m' x = ram ?s2 x"
      using grow_loop_ok [OF pw n c(1) m1 sl pre] by blast
    have off: "unat x \<notin> {unat p + 1 * n ..< unat p + 4096}" if "frame x \<noteq> frame p" for x
    proof
      assume x: "unat x \<in> {unat p + 1 * n ..< unat p + 4096}"
      have "unat p = 4096 * frame p" using pw(1) by (simp add: in_window_def frame_def)
      then have "unat x div 4096 = frame p" using x by (intro div_nat_eqI) auto
      then show False using that by (simp add: frame_def)
    qed
    have w1: "mem_eq_off {frame p} (ram s1) (ram ?s2)"
      using mem_eq_off_write_bytes [of p 4096 "ram s1" 0] pw(1) by (simp add: in_window_def)
    have w2: "mem_eq_off {frame p} (ram ?s2) m'" using G(4) off by (auto simp: mem_eq_off_def)
    have w: "mem_eq_off {frame p} (ram s1) m'" by (rule mem_eq_off_trans [OF w1 w2]) simp
    have "{frame p} \<inter> avail s1 = {}" using B(3) by simp
    note W = buddy_write_ok [OF A(1) w this]
    have m: "mem_eq_off (avail s) (ram s) m'" by (rule mem_eq_off_trans [OF B(4) w]) (use B(2,3) in blast)
    have "slab_grow c s = Some (KERNEL_VIRT_BASE + p, c', s1\<lparr>ram := m'\<rparr>)"
      using al Some ptr G(1) c(1) by (simp add: slab_grow_def)
    then show ?thesis using page [of p c' "s1\<lparr>ram := m'\<rparr>"] pw B(2,3) W G(2,3) m by simp
  qed
qed

section \<open>Allocation and release\<close>

lemma heap_rel_shrink:
  fixes s s' :: "'a buddy_scheme"
  assumes rel: "heap_rel h s H E L" and "buddy_inv s'" and av: "avail s' \<subseteq> avail s" and mem: "mem_eq_off (avail s) (ram s) (ram s')"
  shows "heap_rel h s' H E L" and "same_on (used_bytes H \<union> frame_space E) (ram s) (ram s')"
proof -
  note D = heap_relD [OF rel]
  have ob: "object_bytes x \<inter> frame_space (avail s) = {}" if "x \<in> heap_objects H L" for x
    using D(10) [OF that] by (auto simp: frame_space_def)
  show "heap_rel h s' H E L"
  proof (rule heap_rel_elsewhere [OF rel assms(2)])
    show "E \<inter> avail s' = {}" using D(2) av by blast
    show "object_bytes x \<inter> frame_space (avail s' \<union> E) = {}" if "x \<in> heap_objects H L" for x
      using D(10) [OF that] av by (auto simp: frame_space_def)
    show "same_on (object_bytes x) (ram s) (ram s')" if "x \<in> free_objects L" for x
      using that by (intro same_on_frames [OF mem] ob) (simp add: heap_objects_def)
  qed
  have "used_bytes H \<inter> frame_space (avail s) = {}"
    using ob [of "Used v l" for v l] by (force simp: used_bytes_def)
  moreover have "frame_space E \<inter> frame_space (avail s) = {}" using D(2) by (auto simp: frame_space_def)
  ultimately show "same_on (used_bytes H \<union> frame_space E) (ram s) (ram s')" by (intro same_on_frames [OF mem]) blast
qed

lemma heap_add:
  fixes s :: "'a buddy_scheme"
  assumes rel: "heap_rel h s H E L" and l: "servable l" and pl: "placed v (served_size l)"
    and B: "extent v (served_size l) \<inter> frame_space (avail s \<union> E) = {}"
    and dj: "\<And>x. x \<in> heap_objects H L \<Longrightarrow> object_bytes x \<inter> extent v (served_size l) = {}"
  shows "heap_rel h s (insert (v, l) H) E L"
proof -
  note D = heap_relD [OF rel]
  have eq: "heap_objects (insert (v, l) H) L = heap_objects H L \<union> {Used v l}" by (auto simp: heap_objects_def)
  have "disjoint_family_on object_bytes (heap_objects (insert (v, l) H) L)"
    unfolding eq by (rule disjoint_family_join [OF D(8)]) (use dj in \<open>auto simp: disjoint_family_on_def\<close>)
  then show ?thesis using rel l pl B unfolding heap_rel_def eq by auto
qed

lemma heap_add_free:
  fixes s :: "'a buddy_scheme"
  assumes rel: "heap_rel h s H E L" and i: "i < 10" and L: "L i = []" and c: "object_size c = SLAB_SIZES ! i"
    and sl: "slab_list (ram s) (free_list c) vs" and dis: "distinct vs"
    and pl: "\<forall>v\<in>set vs. placed v (SLAB_SIZES ! i) \<and> extent v (SLAB_SIZES ! i) \<inter> frame_space (avail s \<union> E) = {}"
    and dj: "\<And>x v. x \<in> heap_objects H L \<Longrightarrow> v \<in> set vs \<Longrightarrow> object_bytes x \<inter> extent v (SLAB_SIZES ! i) = {}"
    and dj': "\<forall>v\<in>set vs. \<forall>w\<in>set vs. v \<noteq> w \<longrightarrow> extent v (SLAB_SIZES ! i) \<inter> extent w (SLAB_SIZES ! i) = {}"
  shows "heap_rel (h[i := c]) s H E (L(i := vs))"
proof -
  note D = heap_relD [OF rel]
  have eq: "heap_objects H (L(i := vs)) = heap_objects H L \<union> Free i ` set vs"
  proof (rule set_eqI)
    show "x \<in> heap_objects H (L(i := vs)) \<longleftrightarrow> x \<in> heap_objects H L \<union> Free i ` set vs" for x
      using i L by (cases x) auto
  qed
  have "disjoint_family_on object_bytes (heap_objects H (L(i := vs)))"
    unfolding eq
  proof (rule disjoint_family_join [OF D(8)])
    show "disjoint_family_on object_bytes (Free i ` set vs)" using dj' by (auto simp: disjoint_family_on_def)
    fix x y assume x: "x \<in> heap_objects H L" and "y \<in> Free i ` set vs"
    then obtain v where "v \<in> set vs" "y = Free i v" by blast
    then show "object_bytes x \<inter> object_bytes y = {}" using dj [OF x, of v] by simp
  qed
  moreover have "\<forall>x\<in>heap_objects H (L(i := vs)). object_placed x \<and> object_bytes x \<inter> frame_space (avail s \<union> E) = {}"
    unfolding eq ball_Un using D(9,10) pl by simp
  moreover have "\<forall>j<10. object_size (h[i := c] ! j) = SLAB_SIZES ! j \<and>
      slab_list (ram s) (free_list (h[i := c] ! j)) ((L(i := vs)) j) \<and> distinct ((L(i := vs)) j)"
  proof (intro allI impI)
    fix j :: nat assume "j < 10"
    then show "object_size (h[i := c] ! j) = SLAB_SIZES ! j \<and>
      slab_list (ram s) (free_list (h[i := c] ! j)) ((L(i := vs)) j) \<and> distinct ((L(i := vs)) j)"
      using D(3) D(4-6) [of j] c sl dis i by (cases "j = i") auto
  qed
  ultimately show ?thesis using D(1-3,11) unfolding heap_rel_def by auto
qed

lemma block_extent:
  assumes "block_ok a k" and "deref_phys v = a"
  shows "extent v (4096 * 2 ^ k) = frame_space (block_frames a k)"
proof -
  have a: "unat a = 4096 * frame a" using block_ok_window [OF assms(1)] by (simp add: in_window_def frame_def)
  have "x \<in> extent v (4096 * 2 ^ k) \<longleftrightarrow> frame a \<le> x div 4096 \<and> x div 4096 < frame a + 2 ^ k" for x
    unfolding extent_def assms(2) a
    by (simp add: less_eq_div_iff_mult_less_eq div_less_iff_less_mult mult.commute distrib_left)
  then show ?thesis by (auto simp: frame_space_def block_frames_def)
qed

lemma frame_space_mono: "F \<subseteq> G \<Longrightarrow> frame_space F \<subseteq> frame_space G"
  and frame_space_disjoint: "F \<inter> G = {} \<Longrightarrow> frame_space F \<inter> frame_space G = {}"
  by (auto simp: frame_space_def)

lemma disjoint_frames:
  assumes "frame_space F \<inter> frame_space G = {}"
  shows "F \<inter> G = {}"
proof -
  have "f * 4096 \<in> frame_space F \<inter> frame_space G" if "f \<in> F \<inter> G" for f using that by (simp add: frame_space_def)
  then show ?thesis using assms by blast
qed

text \<open>An answer to a request: null, or a new object that meets no other object and no frame of anybody else.\<close>

definition served ::
    "nat \<times> nat \<Rightarrow> KernelHeap \<Rightarrow> 'a buddy_scheme \<Rightarrow> (u64 \<times> nat \<times> nat) set \<Rightarrow> nat set \<Rightarrow> u64 \<Rightarrow> KernelHeap \<Rightarrow> 'a buddy_scheme \<Rightarrow> bool" where
  "served l h s H E ptr h' s' \<longleftrightarrow> same_on (used_bytes H \<union> frame_space E) (ram s) (ram s') \<and>
     (if ptr = 0 then h' = h \<and> s' = s else \<exists>L'. heap_rel h' s' (insert (ptr, l) H) E L' \<and> (ptr, l) \<notin> H)"

lemma not_used:
  assumes "extent v (served_size l) \<inter> used_bytes H = {}" and "layout_ok l"
  shows "(v, l) \<notin> H"
proof
  assume "(v, l) \<in> H"
  then have "extent v (served_size l) \<subseteq> used_bytes H" by (auto simp: used_bytes_def)
  moreover have "unat (deref_phys v) \<in> extent v (served_size l)" using served_size_ok(3) [OF assms(2)] by (simp add: extent_def)
  ultimately show False using assms(1) by blast
qed

lemma objects_off_avail:
  assumes "heap_rel h s H E L" and "B \<subseteq> frame_space (avail s)"
  shows "x \<in> heap_objects H L \<Longrightarrow> object_bytes x \<inter> B = {}" and "B \<inter> used_bytes H = {}"
proof -
  show ob: "object_bytes x \<inter> B = {}" if "x \<in> heap_objects H L" for x
    using heap_relD(10) [OF assms(1) that] assms(2) by (auto simp: frame_space_def)
  then show "B \<inter> used_bytes H = {}" using ob [of "Used v l" for v l] by (force simp: used_bytes_def)
qed

lemma slab_alloc_ok:
  fixes s :: "'a buddy_scheme"
  assumes rel: "heap_rel h s H E L" and i: "i < 10" and l: "servable l" "served_size l = SLAB_SIZES ! i"
  shows "\<exists>ptr c s'. slab_alloc (h ! i) s = Some (ptr, c, s') \<and> served l h s H E ptr (h[i := c]) s'"
proof -
  note D = heap_relD [OF rel]
  let ?n = "SLAB_SIZES ! i" and ?m = "2 ^ (9 - i) :: nat"
  note F = slab_size_facts [OF i]
  have len: "i < length h" using D(3) i by simp
  show ?thesis
  proof (cases "L i")
    case (Cons v vs)
    note P = heap_pop [OF rel i Cons l]
    have "slab_alloc (h ! i) s = Some (v, (h ! i)\<lparr>free_list := node_next (ram s) v\<rparr>, s)"
      using P(3,4) by (simp add: slab_alloc_def)
    then show ?thesis using P by (auto simp: served_def same_on_simps(1))
  next
    case Nil
    then have z: "free_list (h ! i) = 0" using D(5) [OF i] by simp
    show ?thesis
    proof (cases rule: slab_grow_runs [OF D(1) F(2,1) D(4) [OF i] z, case_names no_memory page])
      case no_memory
      then have "slab_alloc (h ! i) s = Some (0, h ! i, s)" using z by (simp add: slab_alloc_def)
      then show ?thesis using len by (simp add: served_def same_on_simps(1))
    next
      case (page p c s')
      let ?b = "KERNEL_VIRT_BASE + p" and ?ob = "nth_object (KERNEL_VIRT_BASE + p) ?n"
      note S = heap_rel_shrink [OF rel page(5) _ page(9)]
      have rel': "heap_rel h s' H E L" and mem: "same_on (used_bytes H \<union> frame_space E) (ram s) (ram s')"
        using S page(6) by auto
      have n0: "0 < ?n" using F(1) by simp
      note O = page_objects [OF page(2,3) F(2) n0]
      have sub: "extent (?ob j) ?n \<subseteq> frame_space (avail s)" if "j < ?m" for j
        using O(3) [OF that] page(4) by (auto simp: frame_space_def)
      have off: "extent (?ob j) ?n \<inter> frame_space (avail s' \<union> E) = {}" if "j < ?m" for j
      proof -
        have "{frame p} \<inter> (avail s' \<union> E) = {}" using page(4,6) D(2) by blast
        then show ?thesis using O(3) [OF that] frame_space_disjoint by blast
      qed
      let ?vs = "rev (map ?ob [1..<?m])"
      have vs: "\<exists>j<?m. 0 < j \<and> v = ?ob j" if "v \<in> set ?vs" for v using that by auto
      have "inj_on ?ob {1..<?m}" by (rule inj_on_subset [OF O(5)]) auto
      then have dis: "distinct ?vs" by (simp add: distinct_map)
      have rel2: "heap_rel (h[i := c]) s' H E (L(i := ?vs))"
      proof (rule heap_add_free [OF rel' i Nil page(7,8) dis])
        show "\<forall>v\<in>set ?vs. placed v ?n \<and> extent v ?n \<inter> frame_space (avail s' \<union> E) = {}" using vs O(1) off by blast
        show "object_bytes x \<inter> extent v ?n = {}" if "x \<in> heap_objects H L" "v \<in> set ?vs" for x v
          using objects_off_avail(1) [OF rel sub that(1)] vs [OF that(2)] by blast
        show "\<forall>v\<in>set ?vs. \<forall>w\<in>set ?vs. v \<noteq> w \<longrightarrow> extent v ?n \<inter> extent w ?n = {}" using vs O(4) by metis
      qed
      have b0: "?ob 0 = ?b" by (simp add: nth_object_def)
      have m0: "0 < ?m" by simp
      note B = O(1) [OF m0, unfolded b0] off [OF m0, unfolded b0] sub [OF m0, unfolded b0] O(4) [OF _ m0, unfolded b0]
      have "heap_rel (h[i := c]) s' (insert (?b, l) H) E (L(i := ?vs))"
      proof (rule heap_add [OF rel2 l(1)])
        show "placed ?b (served_size l)" "extent ?b (served_size l) \<inter> frame_space (avail s' \<union> E) = {}"
          unfolding l(2) by (rule B)+
        fix x assume x: "x \<in> heap_objects H (L(i := ?vs))"
        show "object_bytes x \<inter> extent ?b (served_size l) = {}"
        proof (cases "x \<in> heap_objects H L")
          case True
          then show ?thesis using objects_off_avail(1) [OF rel B(3)] unfolding l(2) by simp
        next
          case False
          then obtain v where v: "x = Free i v" "v \<in> set ?vs" using x i by (cases x) (auto split: if_splits)
          then obtain j where "j < ?m" "0 < j" "v = ?ob j" using vs by blast
          then show ?thesis using B(4) [of j] v(1) unfolding l(2) by simp
        qed
      qed
      moreover have "(?b, l) \<notin> H"
        by (rule not_used) (use objects_off_avail(2) [OF rel B(3)] l in \<open>simp_all add: servable_def\<close>)
      moreover have "?b \<noteq> 0" by (rule placed_nonzero [OF B(1)])
      moreover have "slab_alloc (h ! i) s = Some (?b, c, s')" using z page(1) by (simp add: slab_alloc_def)
      ultimately show ?thesis using mem by (auto simp: served_def)
    qed
  qed
qed

lemma large_alloc_ok:
  fixes s :: "'a buddy_scheme"
  assumes rel: "heap_rel h s H E L" and l: "layout_ok l" "size_to_slab (layout_size l) = None"
  shows "\<exists>ptr s'. heap_alloc l h s = Some (ptr, h, s') \<and> served l h s H E ptr h s'"
proof -
  note D = heap_relD [OF rel]
  obtain k where k: "large_order (layout_size l) = Some k" using large_order_ok [OF layout_size_bound [OF l(1)]] .
  have sz: "served_size l = 4096 * 2 ^ k" using l(2) k by (simp add: served_size_def)
  obtain r s1 where al: "buddy_alloc k s = Some (r, s1)" using buddy_alloc_returns [OF D(1)] by fast
  show ?thesis
  proof (cases r)
    case None
    then have "heap_alloc l h s = Some (0, h, s)"
      using l(2) k al buddy_alloc_inv(3) [OF D(1) al] by (simp add: heap_alloc_def)
    then show ?thesis by (auto simp: served_def same_on_simps(1))
  next
    case (Some p)
    have A: "k < MAX_ORDER" "block_ok p k" "block_frames p k \<subseteq> avail s" "avail s1 = avail s - block_frames p k"
      "mem_eq_off (avail s1) (ram s) (ram s1)" using buddy_alloc_inv(4) [OF D(1) al Some] by auto
    have m: "mem_eq_off (avail s) (ram s) (ram s1)" by (rule mem_eq_off_mono [OF A(5)]) (use A(4) in blast)
    note S = heap_rel_shrink [OF rel buddy_alloc_inv(1) [OF D(1) al] _ m]
    have rel': "heap_rel h s1 H E L" and mem: "same_on (used_bytes H \<union> frame_space E) (ram s) (ram s1)"
      using S A(4) by auto
    let ?v = "KERNEL_VIRT_BASE + p"
    have pw: "unat p < 2 ^ 47" using block_ok_window [OF A(2)] by (simp add: in_window_def)
    have dp: "deref_phys ?v = p" by (rule deref_phys_virt [OF pw])
    have ex: "extent ?v (served_size l) = frame_space (block_frames p k)" unfolding sz by (rule block_extent [OF A(2) dp])
    have sub: "extent ?v (served_size l) \<subseteq> frame_space (avail s)" unfolding ex by (rule frame_space_mono [OF A(3)])
    have "unat KERNEL_VIRT_BASE + unat p < 2 ^ LENGTH(64)" using pw by (simp add: KERNEL_VIRT_BASE_def)
    then have kv: "KERNEL_VIRT_BASE \<le> ?v" by (simp add: word_le_nat_alt unat_add_exact)
    have pl: "placed ?v (served_size l)"
      using A(2) kv unfolding placed_def dp sz block_ok_def by (simp add: unat_gt_0)
    have "heap_rel h s1 (insert (?v, l) H) E L"
    proof (rule heap_add [OF rel' _ pl])
      show "servable l" using l k A(1) by (simp add: servable_def)
      show "extent ?v (served_size l) \<inter> frame_space (avail s1 \<union> E) = {}"
        unfolding ex by (rule frame_space_disjoint) (use A(3,4) D(2) in blast)
      show "object_bytes x \<inter> extent ?v (served_size l) = {}" if "x \<in> heap_objects H L" for x
        by (rule objects_off_avail(1) [OF rel sub that])
    qed
    moreover have "(?v, l) \<notin> H" by (rule not_used [OF objects_off_avail(2) [OF rel sub] l(1)])
    moreover have "heap_alloc l h s = Some (?v, h, s1)" using l(2) k al Some pw by (simp add: heap_alloc_def phys_to_virt_ok)
    ultimately show ?thesis using mem placed_nonzero [OF pl] by (auto simp: served_def)
  qed
qed

lemma heap_alloc_ok:
  fixes s :: "'a buddy_scheme"
  assumes "heap_rel h s H E L" and "layout_ok l"
  shows "\<exists>ptr h' s'. heap_alloc l h s = Some (ptr, h', s') \<and> served l h s H E ptr h' s'"
proof (cases "size_to_slab (layout_size l)")
  case None
  then show ?thesis using large_alloc_ok [OF assms] by blast
next
  case (Some i)
  have i: "i < 10" using size_to_slab_Some [OF Some] by simp
  have "servable l" "served_size l = SLAB_SIZES ! i" using assms(2) Some by (simp_all add: servable_def served_size_def)
  then obtain ptr c s' where "slab_alloc (h ! i) s = Some (ptr, c, s')" "served l h s H E ptr (h[i := c]) s'"
    using slab_alloc_ok [OF assms(1) i] by blast
  then show ?thesis using Some by (auto simp: heap_alloc_def)
qed

lemma used_bytes_other:
  assumes rel: "heap_rel h s H E L" and H: "(v, l) \<in> H"
  shows "(used_bytes (H - {(v, l)}) \<union> frame_space E) \<inter> extent v (served_size l) = {}"
proof -
  have "extent w (served_size k) \<inter> extent v (served_size l) = {}" if "(w, k) \<in> H - {(v, l)}" for w k
    using disjoint_family_onD [OF heap_relD(8) [OF rel], of "Used w k" "Used v l"] H that by auto
  moreover have "frame_space E \<inter> extent v (served_size l) = {}"
    using heap_relD(10) [OF rel, of "Used v l"] H by (auto simp: frame_space_def)
  ultimately show ?thesis unfolding used_bytes_def by blast
qed

lemma heap_dealloc_ok:
  fixes s :: "'a buddy_scheme"
  assumes rel: "heap_rel h s H E L" and H: "(v, l) \<in> H"
  shows "\<exists>h' s' L'. heap_dealloc v l h s = Some (h', s') \<and> heap_rel h' s' (H - {(v, l)}) E L' \<and>
    same_on (used_bytes (H - {(v, l)}) \<union> frame_space E) (ram s) (ram s')"
proof (cases "size_to_slab (layout_size l)")
  case (Some i)
  have i: "i < 10" using size_to_slab_Some [OF Some] by simp
  have l: "served_size l = SLAB_SIZES ! i" using Some by (simp add: served_size_def)
  note P = heap_push [OF rel i H l]
  have "used_bytes (H - {(v, l)}) \<union> frame_space E \<subseteq> - extent v (served_size l)" using used_bytes_other [OF rel H] by blast
  then show ?thesis using P(1) same_on_simps(3) [OF P(2)] Some by (auto simp: heap_dealloc_def slab_free_def)
next
  case None
  note D = heap_relD [OF rel]
  have l: "layout_ok l" "the (large_order (layout_size l)) < MAX_ORDER" using D(11) [OF H] None by (auto simp: servable_def)
  obtain k where k: "large_order (layout_size l) = Some k" using large_order_ok [OF layout_size_bound [OF l(1)]] .
  have sz: "served_size l = 4096 * 2 ^ k" using None k by (simp add: served_size_def)
  have us: "Used v l \<in> heap_objects H L" using H by simp
  let ?a = "deref_phys v"
  have pl: "placed v (4096 * 2 ^ k)" using D(9) [OF us] sz by simp
  have bl: "block_ok ?a k" using pl by (auto simp: placed_def block_ok_def)
  have ex: "extent v (served_size l) = frame_space (block_frames ?a k)" unfolding sz by (rule block_extent [OF bl refl])
  have bf: "block_frames ?a k \<inter> (avail s \<union> E) = {}"
    by (rule disjoint_frames) (use D(10) [OF us] ex in simp)
  obtain s' where F: "buddy_free ?a k s = Some s'" "buddy_inv s'" "avail s' = block_frames ?a k \<union> avail s"
    "mem_eq_off (avail s') (ram s) (ram s')"
    using buddy_free_inv [OF D(1) _ bl] l(2) k bf by (metis Int_Un_distrib Un_empty option.sel)
  have kv: "virt_to_phys v = Some ?a" using pl by (simp add: placed_def virt_to_phys_def deref_phys_def checked_sub_def)
  have run: "heap_dealloc v l h s = Some (h, s')" using None k kv F(1) by (simp add: heap_dealloc_def)
  have sub: "heap_objects (H - {(v, l)}) L \<subseteq> heap_objects H L" by (auto simp: heap_objects_def)
  have rel0: "heap_rel h s (H - {(v, l)}) E L"
    using rel disjoint_family_on_mono [OF sub D(8)] sub unfolding heap_rel_def by blast
  have av: "frame_space (avail s') = extent v (served_size l) \<union> frame_space (avail s)" unfolding F(3) ex by (auto simp: frame_space_def)
  have ob: "object_bytes x \<inter> extent v (served_size l) = {}" if "x \<in> heap_objects (H - {(v, l)}) L" for x
  proof -
    have "x \<in> heap_objects H L" "x \<noteq> Used v l" using that sub by auto
    then show ?thesis using disjoint_family_onD [OF D(8) _ us, of x] by simp
  qed
  have off: "object_bytes x \<inter> frame_space (avail s') = {}" if "x \<in> heap_objects (H - {(v, l)}) L" for x
  proof -
    have "object_bytes x \<inter> frame_space (avail s) = {}" using heap_relD(10) [OF rel0 that] by (auto simp: frame_space_def)
    then show ?thesis using ob [OF that] unfolding av by blast
  qed
  have "heap_rel h s' (H - {(v, l)}) E L"
  proof (rule heap_rel_elsewhere [OF rel0 F(2)])
    show "E \<inter> avail s' = {}" using D(2) bf F(3) by blast
    show "object_bytes x \<inter> frame_space (avail s' \<union> E) = {}" if "x \<in> heap_objects (H - {(v, l)}) L" for x
      using off [OF that] heap_relD(10) [OF rel0 that] by (auto simp: frame_space_def)
    show "same_on (object_bytes x) (ram s) (ram s')" if "x \<in> free_objects L" for x
      using that by (intro same_on_frames [OF F(4)] off) (simp add: heap_objects_def)
  qed
  moreover have "same_on (used_bytes (H - {(v, l)}) \<union> frame_space E) (ram s) (ram s')"
  proof (rule same_on_frames [OF F(4)])
    have "(used_bytes (H - {(v, l)}) \<union> frame_space E) \<inter> frame_space (avail s) = {}"
      using heap_relD(10) [OF rel0, of "Used w k" for w k] D(2) by (force simp: used_bytes_def frame_space_def)
    then show "(used_bytes (H - {(v, l)}) \<union> frame_space E) \<inter> frame_space (avail s') = {}"
      using used_bytes_other [OF rel H] unfolding av by blast
  qed
  ultimately show ?thesis using run by blast
qed

section \<open>Runs\<close>

text \<open>
  The heap among its clients: requests and releases, writes to objects in use, and the rest of the kernel taking,
  returning and writing frames of its own.
\<close>

type_synonym 'a heap_run = "KernelHeap \<times> 'a buddy_scheme \<times> (u64 \<times> nat \<times> nat) set \<times> nat set"

inductive heap_step :: "'a heap_run \<Rightarrow> 'a heap_run \<Rightarrow> bool" where
  heap_take: "layout_ok l \<Longrightarrow> global_alloc l h s = Some (ptr, h', s') \<Longrightarrow>
     heap_step (h, s, H, E) (h', s', insert (ptr, l) H, E)"
| heap_give: "(ptr, l) \<in> H \<Longrightarrow> heap_dealloc ptr l h s = Some (h', s') \<Longrightarrow>
     heap_step (h, s, H, E) (h', s', H - {(ptr, l)}, E)"
| heap_use: "same_on (- used_bytes H) (ram s) m \<Longrightarrow> heap_step (h, s, H, E) (h, s\<lparr>ram := m\<rparr>, H, E)"
| other_take: "buddy_alloc k s = Some (Some a, s') \<Longrightarrow> heap_step (h, s, H, E) (h, s', H, E \<union> block_frames a k)"
| other_give: "k < MAX_ORDER \<Longrightarrow> block_ok a k \<Longrightarrow> block_frames a k \<subseteq> E \<Longrightarrow> buddy_free a k s = Some s' \<Longrightarrow>
     heap_step (h, s, H, E) (h, s', H, E - block_frames a k)"
| other_use: "mem_eq_off E (ram s) m \<Longrightarrow> heap_step (h, s, H, E) (h, s\<lparr>ram := m\<rparr>, H, E)"

definition heap_inv :: "'a heap_run \<Rightarrow> bool" where
  "heap_inv r = (case r of (h, s, H, E) \<Rightarrow> \<exists>L. heap_rel h s H E L)"

lemma heap_rel_new:
  assumes "buddy_inv s" and "E \<inter> avail s = {}"
  shows "heap_rel KernelHeap_new s {} E (\<lambda>_. [])"
proof -
  have "length SLAB_SIZES = 10" by (simp add: SLAB_SIZES_def)
  then show ?thesis
    using assms by (simp add: heap_rel_def KernelHeap_new_def SlabCache_new_def heap_objects_def free_objects_def disjoint_family_on_def)
qed

lemma heap_rel_write:
  fixes s :: "'a buddy_scheme"
  assumes rel: "heap_rel h s H E L" and out: "same_on (- (used_bytes H \<union> frame_space E)) (ram s) m"
  shows "heap_rel h (s\<lparr>ram := m\<rparr>) H E L"
proof -
  note D = heap_relD [OF rel]
  have us: "object_bytes (Used v l) \<inter> frame_space (avail s) = {}" if "(v, l) \<in> H" for v l
    using D(10) [of "Used v l"] that by (auto simp: frame_space_def)
  have wm: "mem_eq_off (- avail s) (ram s) m"
    unfolding mem_eq_off_def
  proof (intro allI impI)
    fix x :: u64 assume "frame x \<notin> - avail s"
    then have x: "unat x \<in> frame_space (avail s)" by (simp add: frame_space_def frame_def)
    then have "unat x \<notin> used_bytes H" using us by (force simp: used_bytes_def)
    moreover have "unat x \<notin> frame_space E" using x D(2) by (auto simp: frame_space_def)
    ultimately show "m x = ram s x" using out by (simp add: same_on_def)
  qed
  note W = buddy_write_ok [OF D(1) wm]
  show ?thesis
  proof (rule heap_rel_elsewhere [OF rel])
    show "buddy_inv (s\<lparr>ram := m\<rparr>)" "E \<inter> avail (s\<lparr>ram := m\<rparr>) = {}" using W D(2) by auto
    show "object_bytes x \<inter> frame_space (avail (s\<lparr>ram := m\<rparr>) \<union> E) = {}" if "x \<in> heap_objects H L" for x
      using D(10) [OF that] W(2) by simp
    show "same_on (object_bytes x) (ram s) (ram (s\<lparr>ram := m\<rparr>))" if x: "x \<in> free_objects L" for x
    proof -
      have xo: "x \<in> heap_objects H L" using x by (simp add: heap_objects_def)
      have "object_bytes x \<inter> used_bytes H = {}"
      proof -
        have "object_bytes x \<inter> extent v (served_size l) = {}" if "(v, l) \<in> H" for v l
          using disjoint_family_onD [OF D(8) xo, of "Used v l"] that x by (auto simp: free_objects_def)
        then show ?thesis unfolding used_bytes_def by blast
      qed
      moreover have "object_bytes x \<inter> frame_space E = {}" using D(10) [OF xo] by (auto simp: frame_space_def)
      ultimately show ?thesis using same_on_simps(3) [OF out, of "object_bytes x"] by auto
    qed
  qed
qed

lemma heap_step_inv: "heap_step r r' \<Longrightarrow> heap_inv r \<Longrightarrow> heap_inv r'"
proof (induction rule: heap_step.induct)
  case (heap_take l h s ptr h' s' H E)
  then obtain L where rel: "heap_rel h s H E L" by (auto simp: heap_inv_def)
  have "ptr \<noteq> 0" "heap_alloc l h s = Some (ptr, h', s')"
    using heap_take(2) by (auto simp: global_alloc_def bind_eq_Some_conv split: if_splits)
  then show ?case using heap_alloc_ok [OF rel heap_take(1)] by (auto simp: heap_inv_def served_def)
next
  case (heap_give ptr l H h s h' s' E)
  then obtain L where rel: "heap_rel h s H E L" by (auto simp: heap_inv_def)
  then show ?case using heap_dealloc_ok [OF rel heap_give(1)] heap_give(2) by (auto simp: heap_inv_def)
next
  case (heap_use H s m h E)
  then obtain L where rel: "heap_rel h s H E L" by (auto simp: heap_inv_def)
  have "same_on (- (used_bytes H \<union> frame_space E)) (ram s) m" by (rule same_on_simps(3) [OF heap_use(1)]) blast
  then show ?case using heap_rel_write [OF rel] by (auto simp: heap_inv_def)
next
  case (other_take k s a s' h H E)
  then obtain L where rel: "heap_rel h s H E L" by (auto simp: heap_inv_def)
  note D = heap_relD [OF rel]
  note A = buddy_alloc_inv [OF D(1) other_take(1)]
  have B: "block_frames a k \<subseteq> avail s" "avail s' = avail s - block_frames a k" "mem_eq_off (avail s') (ram s) (ram s')"
    using A(4) by auto
  have m: "mem_eq_off (avail s) (ram s) (ram s')" by (rule mem_eq_off_mono [OF B(3)]) (use B(2) in blast)
  have av: "avail s' \<union> (E \<union> block_frames a k) = avail s \<union> E" using B by blast
  have "heap_rel h s' H (E \<union> block_frames a k) L"
  proof (rule heap_rel_elsewhere [OF rel A(1)])
    show "(E \<union> block_frames a k) \<inter> avail s' = {}" using D(2) B by blast
    show "object_bytes x \<inter> frame_space (avail s' \<union> (E \<union> block_frames a k)) = {}" if "x \<in> heap_objects H L" for x
      unfolding av by (rule D(10) [OF that])
    show "same_on (object_bytes x) (ram s) (ram s')" if "x \<in> free_objects L" for x
      using that objects_off_avail(1) [OF rel order_refl] by (intro same_on_frames [OF m]) (simp add: heap_objects_def)
  qed
  then show ?case by (auto simp: heap_inv_def)
next
  case (other_give k a E s s' h H)
  then obtain L where rel: "heap_rel h s H E L" by (auto simp: heap_inv_def)
  note D = heap_relD [OF rel]
  have dj: "block_frames a k \<inter> avail s = {}" using D(2) other_give(3) by blast
  obtain s1 where F: "buddy_free a k s = Some s1" "buddy_inv s1" "avail s1 = block_frames a k \<union> avail s"
    "mem_eq_off (avail s1) (ram s) (ram s1)"
    using buddy_free_inv [OF D(1) other_give(1,2) dj] by metis
  have s1: "s1 = s'" using F(1) other_give(4) by simp
  have av: "avail s1 \<union> (E - block_frames a k) = avail s \<union> E" using F(3) other_give(3) by blast
  have off: "object_bytes x \<inter> frame_space (avail s1) = {}" if "x \<in> heap_objects H L" for x
    using D(10) [OF that] frame_space_mono [of "avail s1" "avail s \<union> E"] av by blast
  have "heap_rel h s1 H (E - block_frames a k) L"
  proof (rule heap_rel_elsewhere [OF rel F(2)])
    show "(E - block_frames a k) \<inter> avail s1 = {}" using D(2) F(3) by blast
    show "object_bytes x \<inter> frame_space (avail s1 \<union> (E - block_frames a k)) = {}" if "x \<in> heap_objects H L" for x
      unfolding av by (rule D(10) [OF that])
    show "same_on (object_bytes x) (ram s) (ram s1)" if "x \<in> free_objects L" for x
      using that by (intro same_on_frames [OF F(4)] off) (simp add: heap_objects_def)
  qed
  then show ?case using s1 by (auto simp: heap_inv_def)
next
  case (other_use E s m h H)
  then obtain L where rel: "heap_rel h s H E L" by (auto simp: heap_inv_def)
  have "same_on (- (used_bytes H \<union> frame_space E)) (ram s) m" by (rule same_on_frames [OF other_use(1)]) blast
  then show ?case using heap_rel_write [OF rel] by (auto simp: heap_inv_def)
qed

lemma heap_run_inv: "heap_step\<^sup>*\<^sup>* r r' \<Longrightarrow> heap_inv r \<Longrightarrow> heap_inv r'"
  by (induction rule: rtranclp_induct) (auto intro: heap_step_inv)

lemma placed_aligned:
  assumes "placed v n" and "a dvd n" and "a = 2 ^ j"
  shows "a dvd unat v"
proof -
  have n: "n + unat (deref_phys v) \<le> 2 ^ 47" "n dvd unat (deref_phys v)" "0 < unat (deref_phys v)" "KERNEL_VIRT_BASE \<le> v"
    using assms(1) by (auto simp: placed_def)
  have "0 < n" using n(2,3) by (cases n) auto
  then have "a \<le> 2 ^ 47" using assms(2) n(1) by (auto dest: dvd_imp_le)
  then have "j \<le> 47" unfolding assms(3) by (simp only: power_increasing_iff)
  then have "a dvd 2 ^ 47" unfolding assms(3) by (rule le_imp_power_dvd)
  moreover have "unat KERNEL_VIRT_BASE = 2 ^ 47 * (2 ^ 17 - 1)" by (simp add: KERNEL_VIRT_BASE_def)
  ultimately have "a dvd unat KERNEL_VIRT_BASE" by (simp only: dvd_mult2)
  moreover have "a dvd unat (deref_phys v)" using assms(2) n(2) by (rule dvd_trans)
  moreover have "unat v = unat KERNEL_VIRT_BASE + unat (deref_phys v)"
    using n(4) unat_sub_exact [OF n(4)] by (simp add: deref_phys_def word_le_nat_alt)
  ultimately show ?thesis by simp
qed

text \<open>
  C7. Whatever requests, releases and writes the clients of the kernel's heap make, and whatever frames the rest of
  the kernel takes, returns and writes meanwhile: every object in use is aligned as requested and at least as big
  as requested, lies in the direct map, and meets neither another object in use nor a free frame nor a frame of
  anybody else. A further request always returns, with null or with an object that was not in use, and changes no
  byte of an object in use or of a frame of the others; and every release returns and changes no byte of the
  objects that stay in use.
\<close>

theorem heap_clients_safe:
  fixes s0 s :: "'a buddy_scheme"
  assumes "buddy_inv s0" and "E0 \<inter> avail s0 = {}" and run: "heap_step\<^sup>*\<^sup>* (KernelHeap_new, s0, {}, E0) (h, s, H, E)"
  shows "disjoint_family_on (\<lambda>(v, l). extent v (served_size l)) H \<and>
    (\<forall>(v, l)\<in>H. KERNEL_VIRT_BASE \<le> v \<and> snd l dvd unat v \<and> fst l \<le> served_size l \<and>
       unat (deref_phys v) + served_size l \<le> 2 ^ 47 \<and> extent v (served_size l) \<inter> frame_space (avail s \<union> E) = {}) \<and>
    (\<forall>l. layout_ok l \<longrightarrow> (\<exists>v h' s'. heap_alloc l h s = Some (v, h', s') \<and> (v = 0 \<or> (v, l) \<notin> H) \<and>
       same_on (used_bytes H \<union> frame_space E) (ram s) (ram s'))) \<and>
    (\<forall>(v, l)\<in>H. \<exists>h' s'. heap_dealloc v l h s = Some (h', s') \<and>
       same_on (used_bytes (H - {(v, l)}) \<union> frame_space E) (ram s) (ram s'))"
proof -
  have "heap_inv (KernelHeap_new, s0, {}, E0)" using heap_rel_new [OF assms(1,2)] by (auto simp: heap_inv_def)
  from heap_run_inv [OF run this] obtain L where rel: "heap_rel h s H E L" by (auto simp: heap_inv_def)
  note D = heap_relD [OF rel]
  have "disjoint_family_on (\<lambda>(v, l). extent v (served_size l)) H"
    unfolding disjoint_family_on_def
  proof (intro ballI impI)
    fix x y assume "x \<in> H" "y \<in> H" "x \<noteq> y"
    then show "(case x of (v, l) \<Rightarrow> extent v (served_size l)) \<inter> (case y of (v, l) \<Rightarrow> extent v (served_size l)) = {}"
      using disjoint_family_onD [OF D(8), of "Used (fst x) (snd x)" "Used (fst y) (snd y)"] by (cases x; cases y) auto
  qed
  moreover have "KERNEL_VIRT_BASE \<le> v \<and> snd l dvd unat v \<and> fst l \<le> served_size l \<and>
       unat (deref_phys v) + served_size l \<le> 2 ^ 47 \<and> extent v (served_size l) \<inter> frame_space (avail s \<union> E) = {}"
    if x: "(v, l) \<in> H" for v l
  proof -
    have p: "placed v (served_size l)" and f: "extent v (served_size l) \<inter> frame_space (avail s \<union> E) = {}"
      using D(9,10) [of "Used v l"] x by auto
    have l: "layout_ok l" by (rule D(7) [OF x])
    obtain j where "snd l = 2 ^ j" using l by (auto simp: layout_ok_def)
    then have "snd l dvd unat v" using placed_aligned [OF p served_size_ok(2) [OF l]] by blast
    then show ?thesis using p f served_size_ok(1) [OF l] by (auto simp: placed_def)
  qed
  moreover have "\<exists>v h' s'. heap_alloc l h s = Some (v, h', s') \<and> (v = 0 \<or> (v, l) \<notin> H) \<and>
       same_on (used_bytes H \<union> frame_space E) (ram s) (ram s')" if "layout_ok l" for l
    using heap_alloc_ok [OF rel that] by (auto simp: served_def)
  moreover have "\<exists>h' s'. heap_dealloc v l h s = Some (h', s') \<and>
       same_on (used_bytes (H - {(v, l)}) \<union> frame_space E) (ram s) (ram s')" if "(v, l) \<in> H" for v l
    using heap_dealloc_ok [OF rel that] by blast
  ultimately show ?thesis by blast
qed

section \<open>Witness\<close>

lemma demo_heap: "map_option fst (global_alloc (2000, 8) KernelHeap_new demo) = Some 0xFFFF800000004000"
  by code_simp

theorem heap_clients_safe_witness:
  "\<exists>h s. heap_step\<^sup>*\<^sup>* (KernelHeap_new, demo, {}, {}) (h, s, {(0xFFFF800000004000, (2000, 8))}, {}) \<and>
     extent 0xFFFF800000004000 (served_size (2000, 8)) \<inter> frame_space (avail s) = {} \<and>
     heap_dealloc 0xFFFF800000004000 (2000, 8) h s \<noteq> None"
proof -
  obtain h s where g: "global_alloc (2000, 8) KernelHeap_new demo = Some (0xFFFF800000004000, h, s)" using demo_heap by auto
  have "layout_ok (2000, 8)" unfolding layout_ok_def by (auto intro!: exI [of _ 3])
  then have run: "heap_step\<^sup>*\<^sup>* (KernelHeap_new, demo, {}, {}) (h, s, {(0xFFFF800000004000, (2000, 8))}, {})"
    using g by (intro r_into_rtranclp heap_take)
  show ?thesis using heap_clients_safe [OF demo_ok(1) _ run] run by auto
qed

end
