(* ===== verification/Teardown_Spec.thy ===== *)
theory Teardown_Spec
  imports Address_Space_Spec
begin

text \<open>
  Tearing down an address space (\<^verbatim>\<open>destroy\<close> of \<^verbatim>\<open>vma.rs\<close>, \<^verbatim>\<open>free_user_tables\<close> of \<^verbatim>\<open>paging.rs\<close>): the pages of all
  areas are released, then the tables of the lower half, then the top-level table. Unmapping keeps the shape of the
  tables (\<open>same_tables\<close>), so that the frames freed with them are the frames of the tables at the start.
\<close>

section \<open>The shape of the tables\<close>

text \<open>Two memories with the same tables: all entries but those of the last level agree.\<close>

primrec same_tables :: "nat \<Rightarrow> u64 \<Rightarrow> pmem \<Rightarrow> pmem \<Rightarrow> bool" where
  "same_tables 0 t m m' \<longleftrightarrow> True"
| "same_tables (Suc n) t m m' \<longleftrightarrow> (\<forall>i<512. pte m' t i = pte m t i \<and>
     (subtable (pte m t i) \<longrightarrow> same_tables n (pte_phys_addr (pte m t i)) m m'))"

lemma same_tables_refl [simp]: "same_tables n t m m"
  by (induction n arbitrary: t) auto

lemma same_tables_trans: "same_tables n t m m' \<Longrightarrow> same_tables n t m' m'' \<Longrightarrow> same_tables n t m m''"
  by (induction n arbitrary: t) auto

lemma same_tables_frames: "same_tables n t m m' \<Longrightarrow> pt_frames n m' t = pt_frames n m t"
proof (induction n arbitrary: t)
  case (Suc n)
  then have "pte m' t i = pte m t i" "subtable (pte m t i) \<Longrightarrow> pt_frames n m' (pte_phys_addr (pte m t i)) = pt_frames n m (pte_phys_addr (pte m t i))"
    if "i < 512" for i using that by auto
  then show ?case by auto
qed simp

lemma same_tables_elsewhere:
  "pt_ok n m t \<Longrightarrow> mem_eq_off F m m' \<Longrightarrow> pt_frames n m t \<inter> F = {} \<Longrightarrow> same_tables n t m m'"
proof (induction n arbitrary: t)
  case (Suc n)
  show ?case
    unfolding same_tables.simps
  proof (intro allI impI conjI)
    fix i :: u64 assume i: "i < 512"
    have "frame t \<notin> F" using Suc.prems(3) by auto
    then show "pte m' t i = pte m t i" by (rule pte_mem_eq [OF Suc.prems(2) pt_ok_window [OF Suc.prems(1)] _ i])
    assume sub: "subtable (pte m t i)"
    have "pt_frames n m (pte_phys_addr (pte m t i)) \<inter> F = {}" using pt_frames_child [OF i sub, of n] Suc.prems(3) by blast
    then show "same_tables n (pte_phys_addr (pte m t i)) m m'"
      by (rule Suc.IH [OF pt_ok_child(1) [OF Suc.prems(1) i sub] Suc.prems(2)])
  qed
qed simp

lemma unmap_level_tables:
  assumes "pt_ok n (ram s) t" and "small_path n (ram s) t v" and "unmap_level n t v s = Some (r, s')"
  shows "same_tables n t (ram s) (ram s')"
  using assms
proof (induction n arbitrary: t)
  case (Suc n)
  note P = window_ptr [OF pt_ok_window [OF Suc.prems(1)]]
  let ?m = "ram s" and ?i = "vidx (Suc n) v"
  let ?e = "pte ?m t ?i"
  let ?c = "pte_phys_addr ?e"
  show ?case
  proof (cases "is_present ?e")
    case False
    then have "s' = s" using Suc.prems(3) P by simp
    then show ?thesis by simp
  next
    case True
    then have sub: "subtable ?e" and sm: "small_path n ?m ?c v" using Suc.prems(2) by (auto simp: Let_def)
    note okc = pt_ok_child [OF Suc.prems(1) vidx_less sub]
    have un: "unmap_level n ?c v s = Some (r, s')" using Suc.prems(3) P True by simp
    obtain r' m' where U: "unmap_level n ?c v s = Some (r', s\<lparr>ram := m'\<rparr>)" "tree_step n ?c ?m {} m' {}"
      using unmap_level_spec [OF okc(1) sm] by metis
    have m': "ram s' = m'" using un U(1) by auto
    have mem: "mem_eq_off (pt_frames n ?m ?c) ?m (ram s')" unfolding m' using U(2) by (simp add: tree_step_def)
    show ?thesis
      unfolding same_tables.simps
    proof (intro allI impI conjI)
      fix i :: u64 assume i: "i < 512"
      show "pte (ram s') t i = pte ?m t i" by (rule pte_mem_eq [OF mem pt_ok_window [OF Suc.prems(1)] okc(2) i])
      assume si: "subtable (pte ?m t i)"
      show "same_tables n (pte_phys_addr (pte ?m t i)) ?m (ram s')"
      proof (cases "i = ?i")
        case True
        then show ?thesis using Suc.IH [OF okc(1) sm un] by simp
      next
        case False
        then have "pt_frames n ?m (pte_phys_addr (pte ?m t i)) \<inter> pt_frames n ?m ?c = {}"
          using Suc.prems(1) i si sub vidx_less [of "Suc n" v] by simp
        then show ?thesis by (rule same_tables_elsewhere [OF pt_ok_child(1) [OF Suc.prems(1) i si] mem])
      qed
    qed
  qed
qed simp

section \<open>Freeing a tree of tables\<close>

text \<open>
  What the three nested routines promise of a tree of level \<open>n\<close>: given away from the allocator, all of its frames
  become free, and nothing but free frames is written.
\<close>

definition tree_given :: "nat \<Rightarrow> 'a buddy_scheme \<Rightarrow> u64 \<Rightarrow> bool" where
  "tree_given n s t \<longleftrightarrow> pt_ok n (ram s) t \<and> pt_frames n (ram s) t \<inter> avail s = {} \<and> 0 \<notin> pt_frames n (ram s) t"

definition freed :: "nat set \<Rightarrow> nat set \<Rightarrow> 'a buddy_scheme \<Rightarrow> 'a buddy_scheme \<Rightarrow> bool" where
  "freed W F s s' \<longleftrightarrow> buddy_inv s' \<and> avail s' = avail s \<union> F \<and> mem_eq_off (avail s' \<union> W) (ram s) (ram s') \<and>
     buddy.more s' = buddy.more s"

definition frees :: "nat \<Rightarrow> (u64 \<Rightarrow> 'a buddy_scheme \<Rightarrow> 'a buddy_scheme option) \<Rightarrow> bool" where
  "frees n f \<longleftrightarrow> (\<forall>t s. buddy_inv s \<and> tree_given n s t \<longrightarrow> (\<exists>s'. f t s = Some s' \<and> freed {} (pt_frames n (ram s) t) s s'))"

lemma freed_trans: "freed W F s s' \<Longrightarrow> freed W G s' s'' \<Longrightarrow> freed W (F \<union> G) s s''"
  unfolding freed_def by (auto intro: mem_eq_off_trans)

lemma freed_mono: "freed W F s s' \<Longrightarrow> W \<subseteq> W' \<Longrightarrow> freed W' F s s'"
  unfolding freed_def by (blast intro: mem_eq_off_mono)

lemma free_table_frame:
  assumes "buddy_inv s" and "in_window t" and "frame t \<noteq> 0" and "frame t \<notin> avail s"
  shows "\<exists>s'. buddy_free t 0 s = Some s' \<and> freed {} {frame t} s s'"
proof -
  have "t \<noteq> 0" using assms(3) by (auto simp: frame_def)
  then have b: "block_ok t 0" by (rule window_block [OF assms(2)])
  have dj: "block_frames t 0 \<inter> avail s = {}" using assms(4) by simp
  show ?thesis
    by (rule buddy_free_inv [OF assms(1) _ b dj]) (auto simp: freed_def MAX_ORDER_def)
qed

lemma clear_fold_mem:
  assumes "in_window t" and "deref_phys q = t" and "\<forall>i\<in>set is. i < 512"
  shows "mem_eq_off {frame t} m (fold (\<lambda>i m. if is_present (table_get m q i) then table_set m q i 0 else m) is m)"
  using assms(3)
proof (induction "is" arbitrary: m)
  case (Cons i js)
  let ?m = "if is_present (table_get m q i) then table_set m q i 0 else m"
  have "mem_eq_off {frame t} m ?m" using table_set_spec(1) [OF assms(1,2), of i] Cons.prems by simp
  moreover have "mem_eq_off {frame t} ?m (fold (\<lambda>i m. if is_present (table_get m q i) then table_set m q i 0 else m) js ?m)"
    using Cons by simp
  ultimately show ?case by (auto intro: mem_eq_off_trans)
qed simp

lemma index_list: "set (map of_nat [0..<512] :: u64 list) = {i. i < 512}" "distinct (map of_nat [0..<512] :: u64 list)"
  "set (map of_nat [0..<256] :: u64 list) = {i. i < 256}" "distinct (map of_nat [0..<256] :: u64 list)"
proof -
  have *: "set (map of_nat [0..<n] :: u64 list) = {i. i < of_nat n}" "distinct (map of_nat [0..<n] :: u64 list)" if "n < 1000" for n
  proof -
    have u: "unat (of_nat k :: u64) = k" if "k \<le> n" for k using that \<open>n < 1000\<close> by (simp add: unat_of_nat)
    show "set (map of_nat [0..<n] :: u64 list) = {i. i < of_nat n}"
    proof (intro equalityI subsetI)
      fix i :: u64 assume "i \<in> {i. i < of_nat n}"
      then have "unat i < n" using u [of n] by (simp add: word_less_nat_alt)
      then show "i \<in> set (map of_nat [0..<n])" by (auto intro: image_eqI [of _ _ "unat i"])
    qed (auto simp: word_less_nat_alt u)
    show "distinct (map of_nat [0..<n] :: u64 list)"
      unfolding distinct_map by (auto intro!: inj_onI) (metis less_imp_le u)
  qed
  show "set (map of_nat [0..<512] :: u64 list) = {i. i < 512}" "distinct (map of_nat [0..<512] :: u64 list)"
    "set (map of_nat [0..<256] :: u64 list) = {i. i < 256}" "distinct (map of_nat [0..<256] :: u64 list)"
    using * [of 512] * [of 256] by simp_all
qed

lemma free_pt_frees: "frees 0 free_pt"
  unfolding frees_def
proof (intro allI impI, elim conjE)
  fix t and s :: "'a buddy_scheme"
  assume inv: "buddy_inv s" and "tree_given 0 s t"
  then have t: "in_window t" "frame t \<notin> avail s" "frame t \<noteq> 0" by (auto simp: tree_given_def)
  obtain q where q: "phys_to_virt t = Some q" "deref_phys q = t" using window_ptr [OF t(1)] by blast
  let ?m = "fold (\<lambda>i m. if is_present (table_get m q i) then table_set m q i 0 else m) (map of_nat [0..<512]) (ram s)"
  have mem: "mem_eq_off {frame t} (ram s) ?m" by (rule clear_fold_mem [OF t(1) q(2)]) (unfold index_list, blast)
  have dj: "{frame t} \<inter> avail s = {}" using t(2) by simp
  note W = buddy_write_ok [OF inv mem dj]
  obtain s' where F: "buddy_free t 0 (s\<lparr>ram := ?m\<rparr>) = Some s'" "freed {} {frame t} (s\<lparr>ram := ?m\<rparr>) s'"
    using free_table_frame [OF W(1) t(1,3)] t(2) unfolding W(2) by blast
  have "mem_eq_off (avail s') (ram s) (ram s')"
    using F(2) mem by (auto simp: freed_def W(2) intro: mem_eq_off_trans)
  then show "\<exists>s'. free_pt t s = Some s' \<and> freed {} (pt_frames 0 (ram s) t) s s'"
    using F q(1) by (auto simp: free_pt_def freed_def W(2))
qed

text \<open>One entry of a table: its subtree, if it has one, is given away from the allocator and from the table.\<close>

abbreviation child :: "'a machine_scheme \<Rightarrow> u64 \<Rightarrow> u64 \<Rightarrow> u64" where
  "child s t i \<equiv> pte_phys_addr (pte (ram s) t i)"

definition entry_given :: "nat \<Rightarrow> 'a buddy_scheme \<Rightarrow> u64 \<Rightarrow> u64 \<Rightarrow> bool" where
  "entry_given n s t i \<longleftrightarrow> (is_present (pte (ram s) t i) \<longrightarrow>
     (if subtable (pte (ram s) t i) then tree_given n s (child s t i) \<and> frame t \<notin> pt_frames n (ram s) (child s t i)
      else n = 0))"

definition entry_frames :: "nat \<Rightarrow> 'a machine_scheme \<Rightarrow> u64 \<Rightarrow> u64 \<Rightarrow> nat set" where
  "entry_frames n s t i = (if subtable (pte (ram s) t i) then pt_frames n (ram s) (child s t i) else {})"

definition frees_entry :: "nat \<Rightarrow> u64 \<Rightarrow> (u64 \<Rightarrow> 'a buddy_scheme \<Rightarrow> 'a buddy_scheme option) \<Rightarrow> bool" where
  "frees_entry n t b \<longleftrightarrow> (\<forall>i s. i < 512 \<and> buddy_inv s \<and> frame t \<notin> avail s \<and> entry_given n s t i \<longrightarrow>
     (\<exists>s'. b i s = Some s' \<and> freed {frame t} (entry_frames n s t i) s s' \<and>
           (\<forall>j<512. j \<noteq> i \<longrightarrow> pte (ram s') t j = pte (ram s) t j)))"

lemma entry_kept:
  assumes "entry_given n s t j" and "pte (ram s') t j = pte (ram s) t j" and "freed {frame t} F s s'"
    and "entry_frames n s t j \<inter> F = {}"
  shows "entry_given n s' t j" and "entry_frames n s' t j = entry_frames n s t j"
proof -
  have "entry_given n s' t j \<and> entry_frames n s' t j = entry_frames n s t j"
  proof (cases "subtable (pte (ram s) t j)")
    case True
    then have p: "is_present (pte (ram s) t j)" by (simp add: subtable_def)
    note sub = True
    then have g: "pt_ok n (ram s) (child s t j)" "pt_frames n (ram s) (child s t j) \<inter> avail s = {}"
      "0 \<notin> pt_frames n (ram s) (child s t j)" "frame t \<notin> pt_frames n (ram s) (child s t j)"
      using assms(1) p by (auto simp: entry_given_def tree_given_def)
    have "pt_frames n (ram s) (child s t j) \<inter> (avail s' \<union> {frame t}) = {}"
      using g assms(3,4) sub by (auto simp: freed_def entry_frames_def)
    with pt_mem_eq [OF g(1), of "avail s' \<union> {frame t}" "ram s'"] assms(3)
    have "pt_ok n (ram s') (child s t j)" "pt_frames n (ram s') (child s t j) = pt_frames n (ram s) (child s t j)"
      "pt_frames n (ram s) (child s t j) \<inter> avail s' = {}"
      by (auto simp: freed_def)
    then show ?thesis using assms(2) sub p g by (simp add: entry_given_def entry_frames_def tree_given_def)
  next
    case False
    then show ?thesis using assms(1,2) by (simp add: entry_given_def entry_frames_def)
  qed
  then show "entry_given n s' t j" "entry_frames n s' t j = entry_frames n s t j" by auto
qed

lemma free_entries:
  fixes s :: "'a buddy_scheme"
  assumes "frees_entry n t b" and "\<forall>i\<in>set is. i < 512" and "distinct is" and "buddy_inv s" and "frame t \<notin> avail s"
    and "\<forall>i\<in>set is. entry_given n s t i"
    and "\<forall>i\<in>set is. \<forall>j\<in>set is. i \<noteq> j \<longrightarrow> entry_frames n s t i \<inter> entry_frames n s t j = {}"
  shows "\<exists>s'. for_each b is s = Some s' \<and> freed {frame t} (\<Union>i\<in>set is. entry_frames n s t i) s s'"
  using assms(2-)
proof (induction "is" arbitrary: s)
  case Nil
  then show ?case by (simp add: freed_def)
next
  case (Cons i js)
  have i: "i < 512" "entry_given n s t i" using Cons.prems by auto
  obtain s1 where S: "b i s = Some s1" "freed {frame t} (entry_frames n s t i) s s1"
    "\<forall>j<512. j \<noteq> i \<longrightarrow> pte (ram s1) t j = pte (ram s) t j"
    using assms(1) [unfolded frees_entry_def, rule_format, OF conjI, OF i(1) conjI, OF Cons.prems(3) conjI, OF Cons.prems(4) i(2)]
    by blast
  have keep: "entry_given n s1 t j \<and> entry_frames n s1 t j = entry_frames n s t j" if "j \<in> set js" for j
  proof -
    have ne: "j \<noteq> i" using that Cons.prems(2) by auto
    have p: "pte (ram s1) t j = pte (ram s) t j" using S(3) ne that Cons.prems(1) by auto
    have "entry_frames n s t j \<inter> entry_frames n s t i = {}" using Cons.prems(6) that ne by auto
    with entry_kept [OF _ p S(2)] Cons.prems(5) that show ?thesis by auto
  qed
  have inv: "buddy_inv s1" using S(2) by (simp add: freed_def)
  have ft: "frame t \<notin> avail s1"
    using Cons.prems(4) i S(2) by (auto simp: freed_def entry_frames_def entry_given_def subtable_def)
  have "\<exists>s'. for_each b js s1 = Some s' \<and> freed {frame t} (\<Union>i\<in>set js. entry_frames n s1 t i) s1 s'"
    by (rule Cons.IH) (use Cons.prems inv ft keep in auto)
  then obtain s' where L: "for_each b js s1 = Some s'" "freed {frame t} (\<Union>j\<in>set js. entry_frames n s1 t j) s1 s'"
    by blast
  have "(\<Union>j\<in>set js. entry_frames n s1 t j) = (\<Union>j\<in>set js. entry_frames n s t j)" using keep by auto
  then show ?case using freed_trans [OF S(2) L(2)] S(1) L(1) by simp
qed

lemma pt_frames_entries:
  "pt_frames (Suc n) (ram s) t = insert (frame t) (\<Union>i\<in>{i. i < 512}. entry_frames n s t i)"
  by (auto simp: entry_frames_def split: if_splits)

lemma tree_given_entries:
  assumes "tree_given (Suc n) s t"
  shows "i < 512 \<Longrightarrow> entry_given n s t i"
    and "i < 512 \<Longrightarrow> j < 512 \<Longrightarrow> i \<noteq> j \<Longrightarrow> entry_frames n s t i \<inter> entry_frames n s t j = {}"
proof -
  have ok: "pt_ok (Suc n) (ram s) t" and av: "pt_frames (Suc n) (ram s) t \<inter> avail s = {}"
    and z: "0 \<notin> pt_frames (Suc n) (ram s) t" using assms by (auto simp only: tree_given_def)
  show "entry_given n s t i" if i: "i < 512"
  proof (cases "subtable (pte (ram s) t i)")
    case True
    then show ?thesis
      using pt_ok_child [OF ok i True] pt_frames_child [OF i True, of n] av z unfolding entry_given_def tree_given_def by auto
  next
    case False
    then show ?thesis using pt_ok_huge [OF ok i] by (auto simp: entry_given_def)
  qed
  show "entry_frames n s t i \<inter> entry_frames n s t j = {}" if "i < 512" "j < 512" "i \<noteq> j"
    using ok that by (simp add: entry_frames_def)
qed

text \<open>The body shared by the two middle levels.\<close>

lemma frees_level:
  fixes f g :: "u64 \<Rightarrow> 'a buddy_scheme \<Rightarrow> 'a buddy_scheme option"
  assumes f: "frees n f"
    and g: "\<And>phys s. g phys s = do {
     t \<leftarrow> phys_to_virt phys;
     s \<leftarrow> for_each (\<lambda>i s. let e = table_get (ram s) t i in
            if is_present e \<and> \<not> flags_contain (pte_flags e) PF_HUGE then f (pte_phys_addr e) s else Some s)
          (map of_nat [0..<512]) s;
     buddy_free phys 0 s }"
  shows "frees (Suc n) g"
  unfolding frees_def
proof (intro allI impI, elim conjE)
  fix t and s :: "'a buddy_scheme"
  assume inv: "buddy_inv s" and given: "tree_given (Suc n) s t"
  then have t: "in_window t" "frame t \<notin> avail s" "frame t \<noteq> 0" by (auto simp: tree_given_def)
  obtain q where q: "phys_to_virt t = Some q" "deref_phys q = t" using window_ptr [OF t(1)] by blast
  define b where "b = (\<lambda>i (s :: 'a buddy_scheme). let e = table_get (ram s) q i in
            if is_present e \<and> \<not> flags_contain (pte_flags e) PF_HUGE then f (pte_phys_addr e) s else Some s)"
  have b_eq: "b i s = (if subtable (pte (ram s) t i) then f (child s t i) s else Some s)" for i s
    by (simp add: b_def Let_def subtable_def table_get_def q(2))
  have "frees_entry n t b"
    unfolding frees_entry_def
  proof (intro allI impI, elim conjE)
    fix i and s :: "'a buddy_scheme"
    assume i: "i < 512" and inv: "buddy_inv s" and ft: "frame t \<notin> avail s" and e: "entry_given n s t i"
    show "\<exists>s'. b i s = Some s' \<and> freed {frame t} (entry_frames n s t i) s s' \<and>
           (\<forall>j<512. j \<noteq> i \<longrightarrow> pte (ram s') t j = pte (ram s) t j)"
    proof (cases "subtable (pte (ram s) t i)")
      case True
      then have gv: "tree_given n s (child s t i)" "frame t \<notin> pt_frames n (ram s) (child s t i)"
        using e by (auto simp: entry_given_def subtable_def)
      then obtain s' where S: "f (child s t i) s = Some s'" "freed {} (pt_frames n (ram s) (child s t i)) s s'"
        using f inv unfolding frees_def by blast
      have nf: "frame t \<notin> avail s'" using S(2) gv(2) ft by (simp add: freed_def)
      have "freed {frame t} (entry_frames n s t i) s s'"
        using freed_mono [OF S(2)] True by (simp add: entry_frames_def)
      moreover have "pte (ram s') t j = pte (ram s) t j" if "j < 512" for j
        using pte_mem_eq [of "avail s'", OF _ t(1) nf that] S(2) unfolding freed_def Un_empty_right by blast
      ultimately show ?thesis using S(1) True by (simp add: b_eq)
    next
      case False
      then show ?thesis using inv by (simp add: b_eq freed_def entry_frames_def)
    qed
  qed
  from free_entries [OF this, of "map of_nat [0..<512]" s, unfolded index_list(1), OF _ index_list(2) inv t(2)]
  obtain s1 where L: "for_each b (map of_nat [0..<512]) s = Some s1"
    "freed {frame t} (\<Union>i\<in>{i. i < 512}. entry_frames n s t i) s s1"
    using tree_given_entries [OF given] by blast
  have nf: "frame t \<notin> avail s1" using L(2) t(2) tree_given_entries(1) [OF given]
    by (auto simp: freed_def entry_frames_def entry_given_def subtable_def split: if_splits)
  obtain s' where F: "buddy_free t 0 s1 = Some s'" "freed {} {frame t} s1 s'"
    using free_table_frame [OF _ t(1,3) nf] L(2) by (auto simp: freed_def)
  have "g t s = Some s'" using L(1) F(1) by (simp add: g q(1) b_def)
  moreover have "freed {} (pt_frames (Suc n) (ram s) t) s s'"
    using L(2) F(2) unfolding pt_frames_entries freed_def by (auto intro: mem_eq_off_trans)
  ultimately show "\<exists>s'. g t s = Some s' \<and> freed {} (pt_frames (Suc n) (ram s) t) s s'" by blast
qed

lemma free_pd_frees: "frees 1 free_pd"
  using frees_level [OF free_pt_frees free_pd_def] by simp

abbreviation PDPT_LEVEL :: nat where
  "PDPT_LEVEL \<equiv> Suc (Suc 0)"

lemma free_pdpt_frees: "frees PDPT_LEVEL free_pdpt"
  using frees_level [OF free_pd_frees free_pdpt_def] by simp

text \<open>The frames of the tables below the first half of the top-level table.\<close>

definition low_frames :: "u64 \<Rightarrow> 'a machine_scheme \<Rightarrow> nat set" where
  "low_frames root s = (\<Union>i\<in>{i. i < 256}. entry_frames PDPT_LEVEL s root i)"

lemma less_256: "i < 256 \<Longrightarrow> i < (512 :: u64)"
  by (erule order.strict_trans) simp

lemma low_frames_table: "low_frames root s \<subseteq> table_frames root s"
  unfolding low_frames_def table_frames_def pt_frames_entries using less_256 by fast

lemma free_user_tables_ok:
  fixes s :: "'a buddy_scheme"
  assumes inv: "buddy_inv s" and given: "tree_given PML4_LEVEL s root"
  shows "\<exists>s'. free_user_tables root s = Some s' \<and> freed {frame root} (low_frames root s) s s'"
proof -
  have t: "in_window root" "frame root \<notin> avail s"
    using given pt_ok_window pt_frames_root unfolding tree_given_def by blast+
  obtain q where q: "phys_to_virt root = Some q" "deref_phys q = root" using window_ptr [OF t(1)] by blast
  define b where "b = (\<lambda>i (s :: 'a buddy_scheme). let e = table_get (ram s) q i in
         if is_present e then do {
           s \<leftarrow> free_pdpt (pte_phys_addr e) s;
           Some (s\<lparr>ram := table_set (ram s) q i 0\<rparr>)
         } else Some s)"
  have "frees_entry PDPT_LEVEL root b"
    unfolding frees_entry_def
  proof (intro allI impI, elim conjE)
    fix i and s :: "'a buddy_scheme"
    assume i: "i < 512" and inv: "buddy_inv s" and ft: "frame root \<notin> avail s" and e: "entry_given PDPT_LEVEL s root i"
    show "\<exists>s'. b i s = Some s' \<and> freed {frame root} (entry_frames PDPT_LEVEL s root i) s s' \<and>
           (\<forall>j<512. j \<noteq> i \<longrightarrow> pte (ram s') root j = pte (ram s) root j)"
    proof (cases "is_present (pte (ram s) root i)")
      case True
      then have sub: "subtable (pte (ram s) root i)" using e by (auto simp: entry_given_def split: if_splits)
      have gv: "tree_given PDPT_LEVEL s (child s root i)" "frame root \<notin> pt_frames PDPT_LEVEL (ram s) (child s root i)"
        using e True sub unfolding entry_given_def by auto
      then obtain s1 where S: "free_pdpt (child s root i) s = Some s1"
        "freed {} (pt_frames PDPT_LEVEL (ram s) (child s root i)) s s1"
        using free_pdpt_frees inv unfolding frees_def by blast
      have nf: "frame root \<notin> avail s1" using S(2) gv(2) ft unfolding freed_def by blast
      have inv1: "buddy_inv s1" and mem1: "mem_eq_off (avail s1) (ram s) (ram s1)"
        using S(2) unfolding freed_def Un_empty_right by blast+
      let ?m = "table_set (ram s1) q i 0"
      note T = table_set_spec [OF t(1) q(2) i]
      have dj: "{frame root} \<inter> avail s1 = {}" using nf by simp
      note W = buddy_write_ok [OF inv1 T(1) dj, of 0]
      have "freed {frame root} (entry_frames PDPT_LEVEL s root i) s (s1\<lparr>ram := ?m\<rparr>)"
        using S(2) sub mem_eq_off_trans [OF mem1 T(1) [of _ 0] subset_refl] W
        unfolding freed_def entry_frames_def by (auto simp del: pt_frames.simps)
      moreover have "pte ?m root j = pte (ram s) root j" if "j < 512" "j \<noteq> i" for j
        using T(2) [OF that(1)] that(2) pte_mem_eq [OF mem1 t(1) nf that(1)] by simp
      moreover have "b i s = Some (s1\<lparr>ram := ?m\<rparr>)"
        using S(1) True by (simp add: b_def Let_def table_get_def q(2))
      ultimately show ?thesis by auto
    next
      case False
      then have "\<not> subtable (pte (ram s) root i)" by (simp add: subtable_def)
      then show ?thesis using inv False by (simp add: b_def Let_def table_get_def q(2) freed_def entry_frames_def)
    qed
  qed
  from free_entries [OF this, of "map of_nat [0..<256]" s, unfolded index_list(3), OF _ index_list(4) inv t(2)]
  obtain s1 where L: "for_each b (map of_nat [0..<256]) s = Some s1" "freed {frame root} (low_frames root s) s s1"
    using tree_given_entries [OF given] less_256 unfolding low_frames_def by blast
  then show ?thesis by (simp add: free_user_tables_def q(1) b_def)
qed

section \<open>Unmapping all areas\<close>

lemma vidx_low: "user_page v \<Longrightarrow> vidx PML4_LEVEL v < 256"
proof -
  assume v: "user_page v"
  have "unat (drop_bit 39 v) = unat v div 2 ^ 39" by (simp add: unat_drop_bit_eq) (simp add: drop_bit_eq_div)
  also have "\<dots> < 256" using v by (simp add: user_page_def less_mult_imp_div_less)
  finally have d: "drop_bit 39 v < 256" by (simp add: word_less_nat_alt)
  have "vidx PML4_LEVEL v \<le> drop_bit 39 v" by (simp add: vidx_def word_and_le2)
  with d show ?thesis by (rule order.strict_trans1 [rotated])
qed

lemma same_tables_low: "same_tables PML4_LEVEL root (ram s) (ram s') \<Longrightarrow> low_frames root s' = low_frames root s"
proof -
  assume st: "same_tables PML4_LEVEL root (ram s) (ram s')"
  have "entry_frames PDPT_LEVEL s' root i = entry_frames PDPT_LEVEL s root i" if "i < 256" for i
    using st less_256 [OF that] same_tables_frames [of PDPT_LEVEL "child s root i" "ram s" "ram s'"]
    unfolding entry_frames_def same_tables.simps(2) [of PDPT_LEVEL] by auto
  then show ?thesis by (auto simp: low_frames_def)
qed

lemma unmap_mem:
  assumes ok: "aspace_ok root s" and v: "user_page v" and run: "unmap root v s = Some (r, s')"
  shows "same_tables PML4_LEVEL root (ram s) (ram s') \<and> mem_eq_off (low_frames root s) (ram s) (ram s')"
proof -
  have pt: "pt_ok PML4_LEVEL (ram s) root" using aspace_okD(2) [OF ok] by (simp only: tree_ok_def)
  have sm: "small_path PML4_LEVEL (ram s) root v"
    using aspace_okD(3) [OF ok v] unfolding no_huge_def page_leaf_def small_path_leaf .
  have un: "unmap_level PML4_LEVEL root v s = Some (r, s')" using run by (simp only: unmap_level_eq)
  let ?e = "pte (ram s) root (vidx PML4_LEVEL v)"
  note P = window_ptr [OF pt_ok_window [OF pt]]
  have "mem_eq_off (low_frames root s) (ram s) (ram s')"
  proof (cases "is_present ?e")
    case False
    then have "s' = s" using un P by simp
    then show ?thesis by simp
  next
    case True
    then have sub: "subtable ?e" and sm': "small_path PDPT_LEVEL (ram s) (pte_phys_addr ?e) v"
      using sm unfolding small_path.simps(2) [of PDPT_LEVEL] Let_def by auto
    have "unmap_level PDPT_LEVEL (pte_phys_addr ?e) v s = Some (r, s')"
      using un P True unfolding unmap_level.simps(2) [of PDPT_LEVEL] by simp
    then have "mem_eq_off (pt_frames PDPT_LEVEL (ram s) (pte_phys_addr ?e)) (ram s) (ram s')"
      using unmap_level_spec [OF pt_ok_child(1) [OF pt vidx_less sub] sm']
      by (force simp: tree_step_def simp del: pt_frames.simps unmap_level.simps pt_ok.simps)
    moreover have "pt_frames PDPT_LEVEL (ram s) (pte_phys_addr ?e) \<subseteq> low_frames root s"
      using vidx_low [OF v] sub unfolding low_frames_def entry_frames_def by auto
    ultimately show ?thesis by (rule mem_eq_off_mono)
  qed
  with unmap_level_tables [OF pt sm un] show ?thesis by blast
qed

text \<open>
  Releasing user pages changes only last-level entries: the tables stay, and all writes go to the tables of the
  lower half and to frames that are free afterwards.
\<close>

definition released :: "u64 \<Rightarrow> 'a kmem_scheme \<Rightarrow> 'a kmem_scheme \<Rightarrow> bool" where
  "released root s s' \<longleftrightarrow> same_tables PML4_LEVEL root (ram s) (ram s') \<and>
     mem_eq_off (low_frames root s \<union> avail s') (ram s) (ram s') \<and> kmem.more s' = kmem.more s"

lemma released_refl: "released root s s"
  by (simp add: released_def del: same_tables.simps)

lemma released_trans:
  assumes "released root s s1" and "released root s1 s2" and "avail s1 \<subseteq> avail s2"
  shows "released root s s2"
proof -
  have "low_frames root s1 = low_frames root s" using assms(1) same_tables_low unfolding released_def by blast
  then show ?thesis
    using assms same_tables_trans [of PML4_LEVEL root "ram s" "ram s1" "ram s2"]
      mem_eq_off_trans [of "low_frames root s \<union> avail s1" "ram s" "ram s1" "low_frames root s \<union> avail s2" "ram s2"
        "low_frames root s \<union> avail s2"]
    unfolding released_def by auto
qed

lemma kmem_more_buddy: "buddy.more s' = buddy.more s \<Longrightarrow> kmem.more s' = kmem.more s"
  by (cases s; cases s') simp

lemma untrack_more: "kmem.more (snd (untrack p s)) = kmem.more s"
  by (simp add: untrack_def split: option.split)

lemma release_page_released:
  fixes s :: "'a kmem_scheme"
  assumes ok: "aspace_ok root s" and v: "user_page v" and rel: "release_page root v s = Some s'"
  shows "released root s s'"
proof -
  obtain s1 where U: "unmap root v s = Some (user_map root s v, s1)" "aspace_ok root s1" "avail s1 = avail s"
    "table_frames root s1 \<subseteq> table_frames root s" "kmem.more s1 = kmem.more s"
    by (rule unmap_user [OF ok v])
  have M: "same_tables PML4_LEVEL root (ram s) (ram s1)" "mem_eq_off (low_frames root s) (ram s) (ram s1)"
    using unmap_mem [OF ok v U(1)] by blast+
  show ?thesis
  proof (cases "user_map root s v")
    case None
    then show ?thesis using rel U(1,5) M mem_eq_off_mono by (auto simp: release_page_def released_def simp del: same_tables.simps)
  next
    case (Some p)
    note P = aspace_okD(4) [OF ok Some]
    have "block_frames p 0 \<inter> avail s1 = {}" using P U(3) by simp
    then obtain s2 where F: "buddy_free p 0 s1 = Some s2" "avail s2 = block_frames p 0 \<union> avail s1"
      "mem_eq_off (avail s2) (ram s1) (ram s2)" "buddy.more s2 = buddy.more s1"
      using buddy_free_inv [OF aspace_okD(1) [OF U(2)], of 0 p] P window_block by (force simp: MAX_ORDER_def)
    have s': "s' = snd (untrack p s2)" using rel U(1) Some F(1) by (simp add: release_page_def)
    have T: "pt_ok PML4_LEVEL (ram s1) root" "table_frames root s1 \<inter> avail s1 = {}"
      using aspace_okD(2) [OF U(2)] by (simp_all only: tree_ok_def)
    have "table_frames root s1 \<inter> avail s2 = {}"
      using P U(4) T(2) unfolding F(2) block_frames_0 by blast
    then have "pt_frames PML4_LEVEL (ram s1) root \<inter> avail s2 = {}" by (simp only: table_frames_def)
    from same_tables_trans [OF M(1) same_tables_elsewhere [OF T(1) F(3) this]]
    show ?thesis
      using mem_eq_off_trans [OF M(2) F(3), of "low_frames root s \<union> avail s2"] U(5) kmem_more_buddy [OF F(4)]
      unfolding released_def s' by (simp add: untrack_more untrack_eqs del: same_tables.simps)
  qed
qed

lemma unmap_loop_released:
  fixes s :: "'a kmem_scheme"
  assumes "aspace_ok root s" and "4096 dvd unat a" and "unat b \<le> 2 ^ 47" and "unmap_loop root a b s = Some s'"
  shows "released root s s'"
  using assms
proof (induction root a b s rule: unmap_loop.induct)
  case (1 root a b s)
  show ?case
  proof (cases "a < b")
    case False
    then show ?thesis using 1(5) by (simp add: unmap_loop.simps [of root a] released_refl)
  next
    case True
    then have "unat a < 2 ^ 47" using 1(4) unfolding word_less_nat_alt by linarith
    then have up: "user_page a" using 1(3) by (simp add: user_page_def)
    have lt: "unat a + unat PAGE_SIZE < 2 ^ LENGTH(64)" using up by (simp add: user_page_def PAGE_SIZE_def)
    note ca = checked_add_ok [OF lt]
    have "unat (a + PAGE_SIZE) = unat a + 4096" using unat_add_exact [OF lt] by (simp add: PAGE_SIZE_def)
    then have al: "4096 dvd unat (a + PAGE_SIZE)" using 1(3) by simp
    obtain s1 where R: "release_page root a s = Some s1" "aspace_ok root s1"
      by (rule release_page_ok [OF 1(2) up])
    have run: "unmap_loop root (a + PAGE_SIZE) b s1 = Some s'" using 1(5) True R(1) ca by (simp add: unmap_loop.simps [of root a])
    have "avail s1 \<subseteq> avail s'" using unmap_loop_ok [OF R(2) al 1(4)] run by (metis Un_upper1 option.inject)
    with released_trans [OF release_page_released [OF 1(2) up R(1)] 1(1) [OF True R(1) ca R(2) al 1(4) run]]
    show ?thesis .
  qed
qed

lemma unmap_areas_ok:
  fixes s :: "'a kmem_scheme"
  assumes "aspace_ok root s" and "\<forall>v\<in>set vs. 4096 dvd unat (vma_start v) \<and> unat (vma_end v) \<le> 2 ^ 47"
  shows "\<exists>s'. for_each (\<lambda>v s. unmap_loop root (vma_start v) (vma_end v) s) vs s = Some s' \<and> aspace_ok root s' \<and>
           user_map root s' = (\<lambda>w. if in_areas vs w then None else user_map root s w) \<and>
           avail s' = avail s \<union> {frame p | w p. in_areas vs w \<and> user_map root s w = Some p} \<and> released root s s'"
  using assms
proof (induction vs arbitrary: s)
  case Nil
  then show ?case by (simp add: released_refl)
next
  case (Cons v vs)
  let ?in = "\<lambda>w. vma_start v \<le> w \<and> w < vma_end v"
  have v: "4096 dvd unat (vma_start v)" "unat (vma_end v) \<le> 2 ^ 47" using Cons.prems by auto
  obtain s1 where S: "unmap_loop root (vma_start v) (vma_end v) s = Some s1" "aspace_ok root s1"
    "user_map root s1 = (\<lambda>w. if ?in w then None else user_map root s w)"
    "avail s1 = avail s \<union> mapped_frames root s (vma_start v) (vma_end v)"
    by (rule unmap_loop_ok [OF Cons.prems(1) v])
  obtain s' where L: "for_each (\<lambda>v s. unmap_loop root (vma_start v) (vma_end v) s) vs s1 = Some s'" "aspace_ok root s'"
    "user_map root s' = (\<lambda>w. if in_areas vs w then None else user_map root s1 w)"
    "avail s' = avail s1 \<union> {frame p | w p. in_areas vs w \<and> user_map root s1 w = Some p}" "released root s1 s'"
    using Cons.IH [OF S(2)] Cons.prems(2) by auto
  have "released root s s'"
    by (rule released_trans [OF unmap_loop_released [OF Cons.prems(1) v S(1)] L(5)]) (use L(4) in blast)
  moreover have "user_map root s' = (\<lambda>w. if in_areas (v # vs) w then None else user_map root s w)"
    unfolding L(3) S(3) in_areas_simps vma_contains_def by (intro ext) auto
  moreover have "avail s' = avail s \<union> {frame p | w p. in_areas (v # vs) w \<and> user_map root s w = Some p}"
    unfolding L(4) S(3,4) mapped_frames_def in_areas_simps vma_contains_def by (auto split: if_splits)
  ultimately show ?case using S(1) L(1,2) by auto
qed

lemma free_space_tables:
  fixes s :: "'a kmem_scheme"
  assumes ok: "aspace_ok root s" and z: "0 \<notin> table_frames root s"
  shows "\<exists>s' s''. free_user_tables root s = Some s' \<and> buddy_free root 0 s' = Some s'' \<and>
           freed {} (low_frames root s \<union> {frame root}) s s''"
proof -
  have T: "pt_ok PML4_LEVEL (ram s) root" "table_frames root s \<inter> avail s = {}"
    using aspace_okD(2) [OF ok] by (simp_all only: tree_ok_def)
  have given: "tree_given PML4_LEVEL s root" using T z unfolding tree_given_def table_frames_def by blast
  obtain s1 where F: "free_user_tables root s = Some s1" "freed {frame root} (low_frames root s) s s1"
    using free_user_tables_ok [OF aspace_okD(1) [OF ok] given] by blast
  have r: "frame root \<in> table_frames root s" unfolding table_frames_def by (rule pt_frames_root)
  have "frame root \<notin> entry_frames PDPT_LEVEL s root i" if "i < 256" for i
    using tree_given_entries(1) [OF given less_256 [OF that]]
    unfolding entry_given_def entry_frames_def subtable_def by (simp del: pt_frames.simps)
  then have "frame root \<notin> low_frames root s" unfolding low_frames_def by blast
  then have nr: "frame root \<notin> avail s1" using r T(2) F(2) unfolding freed_def by blast
  have nz: "frame root \<noteq> 0" using z r by metis
  have inv: "buddy_inv s1" using F(2) unfolding freed_def by blast
  obtain s2 where B: "buddy_free root 0 s1 = Some s2" "freed {} {frame root} s1 s2"
    using free_table_frame [OF inv pt_ok_window [OF T(1)] nz nr] by blast
  have M: "mem_eq_off (avail s1 \<union> {frame root}) (ram s) (ram s1)" "mem_eq_off (avail s2) (ram s1) (ram s2)"
    "avail s2 = avail s1 \<union> {frame root}"
    using F(2) B(2) unfolding freed_def Un_empty_right by blast+
  have "mem_eq_off (avail s2) (ram s) (ram s2)" by (rule mem_eq_off_trans [OF M(1,2)]) (simp add: M(3))
  then have "freed {} (low_frames root s \<union> {frame root}) s s2"
    using F(2) B(2) unfolding freed_def by auto
  with F(1) B(1) show ?thesis by blast
qed

lemma destroy_ok:
  fixes s :: "'a kmem_scheme"
  assumes ok: "space_ok a s" and top: "\<forall>v\<in>set (as_vmas a). unat (vma_end v) \<le> 2 ^ 47"
    and z: "0 \<notin> table_frames (as_page_table a) s"
  shows "\<exists>s'. destroy a s = Some (a\<lparr>as_vmas := []\<rparr>, s') \<and> buddy_inv s' \<and>
     avail s' = avail s \<union> {frame p | v p. user_map (as_page_table a) s v = Some p} \<union>
       low_frames (as_page_table a) s \<union> {frame (as_page_table a)} \<and>
     mem_eq_off (avail s') (ram s) (ram s') \<and> kmem.more s' = kmem.more s"
proof -
  let ?root = "as_page_table a"
  have O: "aspace_ok ?root s" "\<forall>v\<in>set (as_vmas a). 4096 dvd unat (vma_start v) \<and> unat (vma_end v) \<le> 2 ^ 47" "covered a s"
    using ok top by (auto simp: space_ok_def bounds_aligned_def)
  obtain s1 where S: "for_each (\<lambda>v s. unmap_loop ?root (vma_start v) (vma_end v) s) (as_vmas a) s = Some s1"
    "aspace_ok ?root s1" "avail s1 = avail s \<union> {frame p | w p. in_areas (as_vmas a) w \<and> user_map ?root s w = Some p}"
    "released ?root s s1"
    using unmap_areas_ok [OF O(1,2)] by blast
  have all: "in_areas (as_vmas a) w" if "user_map ?root s w = Some p" for w p
    using O(3) that area_at_in_areas unfolding covered_def by fastforce
  have st: "same_tables PML4_LEVEL ?root (ram s) (ram s1)"
    and mem: "mem_eq_off (low_frames ?root s \<union> avail s1) (ram s) (ram s1)" and more: "kmem.more s1 = kmem.more s"
    using S(4) unfolding released_def by blast+
  have low: "low_frames ?root s1 = low_frames ?root s" by (rule same_tables_low [OF st])
  have "table_frames ?root s1 = table_frames ?root s" unfolding table_frames_def by (rule same_tables_frames [OF st])
  then obtain s2 s3 where F: "free_user_tables ?root s1 = Some s2" "buddy_free ?root 0 s2 = Some s3"
    "freed {} (low_frames ?root s \<union> {frame ?root}) s1 s3"
    using free_space_tables [OF S(2)] z unfolding low by metis
  let ?s' = "snd (untrack ?root s3)"
  have G: "buddy_inv s3" "avail s3 = avail s1 \<union> (low_frames ?root s \<union> {frame ?root})"
    "mem_eq_off (avail s3) (ram s1) (ram s3)" "buddy.more s3 = buddy.more s1"
    using F(3) unfolding freed_def Un_empty_right by blast+
  have F': "buddy_inv ?s'" "avail ?s' = avail s1 \<union> (low_frames ?root s \<union> {frame ?root})"
    "mem_eq_off (avail ?s') (ram s1) (ram ?s')" "kmem.more ?s' = kmem.more s1"
    unfolding untrack_eqs untrack_more untrack_simps by (rule G kmem_more_buddy [OF G(4)])+
  have "destroy a s = Some (a\<lparr>as_vmas := []\<rparr>, ?s')" using S(1) F(1,2) by (simp add: destroy_def)
  moreover have "avail ?s' = avail s \<union> {frame p | v p. user_map ?root s v = Some p} \<union> low_frames ?root s \<union> {frame ?root}"
    using S(3) all unfolding F'(2) by blast
  moreover have "mem_eq_off (avail ?s') (ram s) (ram ?s')"
    by (rule mem_eq_off_trans [OF mem F'(3)]) (use F'(2) in blast)
  ultimately show ?thesis using F'(1,4) more by (intro exI [of _ ?s']) simp
qed


lemma demo_pte: "i < 512 \<Longrightarrow> \<not> is_present (pte (ram demo_kmem) 0x8000 i)"
proof -
  assume i: "i < 512"
  have w: "in_window 0x8000" by (simp add: in_window_def)
  have "pte (ram demo_kmem) 0x8000 i = pte (\<lambda>_. 0) 0x8000 i"
    by (rule pte_mem_eq [OF demo_kmem_run(3) w _ i]) (simp add: frame_def)
  moreover have "pte (\<lambda>_. 0) 0x8000 i = 0" by (simp add: read64_def load_bytes_def le_word_def numeral_eq_Suc)
  ultimately show ?thesis by (simp add: is_present_def)
qed


end
