(* ===== verification/User_Memory_Spec.thy ===== *)
theory User_Memory_Spec
  imports User_Memory Address_Space_Spec
begin

text \<open>
  User memory as a process sees it (\<open>user_byte\<close>): reading a buffer that can be accessed returns these bytes, and
  writing one changes exactly them. The system calls that move data rest on these two lemmas.
\<close>

section \<open>What a process sees\<close>

text \<open>The byte of an address space at a user address.\<close>

definition user_byte :: "u64 \<Rightarrow> 'a machine_scheme \<Rightarrow> u64 \<Rightarrow> u8 option" where
  "user_byte root s v = map_option (\<lambda>p. ram s (p + (v AND 0xFFF))) (user_map root s (v AND NOT 0xFFF))"

lemma leaf_same_path: "same_path n v w \<Longrightarrow> leaf n m t v = leaf n m t w"
proof (induction n arbitrary: t)
  case 0
  then show ?case by (simp add: same_path_def)
next
  case (Suc n)
  then have "same_path n v w" "vidx (Suc n) v = vidx (Suc n) w" by (auto simp: same_path_def)
  then show ?case using Suc.IH by (simp add: Let_def)
qed

lemma page_base:
  fixes v :: u64
  assumes "unat v < 2 ^ 47"
  shows "user_page (v AND NOT 0xFFF)" and "same_page v (v AND NOT 0xFFF)"
proof -
  have "(v AND NOT 0xFFF) = v AND NOT (PAGE_SIZE - 1)" by (simp add: PAGE_SIZE_def)
  then show "user_page (v AND NOT 0xFFF)" using page_of_user [OF assms] by simp
  show "same_page v (v AND NOT 0xFFF)"
    unfolding same_page_def take_drop_eq_iff
  proof (intro allI impI)
    fix i :: nat assume "i < 36"
    moreover have "\<not> bit (0xFFF :: u64) (12 + i)" unfolding mask_page(1) by (simp add: bit_mask_iff)
    ultimately show "bit v (12 + i) = bit (v AND NOT 0xFFF) (12 + i)" unfolding bit_and_iff bit_not_iff by simp
  qed
qed

lemma page_offset_less: "unat (v AND 0xFFF :: u64) < 4096"
proof -
  have "v AND 0xFFF \<le> 0xFFF" by (rule word_and_le1)
  then show ?thesis by (simp add: word_le_nat_alt)
qed

lemma page_split: "(v AND NOT 0xFFF) + (v AND 0xFFF) = (v :: u64)"
proof -
  have "(v AND NOT 0xFFF) + (v AND 0xFFF) = (v AND NOT 0xFFF) OR (v AND 0xFFF)"
    by (rule disjunctive_add) (auto simp: bit_simps)
  also have "\<dots> = v" by (rule bit_word_eqI) (auto simp: bit_simps)
  finally show ?thesis .
qed

lemma page_leaf_base: "unat v < 2 ^ 47 \<Longrightarrow> page_leaf root v s = page_leaf root (v AND NOT 0xFFF) s"
  using page_base(2) [of v] leaf_same_path same_path_page unfolding page_leaf_def by blast

lemma translate_byte:
  assumes ok: "aspace_ok root s" and v: "unat v < 2 ^ 47"
  shows "translate root v s = Some (map_option (\<lambda>p. p + (v AND 0xFFF)) (user_map root s (v AND NOT 0xFFF)))"
proof -
  note P = page_base [OF v]
  have nh: "no_huge root (v AND NOT 0xFFF) s" by (rule aspace_okD(3) [OF ok P(1)])
  have "leaf_addr v l = pte_phys_addr (snd l) + (v AND 0xFFF)" if "page_leaf root (v AND NOT 0xFFF) s = Some l" for l
    using nh that by (cases l) (auto simp: no_huge_def leaf_addr_def)
  then show ?thesis
    unfolding translate_page_leaf [OF aspace_okD(2) [OF ok]] page_leaf_base [OF v] user_map_def
    using P(1) by (cases "page_leaf root (v AND NOT 0xFFF) s") auto
qed

text \<open>A user buffer that can be read, or written, without a page fault.\<close>

definition accessible :: "bool \<Rightarrow> 'a kernel_scheme \<Rightarrow> u64 \<Rightarrow> nat \<Rightarrow> bool" where
  "accessible wr k v n \<longleftrightarrow> unat v + n \<le> 2 ^ 47 \<and> (\<forall>i<n. access_page wr (v + of_nat i) k \<noteq> None)"

lemma accessible_Suc:
  assumes "accessible wr k v (Suc n)"
  shows "unat v < 2 ^ 47" and "\<exists>phys. access_page wr v k = Some phys" and "accessible wr k (v + 1) n"
    and "unat (v + 1) = unat v + 1"
proof -
  have v: "unat v + Suc n \<le> 2 ^ 47" and acc: "\<forall>i<Suc n. access_page wr (v + of_nat i) k \<noteq> None"
    using assms by (auto simp: accessible_def)
  show "unat v < 2 ^ 47" using v by simp
  show "\<exists>phys. access_page wr v k = Some phys" using acc by (auto dest: spec [of _ 0])
  show u: "unat (v + 1) = unat v + 1" using v by (simp add: unat_add_exact)
  have "access_page wr (v + 1 + of_nat i) k \<noteq> None" if "i < n" for i
    using acc that by (auto simp: add.assoc dest: spec [of _ "Suc i"])
  then show "accessible wr k (v + 1) n" using v u by (simp add: accessible_def)
qed

lemma touch_accessible:
  assumes "unat v < 2 ^ 47" and "access_page wr v k = Some phys"
  shows "touch wr v k = Some (phys, k)"
proof -
  have c: "\<not> (0x0000800000000000 \<le> v \<and> v < 0xffff800000000000)" using assms(1) by (simp add: word_le_nat_alt)
  obtain t where "translate (k_cr3 k) v k = Some (Some t)" using assms(2)
    by (auto simp: access_page_def bind_eq_Some_conv)
  then show ?thesis using assms(2) c by (simp add: touch_def)
qed

lemma access_user:
  assumes ok: "aspace_ok (k_cr3 k) k" and v: "unat v < 2 ^ 47" and acc: "access_page wr v k = Some phys"
  obtains p where "user_map (k_cr3 k) k (v AND NOT 0xFFF) = Some p" and "phys = p + (v AND 0xFFF)"
    and "in_window p" and "frame phys = frame p" and "frame p \<notin> avail k" and "frame p \<notin> table_frames (k_cr3 k) k"
proof -
  obtain p where p: "user_map (k_cr3 k) k (v AND NOT 0xFFF) = Some p" "phys = p + (v AND 0xFFF)"
    using acc by (auto simp: access_page_def translate_byte [OF ok v] bind_eq_Some_conv split: if_splits)
  note D = aspace_okD(4) [OF ok p(1)]
  have "frame phys = frame p" using frame_bytes [of p "unat (v AND 0xFFF)"] D page_offset_less [of v] p(2) by simp
  then show ?thesis using that p D by blast
qed

lemma load_user_ok:
  fixes k :: "'a kernel_scheme"
  assumes "aspace_ok (k_cr3 k) k" and "accessible False k v n"
  shows "\<exists>bs. load_user v n k = Some (bs, k) \<and> length bs = n \<and>
    (\<forall>i<n. user_byte (k_cr3 k) k (v + of_nat i) = Some (bs ! i))"
  using assms(2)
proof (induction n arbitrary: v)
  case 0
  then show ?case by simp
next
  case (Suc n)
  note A = accessible_Suc [OF Suc.prems]
  obtain phys where acc: "access_page False v k = Some phys" using A(2) by blast
  obtain p where p: "user_map (k_cr3 k) k (v AND NOT 0xFFF) = Some p" "phys = p + (v AND 0xFFF)"
    using access_user [OF assms(1) A(1) acc] by metis
  obtain bs where I: "load_user (v + 1) n k = Some (bs, k)" "length bs = n"
    "\<forall>i<n. user_byte (k_cr3 k) k (v + 1 + of_nat i) = Some (bs ! i)" using Suc.IH [OF A(3)] by blast
  have "load_user v (Suc n) k = Some (ram k phys # bs, k)"
    using touch_accessible [OF A(1) acc] I(1) by (simp add: load_byte_def)
  moreover have "user_byte (k_cr3 k) k (v + of_nat i) = Some ((ram k phys # bs) ! i)" if "i < Suc n" for i
    using that I(3) p by (cases i) (auto simp: user_byte_def add.assoc)
  ultimately show ?case using I(2) by auto
qed

lemma store_byte_ok:
  fixes k :: "'a kernel_scheme" and b :: u8
  assumes ok: "aspace_ok (k_cr3 k) k" and v: "unat v < 2 ^ 47" and acc: "access_page True v k = Some phys"
  defines "k' \<equiv> k\<lparr>ram := (ram k)(phys := b)\<rparr>"
  shows "store_byte v b k = Some k'" and "aspace_ok (k_cr3 k) k'" and "avail k' = avail k"
    and "page_leaf (k_cr3 k) w k' = page_leaf (k_cr3 k) w k"
    and "unat w < 2 ^ 47 \<Longrightarrow> access_page wr w k' = access_page wr w k"
    and "unat w < 2 ^ 47 \<Longrightarrow> user_byte (k_cr3 k) k' w = (if w = v then Some b else user_byte (k_cr3 k) k w)"
    and "mem_eq_off {frame phys} (ram k) (ram k')"
proof -
  let ?root = "k_cr3 k"
  show "store_byte v b k = Some k'" using touch_accessible [OF v acc] by (simp add: store_byte_def k'_def)
  obtain p where p: "user_map ?root k (v AND NOT 0xFFF) = Some p" "phys = p + (v AND 0xFFF)" "in_window p"
    "frame phys = frame p" "frame p \<notin> avail k" "frame p \<notin> table_frames ?root k"
    using access_user [OF ok v acc] .
  have mem: "mem_eq_off {frame phys} (ram k) ((ram k)(phys := b))" by (simp add: mem_eq_off_def)
  then show "mem_eq_off {frame phys} (ram k) (ram k')" by (simp add: k'_def)
  have F: "{frame phys} \<inter> avail k = {}" "{frame phys} \<inter> table_frames ?root k = {}" using p(4,5,6) by auto
  note W = write_user [OF ok mem F, folded k'_def]
  show ok': "aspace_ok ?root k'" "avail k' = avail k" by (rule W)+
  show pl: "page_leaf ?root w k' = page_leaf ?root w k" for w by (rule W)
  have cr: "k_cr3 k' = ?root" "k_write_protect k' = k_write_protect k" by (simp_all add: k'_def)
  show "access_page wr w k' = access_page wr w k" if "unat w < 2 ^ 47"
    using translate_byte [OF ok that] translate_byte [OF ok'(1) that] W(2) pl
    by (simp add: access_page_def cr may_write_def)
  assume w: "unat w < 2 ^ 47"
  show "user_byte ?root k' w = (if w = v then Some b else user_byte ?root k w)"
  proof (cases "user_map ?root k (w AND NOT 0xFFF)")
    case None
    then show ?thesis using W(2) p(1) by (auto simp: user_byte_def)
  next
    case (Some q)
    note Q = aspace_okD(4) [OF ok Some]
    have "q + (w AND 0xFFF) = phys \<longleftrightarrow> w = v"
    proof
      assume eq: "q + (w AND 0xFFF) = phys"
      have "frame (q + (w AND 0xFFF)) = frame q"
        using frame_bytes [of q "unat (w AND 0xFFF)"] Q page_offset_less [of w] by simp
      then have "frame q = frame p" using eq p(4) by simp
      then have qp: "q = p" using Q p(3) frame_inj by blast
      then have "w AND NOT 0xFFF = v AND NOT 0xFFF" using aspace_okD(5) [OF ok Some] p(1) by simp
      moreover have "w AND 0xFFF = v AND 0xFFF" using eq p(2) qp by simp
      ultimately show "w = v" using page_split [of w] page_split [of v] by simp
    next
      assume "w = v"
      then show "q + (w AND 0xFFF) = phys" using Some p(1,2) by simp
    qed
    then show ?thesis using Some W(2) by (simp add: user_byte_def k'_def)
  qed
qed

lemma store_user_ok:
  fixes k :: "'a kernel_scheme"
  assumes "aspace_ok (k_cr3 k) k" and "accessible True k v (length bs)"
  shows "\<exists>m. store_user v bs k = Some (k\<lparr>ram := m\<rparr>) \<and> aspace_ok (k_cr3 k) (k\<lparr>ram := m\<rparr>) \<and>
    avail (k\<lparr>ram := m\<rparr>) = avail k \<and> (\<forall>w. page_leaf (k_cr3 k) w (k\<lparr>ram := m\<rparr>) = page_leaf (k_cr3 k) w k) \<and>
    (\<forall>w. unat w < 2 ^ 47 \<longrightarrow> user_byte (k_cr3 k) (k\<lparr>ram := m\<rparr>) w =
       (if unat v \<le> unat w \<and> unat w < unat v + length bs then Some (bs ! (unat w - unat v)) else user_byte (k_cr3 k) k w))"
  using assms
proof (induction bs arbitrary: v k)
  case Nil
  then show ?case by (intro exI [of _ "ram k"]) auto
next
  case (Cons b bs)
  note A = accessible_Suc [OF Cons.prems(2) [unfolded list.size(4) add_Suc_right add_0_right]]
  obtain phys where acc: "access_page True v k = Some phys" using A(2) by blast
  let ?k = "k\<lparr>ram := (ram k)(phys := b)\<rparr>"
  note B = store_byte_ok [OF Cons.prems(1) A(1) acc, where b = b]
  have cr: "k_cr3 ?k = k_cr3 k" by simp
  have acc': "accessible True ?k (v + 1) (length bs)"
    unfolding accessible_def
  proof (intro conjI allI impI)
    show "unat (v + 1) + length bs \<le> 2 ^ 47" using A(3) by (simp add: accessible_def)
    fix i assume i: "i < length bs"
    have "unat (v + 1 + of_nat i) < 2 ^ 47"
    proof -
      have s: "unat (v + 1) + length bs \<le> 2 ^ 47" using A(3) by (simp add: accessible_def)
      have "unat (of_nat i :: u64) = i" using i s by (simp only: unat_of_nat) simp
      then show ?thesis using i s unat_add_exact [of "v + 1" "of_nat i"] by simp
    qed
    then show "access_page True (v + 1 + of_nat i) ?k \<noteq> None"
      using A(3) i B(5) by (simp add: accessible_def)
  qed
  have ok': "aspace_ok (k_cr3 ?k) ?k" using B(2) by simp
  obtain m where I: "store_user (v + 1) bs ?k = Some (?k\<lparr>ram := m\<rparr>)" "aspace_ok (k_cr3 ?k) (?k\<lparr>ram := m\<rparr>)"
    "avail (?k\<lparr>ram := m\<rparr>) = avail ?k" "\<forall>w. page_leaf (k_cr3 ?k) w (?k\<lparr>ram := m\<rparr>) = page_leaf (k_cr3 ?k) w ?k"
    "\<forall>w. unat w < 2 ^ 47 \<longrightarrow> user_byte (k_cr3 ?k) (?k\<lparr>ram := m\<rparr>) w =
       (if unat (v + 1) \<le> unat w \<and> unat w < unat (v + 1) + length bs then Some (bs ! (unat w - unat (v + 1)))
        else user_byte (k_cr3 ?k) ?k w)"
    using Cons.IH [OF ok' acc'] by blast
  have kk: "?k\<lparr>ram := m\<rparr> = k\<lparr>ram := m\<rparr>" by simp
  have "user_byte (k_cr3 k) (k\<lparr>ram := m\<rparr>) w =
       (if unat v \<le> unat w \<and> unat w < unat v + length (b # bs) then Some ((b # bs) ! (unat w - unat v))
        else user_byte (k_cr3 k) k w)" if w: "unat w < 2 ^ 47" for w
  proof (cases "w = v")
    case True
    then show ?thesis using I(5) w B(6) [of v] A(4) by (simp add: kk)
  next
    case False
    then have ne: "unat w \<noteq> unat v" by (simp add: word_unat_eq_iff)
    have e: "user_byte (k_cr3 k) (k\<lparr>ram := m\<rparr>) w =
       (if unat v + 1 \<le> unat w \<and> unat w < unat v + 1 + length bs then Some (bs ! (unat w - (unat v + 1)))
        else user_byte (k_cr3 k) k w)"
      using I(5) w B(6) [OF w] False unfolding A(4) kk cr by simp
    show ?thesis
    proof (cases "unat v + 1 \<le> unat w")
      case True
      then have "unat w - unat v = Suc (unat w - (unat v + 1))" by simp
      then show ?thesis using e True by simp
    qed (use e ne in simp)
  qed
  then show ?case using B(1,3,4) I(1-4) by (intro exI [of _ m]) simp
qed

end
