(* ===== verification/Syscalls_Io_Spec.thy ===== *)
theory Syscalls_Io_Spec
  imports User_Memory_Spec Syscalls_Io Vfs_Spec Scheduler_Spec
begin

text \<open>
  What \<^verbatim>\<open>read\<close> and \<^verbatim>\<open>write\<close> promise the calling process on files and pipes, in terms of the bytes it sees in
  its buffer, the contents of the file and the bytes held by the pipe.
\<close>

section \<open>The calling process\<close>

text \<open>The process that made the call: it is the current one and its tables are loaded.\<close>

definition running :: "'a kernel_scheme \<Rightarrow> Process \<Rightarrow> bool" where
  "running k p \<longleftrightarrow> current_mut (k_sched k) = Some (Some p) \<and> k_cr3 k = as_page_table (p_space p) \<and> aspace_ok (k_cr3 k) k"

definition opened :: "'a kernel_scheme \<Rightarrow> Process \<Rightarrow> u64 \<Rightarrow> nat \<Rightarrow> bool" where
  "opened k p fd e \<longleftrightarrow> fd_get (p_fds p) (unat fd) = Some e \<and> e < length (open_files (k_io k)) \<and>
     (\<forall>i. of_pipe (desc_of e k) = Some i \<longrightarrow> i < length (pipes (k_io k)))"

text \<open>What a descriptor still has to deliver: the file behind the offset, or the contents of the pipe.\<close>

definition pending :: "nat \<Rightarrow> 'a kernel_scheme \<Rightarrow> bytes option" where
  "pending e k =
     (case of_kind (desc_of e k) of
        FdFile \<Rightarrow> (case of_node (desc_of e k) of
                    None \<Rightarrow> None
                  | Some n \<Rightarrow> map_option (drop (of_offset (desc_of e k))) (vfs_contents n (k_rootfs k)))
      | FdPipe \<Rightarrow> map_option (\<lambda>i. pipe_buf (pipes (k_io k) ! i)) (of_pipe (desc_of e k))
      | _ \<Rightarrow> None)"

lemma raw_slice_ok: "ptr \<noteq> 0 \<Longrightarrow> n < 2 ^ 63 \<Longrightarrow> raw_slice ptr (of_nat n) = Some ()"
  by (simp add: raw_slice_def word_le_nat_alt unat_of_nat)

lemma unat_of_nat_63: "n < 2 ^ 63 \<Longrightarrow> unat (of_nat n :: u64) = n"
  by (simp only: unat_of_nat) simp

lemma read_file_ok:
  fixes k :: "'a kernel_scheme"
  assumes ok: "aspace_ok (k_cr3 k) k" and e: "e < length (open_files (k_io k))" and knd: "of_kind (desc_of e k) = FdFile"
    and d: "pending e k = Some d" and small: "of_offset (desc_of e k) + length d < 2 ^ 63" and buf: "buf \<noteq> 0"
    and cnt: "cnt < 0x8000000000000000"
    and acc: "accessible True k buf (min (unat cnt) (length d))"
  defines "got \<equiv> take (unat cnt) d"
  shows "\<exists>k'. read_file e buf cnt k = Some (Ret (of_nat (length got)), k') \<and> pending e k' = Some (drop (length got) d) \<and>
    k_cr3 k' = k_cr3 k \<and> aspace_ok (k_cr3 k) k' \<and> k_rootfs k' = k_rootfs k \<and> pipes (k_io k') = pipes (k_io k) \<and>
    (\<forall>w. unat w < 2 ^ 47 \<longrightarrow> user_byte (k_cr3 k) k' w =
       (if unat buf \<le> unat w \<and> unat w < unat buf + length got then Some (got ! (unat w - unat buf))
        else user_byte (k_cr3 k) k w))"
proof -
  let ?f = "desc_of e k"
  obtain n c where n: "of_node ?f = Some n" "vfs_contents n (k_rootfs k) = Some c" "d = drop (of_offset ?f) c"
    using d knd by (auto simp: pending_def split: option.splits)
  have len: "length got = min (unat cnt) (length d)" by (simp add: got_def min.commute)
  have rs: "raw_slice buf cnt = Some ()" using buf cnt by (simp add: raw_slice_def not_le)
  have rd: "vfs_read n (of_offset ?f) (unat cnt) (k_rootfs k) = Some (Inr got)"
    using n by (simp add: vfs_read_part got_def)
  obtain m where S: "store_user buf got k = Some (k\<lparr>ram := m\<rparr>)" "aspace_ok (k_cr3 k) (k\<lparr>ram := m\<rparr>)"
    "\<forall>w. unat w < 2 ^ 47 \<longrightarrow> user_byte (k_cr3 k) (k\<lparr>ram := m\<rparr>) w =
       (if unat buf \<le> unat w \<and> unat w < unat buf + length got then Some (got ! (unat w - unat buf)) else user_byte (k_cr3 k) k w)"
    using store_user_ok [OF ok, of buf got] acc unfolding len by blast
  have off: "usize_add (of_offset ?f) (length got) = Some (of_offset ?f + length got)"
    using small len by (intro usize_add_ok) simp
  let ?k' = "set_desc e (?f\<lparr>of_offset := of_offset ?f + length got\<rparr>) (k\<lparr>ram := m\<rparr>)"
  have run: "read_file e buf cnt k = Some (Ret (of_nat (length got)), ?k')"
    using n rs rd S(1) off by (simp add: read_file_def Let_def)
  have desc: "desc_of e ?k' = ?f\<lparr>of_offset := of_offset ?f + length got\<rparr>"
    using e by (simp add: desc_of_def set_desc_def)
  have "pending e ?k' = Some (drop (length got) d)"
    using n knd unfolding pending_def desc by (simp add: set_desc_def add.commute)
  moreover have "aspace_ok (k_cr3 k) ?k'" "user_byte (k_cr3 k) ?k' w = user_byte (k_cr3 k) (k\<lparr>ram := m\<rparr>) w" for w
    using S(2) aspace_ok_cong [of ?k' "k\<lparr>ram := m\<rparr>"] by (auto simp: set_desc_def user_byte_def)
  ultimately show ?thesis using run S(3) by (intro exI [of _ ?k']) (simp add: set_desc_def)
qed

lemma read_pipe_ok:
  fixes k :: "'a kernel_scheme"
  assumes ok: "aspace_ok (k_cr3 k) k" and e: "e < length (open_files (k_io k))" and knd: "of_kind (desc_of e k) = FdPipe"
    and i: "of_pipe (desc_of e k) = Some i" "i < length (pipes (k_io k))"
    and d: "pending e k = Some d" "d \<noteq> []" and buf: "buf \<noteq> 0" and cnt: "cnt < 2 ^ 63"
    and acc: "accessible True k buf (min cnt (length d))"
  defines "got \<equiv> take cnt d"
  shows "\<exists>k'. read_pipe e buf cnt k = Some (Ret (of_nat (length got)), k') \<and> pending e k' = Some (drop (length got) d) \<and>
    k_cr3 k' = k_cr3 k \<and> aspace_ok (k_cr3 k) k' \<and> k_rootfs k' = k_rootfs k \<and>
    (\<forall>w. unat w < 2 ^ 47 \<longrightarrow> user_byte (k_cr3 k) k' w =
       (if unat buf \<le> unat w \<and> unat w < unat buf + length got then Some (got ! (unat w - unat buf))
        else user_byte (k_cr3 k) k w))"
proof -
  let ?in = "pipes (k_io k) ! i"
  have pb: "pipe_buf ?in = d" using d(1) knd i(1) by (simp add: pending_def)
  have len: "length got = min cnt (length d)" by (simp add: got_def min.commute)
  have n: "min (length d) cnt = length got" "take (length got) d = got" unfolding len got_def by (auto simp: min_def)
  have rs: "raw_slice buf (of_nat (length got)) = Some ()" using buf cnt len by (intro raw_slice_ok) auto
  obtain m where S: "store_user buf got k = Some (k\<lparr>ram := m\<rparr>)" "aspace_ok (k_cr3 k) (k\<lparr>ram := m\<rparr>)"
    "\<forall>w. unat w < 2 ^ 47 \<longrightarrow> user_byte (k_cr3 k) (k\<lparr>ram := m\<rparr>) w =
       (if unat buf \<le> unat w \<and> unat w < unat buf + length got then Some (got ! (unat w - unat buf)) else user_byte (k_cr3 k) k w)"
    using store_user_ok [OF ok, of buf got] acc unfolding len by blast
  let ?k' = "set_pipe i (?in\<lparr>pipe_buf := drop (length got) d\<rparr>) (k\<lparr>ram := m\<rparr>)"
  have run: "read_pipe e buf cnt k = Some (Ret (of_nat (length got)), ?k')"
    using i(1) d(2) rs S(1) n by (simp add: read_pipe_def pb Let_def)
  have desc: "desc_of e ?k' = desc_of e k" by (simp add: desc_of_def set_pipe_def)
  have "pending e ?k' = Some (drop (length got) d)"
    using i knd unfolding pending_def desc by (simp add: set_pipe_def)
  moreover have "aspace_ok (k_cr3 k) ?k'" "user_byte (k_cr3 k) ?k' w = user_byte (k_cr3 k) (k\<lparr>ram := m\<rparr>) w" for w
    using S(2) aspace_ok_cong [of ?k' "k\<lparr>ram := m\<rparr>"] by (auto simp: set_pipe_def user_byte_def)
  ultimately show ?thesis using run S(3) by (intro exI [of _ ?k']) (simp add: set_pipe_def)
qed


section \<open>Writing\<close>

text \<open>The place where a write to a file goes: the end in append mode, else the offset.\<close>

definition write_place :: "OpenFile \<Rightarrow> bytes \<Rightarrow> nat" where
  "write_place desc d = (if of_append desc then length d else of_offset desc)"

definition writable_target :: "nat \<Rightarrow> 'a kernel_scheme \<Rightarrow> nat \<Rightarrow> bool" where
  "writable_target e k n \<longleftrightarrow>
     (case of_kind (desc_of e k) of
        FdFile \<Rightarrow> (\<exists>i d. of_node (desc_of e k) = Some (RamfsHandle i) \<and> vfs_contents (RamfsHandle i) (k_rootfs k) = Some d \<and>
                    of_offset (desc_of e k) + n < 2 ^ 63 \<and> length d + n < 2 ^ 63)
      | FdPipe \<Rightarrow> of_pipe (desc_of e k) \<noteq> None
      | _ \<Rightarrow> False)"

lemma write_to_file_ok:
  fixes k :: "'a kernel_scheme"
  assumes ok: "aspace_ok (k_cr3 k) k" and nd: "of_node (desc_of e k) = Some (RamfsHandle i)"
    and d: "vfs_contents (RamfsHandle i) (k_rootfs k) = Some d"
    and lim: "of_offset (desc_of e k) + length data < 2 ^ 63" "length d + length data < 2 ^ 63"
    and ld: "load_user buf (length data) k = Some (data, k)"
  shows "\<exists>fs'. write_to_file e buf (length data) k = Some (Ret (of_nat (length data)),
      set_desc e ((desc_of e k)\<lparr>of_offset := of_offset (desc_of e k) + length data\<rparr>) (k\<lparr>k_rootfs := fs'\<rparr>)) \<and>
    vfs_contents (RamfsHandle i) fs' = Some (overwrite (write_place (desc_of e k) d) data d) \<and>
    (\<forall>j. j \<noteq> i \<longrightarrow> vfs_contents (RamfsHandle j) fs' = vfs_contents (RamfsHandle j) (k_rootfs k))"
proof -
  let ?f = "desc_of e k" and ?fs = "k_rootfs k"
  let ?at = "write_place ?f d"
  have i: "i < length (fs_nodes ?fs)" "node_data (fs_nodes ?fs ! i) = d" using d by (auto simp: node_at_def split: if_splits)
  have "map_option st_size (vfs_stat (RamfsHandle i) ?fs) = Some (length d)" unfolding vfs_size d by simp
  then have at: "write_offset ?f ?fs = Some ?at" using nd by (simp add: write_offset_def write_place_def)
  have lim': "?at + length data < 2 ^ 63" using lim by (simp add: write_place_def)
  let ?fs' = "?fs\<lparr>fs_nodes := (fs_nodes ?fs)[i := (fs_nodes ?fs ! i)\<lparr>node_data := overwrite ?at data d\<rparr>]\<rparr>"
  have W: "vfs_write (RamfsHandle i) ?at data ?fs = Some (Inr (length data), ?fs')"
    using handle_write_ok [OF i(1) lim'] i(2) by simp
  have off: "usize_add (of_offset ?f) (length data) = Some (of_offset ?f + length data)"
    using lim(1) by (intro usize_add_ok) simp
  have "desc_of e (k\<lparr>k_rootfs := ?fs'\<rparr>) = ?f" by (simp add: desc_of_def)
  then have "write_to_file e buf (length data) k = Some (Ret (of_nat (length data)),
      set_desc e (?f\<lparr>of_offset := of_offset ?f + length data\<rparr>) (k\<lparr>k_rootfs := ?fs'\<rparr>))"
    using nd at ld W off by (simp add: write_to_file_def Let_def del: vfs_write.simps)
  moreover have "vfs_contents (RamfsHandle i) ?fs' = Some (overwrite ?at data d)" using i(1) by (simp add: node_at_def)
  moreover have "\<forall>j. j \<noteq> i \<longrightarrow> vfs_contents (RamfsHandle j) ?fs' = vfs_contents (RamfsHandle j) ?fs" by (simp add: node_at_def)
  ultimately show ?thesis by blast
qed


section \<open>Witnesses\<close>

text \<open>
  A process whose heap page at \<open>0x401000\<close> has been touched, with a pipe on descriptors 0 and 1, into which 1, 2 and 3
  have been written.
\<close>

definition demo_touched :: kmem where
  "demo_touched = snd (the (handle_page_fault demo_space 0x401234 demo_kmem))"

definition demo_reader :: Process where
  "demo_reader = (demo_process 1 0 Running)\<lparr>p_space := demo_space, p_fds := (replicate FD_MAX None)[0 := Some 0, 1 := Some 1]\<rparr>"

definition demo_user :: kernel where
  "demo_user = (demo_kernel demo_touched [Some demo_reader] 0)
     \<lparr>k_io := \<lparr>open_files = [pipe_read 0, pipe_write 0],
              pipes = [\<lparr>pipe_buf = [1, 2, 3], write_ends = 1, read_ends = 1\<rparr>]\<rparr>,
      k_write_protect := False\<rparr>"

definition demo_frame :: "u64 \<Rightarrow> u64 \<Rightarrow> u64 \<Rightarrow> SyscallFrame" where
  "demo_frame a b c =
     \<lparr>fr_r15 = 0, fr_r14 = 0, fr_r13 = 0, fr_r12 = 0, fr_rbp = 0, fr_rbx = 0, fr_r9 = 0, fr_r8 = 0, fr_r10 = 0,
      fr_rdx = c, fr_rsi = b, fr_rdi = a, fr_rax = 0, fr_user_rsp = 0, fr_r11 = 0, fr_rcx = 0\<rparr>"

lemma demo_touched_ok: "aspace_ok 0x8000 demo_touched" "user_map 0x8000 demo_touched 0x401000 \<noteq> None"
proof -
  have a: "aspace_ok (as_page_table demo_space) demo_kmem" by (simp add: demo_space_simps)
  have f: "unat (0x401234 :: u64) < 2 ^ 47" by simp
  have v: "0x401234 AND NOT (PAGE_SIZE - 1) = 0x401000" by (simp add: PAGE_SIZE_def)
  let ?vma = "VMA_new 0x400000 0x403000 VMAFlags_rw Heap"
  have fv: "find_vma (as_vmas demo_space) 0x401234 = Some ?vma" by code_simp
  have u: "user_page 0x401000" by (simp add: user_page_def)
  have n: "user_map (as_page_table demo_space) demo_kmem 0x401000 = None" by (simp add: demo_space_simps)
  have run: "fill_page demo_space 0x401000 ?vma demo_kmem = Some (Inr (), demo_touched)"
    using handle_page_fault_fill [OF a f] fv n demo_fault unfolding v demo_touched_def by (auto simp: map_option_case split: option.splits)
  show "aspace_ok 0x8000 demo_touched"
    by (rule fill_page_ok [OF a u n demo_owners, of ?vma]) (simp add: run demo_space_simps)
  show "user_map 0x8000 demo_touched 0x401000 \<noteq> None"
    by (rule fill_page_ok [OF a u n demo_owners, of ?vma]) (auto simp add: run demo_space_simps)
qed

lemma demo_user_setup:
  "running demo_user demo_reader" "opened demo_user demo_reader 0 0" "opened demo_user demo_reader 1 1"
proof -
  have "aspace_ok 0x8000 demo_user"
    using demo_touched_ok aspace_ok_cong(1) [of demo_user demo_touched] by (simp add: demo_user_def demo_kernel_def)
  then show "running demo_user demo_reader"
    by (simp add: running_def demo_user_def demo_kernel_def current_mut_def demo_reader_def demo_space_def)
  show "opened demo_user demo_reader 0 0" "opened demo_user demo_reader 1 1"
    by (simp_all add: opened_def demo_user_def demo_reader_def fd_get_def FD_MAX_def desc_of_def pipe_read_def pipe_write_def)
qed

lemma demo_user_buffer: "accessible wr demo_user 0x401010 2"
proof -
  have ok: "aspace_ok (k_cr3 demo_user) demo_user" using demo_user_setup(1) unfolding running_def by blast
  have cr: "k_cr3 demo_user = 0x8000" "\<not> k_write_protect demo_user" by (simp_all add: demo_user_def demo_kernel_def)
  have um: "user_map 0x8000 demo_user 0x401000 \<noteq> None"
    using demo_touched_ok(2) aspace_ok_cong(2) [of demo_user demo_touched "0x8000"] by (simp add: demo_user_def demo_kernel_def)
  have "access_page wr v demo_user \<noteq> None" if "unat v < 2 ^ 47" "v AND NOT 0xFFF = 0x401000" for v
    using translate_byte [OF ok that(1)] um that(2) cr by (auto simp: access_page_def)
  from this [of "0x401010"] this [of "0x401011"] show ?thesis
    unfolding accessible_def by (auto simp: less_2_cases_iff)
qed



end
