(* ===== verification/Wait_Spec.thy ===== *)
theory Wait_Spec
  imports Teardown_Spec Syscalls_Io_Spec Syscalls_Proc
begin

text \<open>
  Waiting for a child (\<^verbatim>\<open>syscall_wait4\<close> of \<^verbatim>\<open>syscall.rs\<close>): the composition of the process table, the tear-down of the
  child's address space, the allocator, which gets its kernel stack back, and the caller's memory, into which the
  exit status is stored through the page tables.
\<close>

section \<open>Storing through the tables in software\<close>

lemma byte_distance:
  fixes v w :: u64
  assumes "unat v < 2 ^ 47" and "unat w < 2 ^ 47" and "n \<le> 4096"
  shows "unat (w - v) < n \<longleftrightarrow> unat v \<le> unat w \<and> unat w < unat v + n"
    and "unat v \<le> unat w \<Longrightarrow> unat (w - v) = unat w - unat v"
proof -
  show eq: "unat (w - v) = unat w - unat v" if "unat v \<le> unat w"
    using that by (simp add: unat_sub_exact word_le_nat_alt)
  show "unat (w - v) < n \<longleftrightarrow> unat v \<le> unat w \<and> unat w < unat v + n"
  proof (cases "unat v \<le> unat w")
    case True
    then show ?thesis using eq by auto
  next
    case False
    then have "unat (v - w) = unat v - unat w" by (simp add: unat_sub_exact word_le_nat_alt)
    moreover have "unat (w - v) + unat (v - w) \<ge> 2 ^ 64"
    proof (rule ccontr)
      assume "\<not> ?thesis"
      then have "unat (w - v + (v - w)) = unat (w - v) + unat (v - w)" by (intro unat_add_exact) simp
      then show False using \<open>unat (v - w) = unat v - unat w\<close> False by simp
    qed
    ultimately show ?thesis using False assms by simp
  qed
qed

lemma unat_page: "unat (v AND NOT 0xFFF :: u64) = 4096 * (unat v div 4096)" "unat (v AND 0xFFF :: u64) = unat v mod 4096"
proof -
  have "(v AND NOT 0xFFF :: u64) = align_down v 4096" by (simp add: align_down_def)
  then show b: "unat (v AND NOT 0xFFF :: u64) = 4096 * (unat v div 4096)" by (simp add: unat_align_down_page frame_def)
  have "unat v < 2 ^ 64" by (rule order.strict_trans2 [OF unsigned_less]) simp
  then have "unat v div 4096 < 2 ^ 52" by (simp add: less_mult_imp_div_less)
  then have "unat (v AND NOT 0xFFF) + unat (v AND 0xFFF) < 2 ^ LENGTH(64)"
    unfolding b using page_offset_less [of v] by simp
  then have "unat v = unat (v AND NOT 0xFFF) + unat (v AND 0xFFF)"
    using unat_add_exact [of "v AND NOT 0xFFF" "v AND 0xFFF"] page_split [of v] by simp
  then show "unat (v AND 0xFFF :: u64) = unat v mod 4096" using b mult_div_mod_eq [of 4096 "unat v"] by linarith
qed

lemma user_byte_store:
  fixes s :: "'a kmem_scheme"
  assumes ok: "aspace_ok root s" and v: "unat v < 2 ^ 47" and p: "user_map root s (v AND NOT 0xFFF) = Some p"
    and len: "unat (v AND 0xFFF) + length bs \<le> 4096"
  defines "s' \<equiv> s\<lparr>ram := store_bytes (ram s) (p + (v AND 0xFFF)) bs\<rparr>"
  shows "aspace_ok root s'" and "user_map root s' = user_map root s" and "avail s' = avail s"
    and "unat w < 2 ^ 47 \<Longrightarrow> user_byte root s' w =
      (if unat v \<le> unat w \<and> unat w < unat v + length bs then Some (bs ! (unat w - unat v)) else user_byte root s w)"
    and "mem_eq_off {frame p} (ram s) (ram s')"
proof -
  note P = aspace_okD(4) [OF ok p]
  let ?o = "v AND 0xFFF"
  have o: "unat ?o < 4096" by (rule page_offset_less)
  have fr: "frame (p + ?o) = frame p" using frame_bytes [of p "unat ?o"] P o by simp
  have "unat (p + ?o) = unat p + unat ?o" using P o by (intro unat_add_exact) (simp add: in_window_def)
  moreover have "unat p mod 4096 = 0" using P by (simp add: in_window_def)
  ultimately have md: "unat (p + ?o) mod 4096 = unat ?o" using o by (simp add: mod_add_eq [symmetric, of "unat p"])
  have mem: "mem_eq_off {frame p} (ram s) (store_bytes (ram s) (p + ?o) bs)"
    using mem_eq_off_store_bytes [of "p + ?o" bs "ram s"] md len unfolding fr by simp
  then show "mem_eq_off {frame p} (ram s) (ram s')" by (simp add: s'_def)
  have F: "{frame p} \<inter> avail s = {}" "{frame p} \<inter> table_frames root s = {}" using P by auto
  note W = write_user [OF ok mem F, folded s'_def]
  show "aspace_ok root s'" "user_map root s' = user_map root s" "avail s' = avail s" by (rule W)+
  assume w: "unat w < 2 ^ 47"
  show "user_byte root s' w =
      (if unat v \<le> unat w \<and> unat w < unat v + length bs then Some (bs ! (unat w - unat v)) else user_byte root s w)"
  proof (cases "w AND NOT 0xFFF = v AND NOT 0xFFF")
    case True
    have "p + (w AND 0xFFF) - (p + ?o) = w - v" using page_split [of w] page_split [of v] True by (metis add_diff_cancel_left)
    then show ?thesis
      using byte_distance [OF v w, of "length bs"] len True p W(2)
      by (simp add: user_byte_def s'_def store_bytes_def uint_less_int)
  next
    case False
    have out: "\<not> (unat v \<le> unat w \<and> unat w < unat v + length bs)"
    proof
      assume in_range: "unat v \<le> unat w \<and> unat w < unat v + length bs"
      then have "unat w < 4096 * (unat v div 4096) + 4096"
        using len mult_div_mod_eq [of 4096 "unat v"] unfolding unat_page(2) by linarith
      then have "unat w div 4096 \<le> unat v div 4096" by (metis div_less_iff_less_mult less_Suc_eq_le mult.commute mult_Suc_right add.commute zero_less_numeral)
      moreover have "unat v div 4096 \<le> unat w div 4096" using in_range by (simp add: div_le_mono)
      ultimately have "unat w div 4096 = unat v div 4096" by simp
      then show False using False unfolding word_unat_eq_iff unat_page by simp
    qed
    have "ram s' (q + (w AND 0xFFF)) = ram s (q + (w AND 0xFFF))" if q: "user_map root s (w AND NOT 0xFFF) = Some q" for q
    proof -
      have "frame q \<noteq> frame p" using user_map_frame_inj [OF ok q p] False by blast
      moreover have "frame (q + (w AND 0xFFF)) = frame q"
        using frame_bytes [of q "unat (w AND 0xFFF)"] aspace_okD(4) [OF ok q] page_offset_less [of w] by simp
      ultimately show ?thesis using mem by (simp add: mem_eq_off_def s'_def)
    qed
    then show ?thesis using out W(2) by (cases "user_map root s (w AND NOT 0xFFF)") (auto simp: user_byte_def)
  qed
qed


lemma write_to_user_via_pt_page:
  fixes s :: "'a kmem_scheme"
  assumes ok: "aspace_ok root s" and v: "unat v < 2 ^ 47" and len: "unat (v AND 0xFFF) + length bs \<le> 4096" and bs: "bs \<noteq> []"
  shows "write_to_user_via_pt root v bs s =
    (case user_map root s (v AND NOT 0xFFF) of
       None \<Rightarrow> Some (False, s)
     | Some p \<Rightarrow> Some (True, s\<lparr>ram := store_bytes (ram s) (p + (v AND 0xFFF)) bs\<rparr>))"
proof (cases "user_map root s (v AND NOT 0xFFF)")
  case None
  then show ?thesis
    using translate_user [OF ok page_base(1) [OF v]] bs by (simp add: write_to_user_via_pt.simps [of root v])
next
  case (Some p)
  note P = aspace_okD(4) [OF ok Some]
  note ptr = window_ptr [of p]
  have o: "unat (v AND 0xFFF) < 4096" by (rule page_offset_less)
  have m: "min (0x1000 - unat (v AND 0xFFF)) (length bs) = length bs" using len by simp
  have p: "unat p < 2 ^ 47" and "4096 dvd unat p" using P by (simp_all add: in_window_def)
  then obtain k where "unat p = 4096 * k" by blast
  then have po: "unat p + unat (v AND 0xFFF) < 2 ^ 47" using p o by simp
  have "unat (KERNEL_VIRT_BASE + p) = unat KERNEL_VIRT_BASE + unat p"
    using p by (intro unat_add_exact) (simp add: KERNEL_VIRT_BASE_def)
  then have "checked_add (KERNEL_VIRT_BASE + p) (v AND 0xFFF) = Some (KERNEL_VIRT_BASE + p + (v AND 0xFFF))"
    using po by (intro checked_add_ok) (simp add: KERNEL_VIRT_BASE_def)
  moreover have "deref_phys (KERNEL_VIRT_BASE + p + (v AND 0xFFF)) = p + (v AND 0xFFF)"
  proof -
    have "unat (p + (v AND 0xFFF)) = unat p + unat (v AND 0xFFF)" using p o by (intro unat_add_exact) simp
    then have "unat (p + (v AND 0xFFF)) < 2 ^ 47" using po by simp
    from deref_phys_virt [OF this] show ?thesis by (simp only: add.assoc)
  qed
  ultimately show ?thesis
    using P ptr bs Some m translate_user [OF ok page_base(1) [OF v]]
    by (subst write_to_user_via_pt.simps) (simp add: Let_def)
qed

section \<open>Reaping a child\<close>

text \<open>The frames a process owns, and when a terminated process can be reaped.\<close>

definition space_frames :: "AddressSpace \<Rightarrow> 'a machine_scheme \<Rightarrow> nat set" where
  "space_frames a s = {frame p | v p. user_map (as_page_table a) s v = Some p} \<union> low_frames (as_page_table a) s \<union>
     {frame (as_page_table a)}"

definition stack_frames :: "Process \<Rightarrow> nat set" where
  "stack_frames z = (case p_kernel_stack_alloc z of None \<Rightarrow> {} | Some (a, n) \<Rightarrow> block_frames a n)"

definition reapable :: "Process \<Rightarrow> 'a buddy_scheme \<Rightarrow> bool" where
  "reapable z s \<longleftrightarrow> space_ok (p_space z) s \<and> (\<forall>v\<in>set (as_vmas (p_space z)). unat (vma_end v) \<le> 2 ^ 47) \<and>
     0 \<notin> table_frames (as_page_table (p_space z)) s \<and>
     (case p_kernel_stack_alloc z of None \<Rightarrow> True | Some (a, n) \<Rightarrow> n < MAX_ORDER \<and> block_ok a n) \<and>
     stack_frames z \<inter> (avail s \<union> space_frames (p_space z) s) = {}"

text \<open>A set of frames that the tables and the pages of an address space avoid.\<close>

definition apart :: "u64 \<Rightarrow> 'a machine_scheme \<Rightarrow> nat set \<Rightarrow> bool" where
  "apart root s F \<longleftrightarrow> table_frames root s \<inter> F = {} \<and> (\<forall>v p. user_map root s v = Some p \<longrightarrow> frame p \<notin> F)"

lemma apart_ok:
  fixes s :: "'a buddy_scheme" and s' :: "'b buddy_scheme"
  assumes ok: "aspace_ok root s" and ap: "apart root s F" and inv: "buddy_inv s'" and av: "avail s' = avail s \<union> F"
    and mem: "mem_eq_off (avail s') (ram s) (ram s')"
  shows "aspace_ok root s'" and "user_map root s' = user_map root s" and "user_byte root s' w = user_byte root s w"
proof -
  have dj: "avail s' \<inter> table_frames root s = {}"
    using aspace_okD(2) [OF ok] ap unfolding tree_ok_def apart_def av by blast
  have un: "frame p \<notin> avail s'" if "user_map root s v = Some p" for v p
    using aspace_okD(4) [OF ok that] ap that unfolding apart_def av by blast
  note E = aspace_elsewhere [OF ok inv mem dj dj un]
  show "aspace_ok root s'" by (rule E(1))
  show "user_map root s' = user_map root s" by (rule E(2))
  have "ram s' (p + (w AND 0xFFF)) = ram s (p + (w AND 0xFFF))" if p: "user_map root s (w AND NOT 0xFFF) = Some p" for p
  proof -
    have "frame (p + (w AND 0xFFF)) = frame p"
      using frame_bytes [of p "unat (w AND 0xFFF)"] aspace_okD(4) [OF ok p] page_offset_less [of w] by simp
    then show ?thesis using mem un [OF p] by (simp add: mem_eq_off_def)
  qed
  then show "user_byte root s' w = user_byte root s w"
    using E(2) by (cases "user_map root s (w AND NOT 0xFFF)") (auto simp: user_byte_def)
qed

lemma reapable_cong:
  assumes "ram s' = ram s" and "free_heads s' = free_heads s" and "free_counts s' = free_counts s"
  shows "reapable z s' = reapable z s" and "space_frames a s' = space_frames a s" and "apart root s' F = apart root s F"
    and "low_frames root s' = low_frames root s"
proof -
  note C = aspace_ok_cong [OF assms]
  show lo: "low_frames root s' = low_frames root s" for root by (simp add: low_frames_def entry_frames_def assms)
  show sf: "space_frames a s' = space_frames a s" for a by (simp add: space_frames_def C lo)
  show "reapable z s' = reapable z s" by (simp add: reapable_def space_ok_def covered_def C sf)
  show "apart root s' F = apart root s F" by (simp add: apart_def C)
qed

lemma release_process:
  fixes s :: "'a kmem_scheme"
  assumes z: "reapable z s"
  shows "\<exists>a' s1 s2. destroy (p_space z) s = Some (a', s1) \<and>
     (case p_kernel_stack_alloc z of None \<Rightarrow> Some s1 | Some (kphys, order) \<Rightarrow> buddy_free kphys order s1) = Some s2 \<and>
     buddy_inv s2 \<and> avail s2 = avail s \<union> (space_frames (p_space z) s \<union> stack_frames z) \<and>
     mem_eq_off (avail s2) (ram s) (ram s2) \<and> kmem.more s2 = kmem.more s"
proof -
  obtain s1 where D: "destroy (p_space z) s = Some ((p_space z)\<lparr>as_vmas := []\<rparr>, s1)" "buddy_inv s1"
    "avail s1 = avail s \<union> space_frames (p_space z) s" "mem_eq_off (avail s1) (ram s) (ram s1)" "kmem.more s1 = kmem.more s"
    using destroy_ok [of "p_space z" s] z unfolding reapable_def space_frames_def by (auto simp: Un_assoc)
  show ?thesis
  proof (cases "p_kernel_stack_alloc z")
    case None
    then show ?thesis using D by (simp add: stack_frames_def)
  next
    case (Some b)
    obtain a n where b: "b = (a, n)" by (cases b)
    have st: "n < MAX_ORDER" "block_ok a n" "stack_frames z = block_frames a n" "block_frames a n \<inter> avail s1 = {}"
      using z D(3) unfolding reapable_def stack_frames_def Some b by auto
    obtain s2 where F: "buddy_free a n s1 = Some s2" "buddy_inv s2" "avail s2 = block_frames a n \<union> avail s1"
      "mem_eq_off (avail s2) (ram s1) (ram s2)" "buddy.more s2 = buddy.more s1"
      using buddy_free_inv [OF D(2) st(1,2,4)] by blast
    have "mem_eq_off (avail s2) (ram s) (ram s2)"
      by (rule mem_eq_off_trans [OF D(4) F(4)]) (use F(3) in blast)
    moreover have "avail s2 = avail s \<union> (space_frames (p_space z) s \<union> stack_frames z)" using D(3) F(3) st(3) by blast
    moreover have "kmem.more s2 = kmem.more s" using kmem_more_buddy [OF F(5)] D(5) by simp
    ultimately show ?thesis using D(1) F(1,2) Some b by simp
  qed
qed

lemma store_status:
  fixes s :: "'a kmem_scheme"
  assumes ok: "aspace_ok root s" and v: "unat v + 4 \<le> 2 ^ 47" "4 dvd unat v" and len: "length bs = 4"
  shows "\<exists>r m. write_to_user_via_pt root v bs s = Some (r, s\<lparr>ram := m\<rparr>) \<and> aspace_ok root (s\<lparr>ram := m\<rparr>) \<and>
     user_map root (s\<lparr>ram := m\<rparr>) = user_map root s \<and> avail (s\<lparr>ram := m\<rparr>) = avail s \<and>
     (\<forall>w. unat w < 2 ^ 47 \<longrightarrow> user_byte root (s\<lparr>ram := m\<rparr>) w =
        (if user_map root s (v AND NOT 0xFFF) \<noteq> None \<and> unat v \<le> unat w \<and> unat w < unat v + 4
         then Some (bs ! (unat w - unat v)) else user_byte root s w))"
proof -
  have v': "unat v < 2 ^ 47" using v by simp
  have "unat v mod 4096 mod 4 = 0" using v(2) by (simp add: mod_mod_cancel)
  then obtain k where k: "unat v mod 4096 = 4 * k" by (metis mod_0_imp_dvd dvdE)
  have "unat v mod 4096 < 4096" by simp
  then have l: "unat (v AND 0xFFF) + length bs \<le> 4096" using k unfolding unat_page len by simp
  have "bs \<noteq> []" using len by auto
  note W = write_to_user_via_pt_page [OF ok v' l this]
  show ?thesis
  proof (cases "user_map root s (v AND NOT 0xFFF)")
    case None
    then show ?thesis using W ok by (intro exI [of _ False] exI [of _ "ram s"]) simp
  next
    case (Some p)
    note B = user_byte_store [OF ok v' Some l]
    show ?thesis
      using W B Some len by (intro exI [of _ True] exI [of _ "store_bytes (ram s) (p + (v AND 0xFFF)) bs"]) simp
  qed
qed

lemma kmem_more_kernel:
  fixes k k' :: "'a kernel_scheme"
  assumes "kmem.more k' = kmem.more k"
  shows "k_sched k' = k_sched k" and "k_io k' = k_io k" and "k_cr3 k' = k_cr3 k"
  using assms by (cases k; cases k'; simp)+

lemma zombie_slot:
  assumes "find_zombie pid t sched = Some idx"
  obtains z where "idx < length (processes sched)" and "processes sched ! idx = Some z" and "p_state z = Dead"
    and "child_of pid t z"
  using assms by (auto simp: find_zombie_def position_Some split: option.splits)

lemma current_without:
  assumes "current_mut sched = Some (Some p)" and "idx \<noteq> current_idx sched"
  shows "current_mut (set_process idx None sched) = Some (Some p)" and "current (set_process idx None sched) = Some p"
  using assms by (auto simp: current_mut_def current_def split: if_splits)

definition status_word :: "Process \<Rightarrow> bytes" where
  "status_word z = to_le_bytes 4 (push_bit 8 (p_exit_code z AND 0xFF))"


text \<open>A caller with an empty address space, and a terminated child with an empty table at \<open>0x9000\<close> and a stack of two pages.\<close>

definition demo_zombie :: Process where
  "demo_zombie = (demo_process 7 1 Dead)\<lparr>p_kernel_stack_alloc := Some (0x10000, 1),
     p_space := \<lparr>as_page_table = 0x9000, as_vmas = [VMA_new 0x400000 0x403000 VMAFlags_rw Heap], as_owner_pid = 7\<rparr>\<rparr>"

definition demo_family :: kernel where
  "demo_family = demo_kernel demo_kmem [Some demo_reader, Some demo_zombie] 0"

lemma demo_empty_table:
  assumes "in_window t" and "frame t \<notin> {1..<5}" and "t \<noteq> 0"
  shows "aspace_ok t demo_kmem" and "user_map t demo_kmem v = None" and "table_frames t demo_kmem = {frame t}"
    and "low_frames t demo_kmem = {}"
proof -
  have e: "pte (ram demo_kmem) t i = 0" if "i < 512" for i
  proof -
    have "pte (ram demo_kmem) t i = pte (\<lambda>_. 0) t i" by (rule pte_mem_eq [OF demo_kmem_run(3) assms(1,2) that])
    also have "\<dots> = 0" by (simp add: read64_def load_bytes_def le_word_def numeral_eq_Suc)
    finally show ?thesis .
  qed
  note P = pt_empty [OF assms(1) e]
  show tf: "table_frames t demo_kmem = {frame t}" unfolding table_frames_def by (rule P(2))
  have "\<not> subtable (pte (ram demo_kmem) t i)" if "i < 256" for i
    using e [OF less_256 [OF that]] by (simp add: subtable_def is_present_def)
  then show "low_frames t demo_kmem = {}" unfolding low_frames_def entry_frames_def by simp
  have pl: "page_leaf t w demo_kmem = None" for w unfolding page_leaf_def by (rule P(3))
  then show um: "user_map t demo_kmem v = None" for v by (simp add: user_map_def)
  have "tree_ok t demo_kmem"
    unfolding tree_ok_def tf demo_kmem_run(2) by (intro conjI P(1)) (insert assms(2), auto)
  then show "aspace_ok t demo_kmem" using demo_kmem_run(1) pl um by (simp add: aspace_ok_def no_huge_def)
qed


end
