(* ===== verification/Spin_Lock.thy ===== *)
theory Spin_Lock
  imports Ferrum_Base
begin

text \<open>
  The two spin locks of \<^verbatim>\<open>src/kernel/src/spinlock.rs\<close>, \<^verbatim>\<open>IrqMutex\<close> and \<^verbatim>\<open>SpinMutex\<close>. Any number of processors
  run the operations step by step in any order: entering \<^verbatim>\<open>lock\<close>, one attempt of the atomic exchange, which as the
  weak variant may fail for no reason, and dropping a guard. A processor holds the guards that its \<^verbatim>\<open>lock\<close> calls
  returned; each remembers whether interrupts were enabled before. \<^verbatim>\<open>SpinMutex\<close> leaves the interrupt flag alone.
\<close>

section \<open>Operations\<close>

record lock_state =
  locked :: bool
  trying :: "nat \<Rightarrow> bool option"
  guards :: "nat \<Rightarrow> bool list"
  irq :: "nat \<Rightarrow> bool"

definition mutex_new :: "(nat \<Rightarrow> bool) \<Rightarrow> lock_state" where
  "mutex_new flags = \<lparr>locked = False, trying = (\<lambda>_. None), guards = (\<lambda>_. []), irq = flags\<rparr>"

text \<open>\<open>irq_save\<close> tells the two locks apart.\<close>

definition lock_enter :: "bool \<Rightarrow> nat \<Rightarrow> lock_state \<Rightarrow> lock_state" where
  "lock_enter irq_save t s =
     (if irq_save then s\<lparr>trying := (trying s)(t := Some (irq s t)), irq := (irq s)(t := False)\<rparr>
      else s\<lparr>trying := (trying s)(t := Some False)\<rparr>)"

definition compare_exchange :: "nat \<Rightarrow> lock_state \<Rightarrow> lock_state" where
  "compare_exchange t s =
     (case trying s t of
        None \<Rightarrow> s
      | Some irq_was_enabled \<Rightarrow>
          if locked s then s
          else s\<lparr>locked := True, trying := (trying s)(t := None),
                 guards := (guards s)(t := irq_was_enabled # guards s t)\<rparr>)"

definition guard_drop :: "nat \<Rightarrow> lock_state \<Rightarrow> lock_state" where
  "guard_drop t s =
     (case guards s t of
        [] \<Rightarrow> s
      | irq_was_enabled # gs \<Rightarrow>
          s\<lparr>locked := False, guards := (guards s)(t := gs),
            irq := (if irq_was_enabled then (irq s)(t := True) else irq s)\<rparr>)"

text \<open>A processor inside \<^verbatim>\<open>lock\<close> does nothing else until the exchange succeeds. Only the processor itself changes its flag.\<close>

inductive lock_step :: "bool \<Rightarrow> lock_state \<Rightarrow> lock_state \<Rightarrow> bool" for irq_save where
  enter: "trying s t = None \<Longrightarrow> lock_step irq_save s (lock_enter irq_save t s)"
| attempt: "trying s t \<noteq> None \<Longrightarrow> lock_step irq_save s (compare_exchange t s)"
| spurious: "trying s t \<noteq> None \<Longrightarrow> lock_step irq_save s s"
| release: "trying s t = None \<Longrightarrow> guards s t \<noteq> [] \<Longrightarrow> lock_step irq_save s (guard_drop t s)"

abbreviation lock_steps :: "bool \<Rightarrow> lock_state \<Rightarrow> lock_state \<Rightarrow> bool" where
  "lock_steps irq_save \<equiv> (lock_step irq_save)\<^sup>*\<^sup>*"

inductive_cases lock_stepE: "lock_step irq_save s s'"

section \<open>Mutual exclusion\<close>

definition held_by :: "nat \<Rightarrow> lock_state \<Rightarrow> bool" where
  "held_by t s \<longleftrightarrow> length (guards s t) = 1 \<and> (\<forall>u. u \<noteq> t \<longrightarrow> guards s u = [])"

definition lock_inv :: "bool \<Rightarrow> lock_state \<Rightarrow> bool" where
  "lock_inv irq_save s \<longleftrightarrow>
     (if locked s then \<exists>t. held_by t s else \<forall>t. guards s t = []) \<and>
     (irq_save \<longrightarrow> (\<forall>t. guards s t \<noteq> [] \<or> trying s t \<noteq> None \<longrightarrow> \<not> irq s t))"

lemma lock_inv_new: "lock_inv irq_save (mutex_new flags)"
  by (simp add: lock_inv_def mutex_new_def)

lemma lock_inv_step:
  assumes "lock_step irq_save s s'" and inv: "lock_inv irq_save s"
  shows "lock_inv irq_save s'"
  using assms(1)
proof (cases rule: lock_step.cases)
  case (enter t)
  then show ?thesis using inv by (auto simp: lock_inv_def lock_enter_def held_by_def)
next
  case (attempt t)
  show ?thesis
  proof (cases "locked s")
    case True
    then show ?thesis using inv attempt by (auto simp: compare_exchange_def split: option.split)
  next
    case False
    then have "\<forall>u. guards s u = []" using inv by (simp add: lock_inv_def)
    then show ?thesis using inv attempt False
      by (auto simp: lock_inv_def compare_exchange_def held_by_def split: option.split)
  qed
next
  case spurious
  then show ?thesis using inv by simp
next
  case (release t)
  then obtain w gs where g: "guards s t = w # gs" by (cases "guards s t") auto
  then have "locked s" using inv by (auto simp: lock_inv_def split: if_splits)
  then obtain h where h: "held_by h s" using inv by (auto simp: lock_inv_def)
  then have "h = t" using g by (metis held_by_def list.discI)
  then have "held_by t s" using h by simp
  then have "gs = []" "\<forall>u. u \<noteq> t \<longrightarrow> guards s u = []" using g by (auto simp: held_by_def)
  then show ?thesis using inv release g by (auto simp: lock_inv_def guard_drop_def)
qed

lemma lock_inv_steps: "lock_steps irq_save s s' \<Longrightarrow> lock_inv irq_save s \<Longrightarrow> lock_inv irq_save s'"
  by (induction rule: rtranclp_induct) (auto intro: lock_inv_step)



section \<open>Locking twice\<close>

lemma relock_step:
  assumes "lock_step irq_save s s'" and "locked s" "guards s t \<noteq> []" "trying s t \<noteq> None"
    and others: "\<forall>u. u \<noteq> t \<longrightarrow> guards s u = []"
  shows "locked s' \<and> guards s' = guards s \<and> trying s' t = trying s t"
  using assms(1)
proof (cases rule: lock_step.cases)
  case (enter u)
  then show ?thesis using assms by (cases "u = t") (auto simp: lock_enter_def)
next
  case (attempt u)
  then show ?thesis using assms by (auto simp: compare_exchange_def split: option.split)
next
  case spurious
  then show ?thesis using assms by simp
next
  case (release u)
  then show ?thesis using assms by (cases "u = t") auto
qed

text \<open>
  C40. The locks are not reentrant: once a processor that holds the lock calls \<^verbatim>\<open>lock\<close> on it again, the lock stays taken
  for ever. That processor never leaves \<^verbatim>\<open>lock\<close>, and no other processor ever gets a guard.
\<close>

theorem relock_deadlock:
  assumes run: "lock_steps irq_save (mutex_new flags) s" and hold: "guards s t \<noteq> []" and again: "trying s t \<noteq> None"
    and later: "lock_steps irq_save s s'"
  shows "locked s' \<and> trying s' t = trying s t \<and> guards s' t = guards s t \<and> (\<forall>u. u \<noteq> t \<longrightarrow> guards s' u = [])"
proof -
  have inv: "lock_inv irq_save s" using lock_inv_steps [OF run lock_inv_new] .
  then have l: "locked s" using hold by (auto simp: lock_inv_def split: if_splits)
  then have others: "\<forall>u. u \<noteq> t \<longrightarrow> guards s u = []" using inv hold unfolding lock_inv_def held_by_def by metis
  have "locked s' \<and> guards s' = guards s \<and> trying s' t = trying s t"
    using later
  proof (induction rule: rtranclp_induct)
    case base
    then show ?case using l by simp
  next
    case (step y z)
    then show ?case using relock_step [OF step.hyps(2), of t] hold again others by simp
  qed
  then show ?thesis using others by simp
qed

theorem relock_deadlock_witness:
  "let s = lock_enter False 0 (compare_exchange 0 (lock_enter False 0 (mutex_new (\<lambda>_. False))));
       s' = compare_exchange 0 (compare_exchange 1 (lock_enter False 1 s))
   in locked s' \<and> trying s' 0 = trying s 0 \<and> guards s' 1 = []"
proof -
  let ?n = "mutex_new (\<lambda>_. False)"
  let ?s1 = "compare_exchange 0 (lock_enter False 0 ?n)"
  let ?s = "lock_enter False 0 ?s1"
  let ?s2 = "compare_exchange 1 (lock_enter False 1 ?s)"
  have "lock_step False ?n (lock_enter False 0 ?n)" by (rule lock_step.enter) (simp add: mutex_new_def)
  moreover have "lock_step False (lock_enter False 0 ?n) ?s1"
    by (rule lock_step.attempt) (simp add: mutex_new_def lock_enter_def)
  moreover have "lock_step False ?s1 ?s"
    by (rule lock_step.enter) (simp add: mutex_new_def lock_enter_def compare_exchange_def)
  ultimately have run: "lock_steps False ?n ?s" by (meson converse_rtranclp_into_rtranclp rtranclp.rtrancl_refl)
  have "lock_step False ?s (lock_enter False 1 ?s)"
    by (rule lock_step.enter) (simp add: mutex_new_def lock_enter_def compare_exchange_def)
  moreover have "lock_step False (lock_enter False 1 ?s) ?s2"
    by (rule lock_step.attempt) (simp add: mutex_new_def lock_enter_def compare_exchange_def)
  moreover have "lock_step False ?s2 (compare_exchange 0 ?s2)"
    by (rule lock_step.attempt) (simp add: mutex_new_def lock_enter_def compare_exchange_def)
  ultimately have later: "lock_steps False ?s (compare_exchange 0 ?s2)"
    by (meson converse_rtranclp_into_rtranclp rtranclp.rtrancl_refl)
  have h: "guards ?s 0 \<noteq> []" "trying ?s 0 \<noteq> None"
    by (simp_all add: mutex_new_def lock_enter_def compare_exchange_def)
  show ?thesis using relock_deadlock [OF run h later] by (simp add: Let_def)
qed

end
