(* ===== verification/Entry_Code.thy ===== *)
theory Entry_Code
  imports Syscalls_Proc
begin

text \<open>
  The assembly of the kernel: the context switch and the trampolines of \<^verbatim>\<open>src/kernel/src/process.rs\<close>, the entry of system
  calls in \<^verbatim>\<open>syscall.rs\<close>, the interrupt stubs of \<^verbatim>\<open>interrupts.rs\<close> and the jump to high addresses of \<^verbatim>\<open>main.rs\<close>, as lists of
  instructions with the meaning the processor gives them. The Rust functions they call are parameters.
\<close>

section \<open>The processor\<close>

datatype reg = RAX | RBX | RCX | RDX | RSI | RDI | RBP | RSP | R8 | R9 | R10 | R11 | R12 | R13 | R14 | R15

record processor =
  c_regs :: "reg \<Rightarrow> u64"
  c_ram :: pmem
  c_rip :: u64
  c_rflags :: u64
  c_cs :: u64
  c_ss :: u64
  c_ds :: u64
  c_es :: u64
  c_msr :: "u32 \<Rightarrow> u64"
  c_cr2 :: u64
  c_cr3 :: u64
  c_ports :: "(u16 \<times> u8) list"

text \<open>Model-specific registers, by number; \<^verbatim>\<open>wrmsr\<close> takes the value in two halves.\<close>

definition MSR_EFER :: u32 where "MSR_EFER = 0xC0000080"
definition MSR_STAR :: u32 where "MSR_STAR = 0xC0000081"
definition MSR_LSTAR :: u32 where "MSR_LSTAR = 0xC0000082"
definition MSR_FMASK :: u32 where "MSR_FMASK = 0xC0000084"
definition MSR_GS_BASE :: u32 where "MSR_GS_BASE = 0xC0000101"
definition MSR_KERNEL_GS_BASE :: u32 where "MSR_KERNEL_GS_BASE = 0xC0000102"

definition wrmsr :: "u32 \<Rightarrow> u32 \<Rightarrow> u32 \<Rightarrow> processor \<Rightarrow> processor" where
  "wrmsr ecx eax edx c = c\<lparr>c_msr := (c_msr c)(ecx := push_bit 32 (ucast edx) OR ucast eax)\<rparr>"

definition rdmsr :: "u32 \<Rightarrow> processor \<Rightarrow> u32 \<times> u32" where
  "rdmsr ecx c = (ucast (c_msr c ecx), ucast (drop_bit 32 (c_msr c ecx)))"

text \<open>Loads and stores of the kernel's own memory go through the direct map.\<close>

definition load64 :: "processor \<Rightarrow> u64 \<Rightarrow> u64" where
  "load64 c a = read64 (c_ram c) (deref_phys a)"

definition store64 :: "u64 \<Rightarrow> u64 \<Rightarrow> processor \<Rightarrow> processor" where
  "store64 a v c = c\<lparr>c_ram := write64 (c_ram c) (deref_phys a) v\<rparr>"

definition set_reg :: "reg \<Rightarrow> u64 \<Rightarrow> processor \<Rightarrow> processor" where
  "set_reg r v c = c\<lparr>c_regs := (c_regs c)(r := v)\<rparr>"

definition push64 :: "u64 \<Rightarrow> processor \<Rightarrow> processor" where
  "push64 v c = (let sp = c_regs c RSP - 8 in store64 sp v (set_reg RSP sp c))"

definition pop64 :: "processor \<Rightarrow> u64 \<times> processor" where
  "pop64 c = (let sp = c_regs c RSP in (load64 c sp, set_reg RSP (sp + 8) c))"

text \<open>The instructions of the kernel's assembly; \<open>Call\<close> names the Rust function it calls.\<close>

datatype instr =
    Push reg
  | PushGs u64
  | Pop reg
  | Mov reg reg
  | MovImm reg u64
  | MovAx u64
  | Load reg reg u64
  | Store reg u64 reg
  | LoadGs reg u64
  | StoreGs u64 reg
  | AndImm reg u64
  | AddImm reg u64
  | SubImm reg u64
  | AddAbs reg u64
  | MovCr2 reg
  | MovCr3 reg
  | MovDs
  | MovEs
  | Swapgs
  | Call string
  | RetQ
  | Iretq
  | Sysretq

text \<open>A called function, with the return address that its call pushes.\<close>

type_synonym env = "string \<Rightarrow> u64 \<times> (processor \<Rightarrow> processor)"

text \<open>
  \<^verbatim>\<open>sysretq\<close> takes the selectors from the upper part of the STAR register and clears the flags it does not accept;
  \<^verbatim>\<open>syscall\<close> takes them from the lower part, saves the flags and the next address, and goes to LSTAR. Without the
  enable bit it is an invalid instruction.
\<close>

definition sysret_flags :: "u64 \<Rightarrow> u64" where
  "sysret_flags f = (f AND 0x3C7FD7) OR 2"

definition syscall_insn :: "u64 \<Rightarrow> processor \<Rightarrow> processor option" where
  "syscall_insn next_ip c =
     (if c_msr c MSR_EFER AND 1 = 0 then None
      else let star = drop_bit 32 (c_msr c MSR_STAR) AND 0xFFFF
           in Some ((set_reg R11 (c_rflags c) (set_reg RCX next_ip c))
                \<lparr>c_rip := c_msr c MSR_LSTAR, c_rflags := c_rflags c AND NOT (c_msr c MSR_FMASK),
                  c_cs := star AND 0xFFFC, c_ss := star + 8\<rparr>))"

fun exec :: "env \<Rightarrow> instr \<Rightarrow> processor \<Rightarrow> processor" where
  "exec env (Push r) c = push64 (c_regs c r) c"
| "exec env (PushGs d) c = push64 (load64 c (c_msr c MSR_GS_BASE + d)) c"
| "exec env (Pop r) c = (let (v, c) = pop64 c in set_reg r v c)"
| "exec env (Mov r q) c = set_reg r (c_regs c q) c"
| "exec env (MovImm r v) c = set_reg r v c"
| "exec env (MovAx v) c = set_reg RAX ((c_regs c RAX AND NOT 0xFFFF) OR v) c"
| "exec env (Load r b d) c = set_reg r (load64 c (c_regs c b + d)) c"
| "exec env (Store b d r) c = store64 (c_regs c b + d) (c_regs c r) c"
| "exec env (LoadGs r d) c = set_reg r (load64 c (c_msr c MSR_GS_BASE + d)) c"
| "exec env (StoreGs d r) c = store64 (c_msr c MSR_GS_BASE + d) (c_regs c r) c"
| "exec env (AndImm r v) c = set_reg r (c_regs c r AND v) c"
| "exec env (AddImm r v) c = set_reg r (c_regs c r + v) c"
| "exec env (SubImm r v) c = set_reg r (c_regs c r - v) c"
| "exec env (AddAbs r a) c = set_reg r (c_regs c r + load64 c a) c"
| "exec env (MovCr2 r) c = set_reg r (c_cr2 c) c"
| "exec env (MovCr3 r) c = set_reg r (c_cr3 c) c"
| "exec env MovDs c = c\<lparr>c_ds := c_regs c RAX AND 0xFFFF\<rparr>"
| "exec env MovEs c = c\<lparr>c_es := c_regs c RAX AND 0xFFFF\<rparr>"
| "exec env Swapgs c = c\<lparr>c_msr := (c_msr c)(MSR_GS_BASE := c_msr c MSR_KERNEL_GS_BASE, MSR_KERNEL_GS_BASE := c_msr c MSR_GS_BASE)\<rparr>"
| "exec env (Call f) c = (let (ra, fn) = env f; c = fn (push64 ra c) in set_reg RSP (c_regs c RSP + 8) c)"
| "exec env RetQ c = (let (v, c) = pop64 c in c\<lparr>c_rip := v\<rparr>)"
| "exec env Iretq c =
     (let (ip, c) = pop64 c; (s, c) = pop64 c; (fl, c) = pop64 c; (sp, c) = pop64 c; (st, c) = pop64 c
      in (set_reg RSP sp c)\<lparr>c_rip := ip, c_cs := s, c_rflags := fl, c_ss := st\<rparr>)"
| "exec env Sysretq c =
     (let star = drop_bit 48 (c_msr c MSR_STAR)
      in c\<lparr>c_rip := c_regs c RCX, c_rflags := sysret_flags (c_regs c R11), c_cs := (star + 16) OR 3, c_ss := (star + 8) OR 3\<rparr>)"

definition run :: "env \<Rightarrow> instr list \<Rightarrow> processor \<Rightarrow> processor" where
  "run env code c = fold (exec env) code c"

text \<open>
  An interrupt: the processor takes the stack of the task state segment, aligns it and pushes where it was, with an
  error code for some exceptions.
\<close>

definition interrupt :: "u64 \<Rightarrow> u64 option \<Rightarrow> processor \<Rightarrow> processor" where
  "interrupt stack err c =
     (let c' = push64 (c_rip c) (push64 (c_cs c) (push64 (c_rflags c) (push64 (c_regs c RSP) (push64 (c_ss c)
                 (set_reg RSP (stack AND NOT 0xF) c)))))
      in case err of None \<Rightarrow> c' | Some e \<Rightarrow> push64 e c')"

section \<open>Enabling system calls\<close>

definition wrmsr64 :: "u32 \<Rightarrow> u64 \<Rightarrow> processor \<Rightarrow> processor" where
  "wrmsr64 ecx v c = wrmsr ecx (ucast v) (ucast (drop_bit 32 v)) c"

definition STAR_VALUE :: u64 where
  "STAR_VALUE = push_bit 32 0x0008 OR push_bit 48 0x0020"

definition enable_syscall_msr :: "u64 \<Rightarrow> processor \<Rightarrow> processor" where
  "enable_syscall_msr entry c =
     (let (eax, edx) = rdmsr MSR_EFER c;
          efer = (push_bit 32 (ucast edx) OR ucast eax) OR 1;
          c = wrmsr64 MSR_EFER efer c;
          c = wrmsr64 MSR_STAR STAR_VALUE c;
          c = wrmsr64 MSR_LSTAR entry c;
          fmask = (push_bit 9 1 OR push_bit 10 1 :: u64)
      in wrmsr MSR_FMASK (ucast fmask) 0 c)"

text \<open>\<^verbatim>\<open>init\<close> of \<^verbatim>\<open>syscall.rs\<close>; loading the null selector into GS leaves no trace, because the base is set after it.\<close>

definition syscall_init :: "u64 \<Rightarrow> u64 \<Rightarrow> processor \<Rightarrow> processor" where
  "syscall_init entry gs_base c =
     wrmsr64 MSR_KERNEL_GS_BASE gs_base (wrmsr64 MSR_GS_BASE gs_base (enable_syscall_msr entry c))"

definition update_kernel_rsp :: "u64 \<Rightarrow> u64 \<Rightarrow> processor \<Rightarrow> processor" where
  "update_kernel_rsp gs_scratch kstack_top c = store64 gs_scratch kstack_top c"

section \<open>The assembly of the kernel\<close>

definition do_switch :: "instr list" where
  "do_switch =
     [Store RDI 0x00 RBX, Store RDI 0x08 RBP, Store RDI 0x10 R12, Store RDI 0x18 R13, Store RDI 0x20 R14,
      Store RDI 0x28 R15, Store RDI 0x30 RSP,
      Load RSP RSI 0x30, Load R15 RSI 0x28, Load R14 RSI 0x20, Load R13 RSI 0x18, Load R12 RSI 0x10,
      Load RBP RSI 0x08, Load RBX RSI 0x00, RetQ]"

definition iretq_trampoline :: "instr list" where
  "iretq_trampoline = [MovAx 0x2B, MovDs, MovEs, Iretq]"

definition fork_child_trampoline :: "instr list" where
  "fork_child_trampoline =
     map Pop [R15, R14, R13, R12, RBP, RBX, R9, R8, R10, RDX, RSI, RDI, RAX] @
     map Push [RAX, RCX, RDX, RSI, RDI, R8, R9, R10, R11] @
     [SubImm RSP 8, Call ''setup_child_fs'', AddImm RSP 8] @
     map Pop [R11, R10, R9, R8, RDI, RSI, RDX, RCX, RAX] @
     [Load RCX RSP 16, Load R11 RSP 8, Load RSP RSP 0, Swapgs, Sysretq]"

definition syscall_entry :: "instr list" where
  "syscall_entry =
     [Swapgs, StoreGs 8 RSP, LoadGs RSP 0, Push RCX, Push R11, PushGs 8] @
     map Push [RAX, RDI, RSI, RDX, R10, R8, R9, RBX, RBP, R12, R13, R14, R15] @
     [Mov RBP RSP, AndImm RSP (- 16), Mov RDI RBP, Call ''syscall_handler'', Store RBP 0x60 RAX, Mov RSP RBP] @
     map Pop [R15, R14, R13, R12, RBP, RBX, R9, R8, R10, RDX, RSI, RDI, RAX] @
     [Load RCX RSP 16, Load R11 RSP 8, Load RSP RSP 0, Swapgs, Sysretq]"

definition breakpoint_stub :: "instr list" where
  "breakpoint_stub =
     map Push [RAX, RBX, RCX, RDX, RSI, RDI, RBP, R8, R9, R10, R11, R12, R13, R14, R15] @
     [Mov RBP RSP, AndImm RSP (- 16), Call ''breakpoint_inner'', Mov RSP RBP] @
     map Pop [R15, R14, R13, R12, R11, R10, R9, R8, RBP, RDI, RSI, RDX, RCX, RBX, RAX] @ [Iretq]"

definition page_fault_stub :: "instr list" where
  "page_fault_stub =
     map Push [RAX, RBX, RCX, RDX, RSI, RDI, RBP, R8, R9, R10, R11, R12, R13, R14, R15] @
     [MovCr2 RDI, Load RSI RSP (15 * 8), Load RDX RSP (16 * 8), SubImm RSP 8, Call ''page_fault_inner'', AddImm RSP 8] @
     map Pop [R15, R14, R13, R12, R11, R10, R9, R8, RBP, RDI, RSI, RDX, RCX, RBX, RAX] @ [AddImm RSP 8, Iretq]"

definition timer_stub :: "instr list" where
  "timer_stub =
     map Push [RAX, RBX, RCX, RDX, RSI, RDI, R8, R9, R10, R11, R12, R13, R14, R15, RBP] @
     [Mov RBP RSP, AndImm RSP (- 16), Call ''timer_inner'', Mov RSP RBP, AndImm RSP (- 16), Call ''preempt_yield'',
      Mov RSP RBP] @
     map Pop [RBP, R15, R14, R13, R12, R11, R10, R9, R8, RDI, RSI, RDX, RCX, RBX, RAX] @ [Iretq]"

text \<open>The stub of general protection faults does not return; this is the code up to the call.\<close>

definition gp_fault_stub :: "instr list" where
  "gp_fault_stub =
     map Push [RAX, RBX, RCX, RDX, RSI, RDI, RBP, R8, R9, R10, R11, R12, R13, R14, R15] @
     [Load RDI RSP (15 * 8), Load RSI RSP (16 * 8), Load RDX RSP (17 * 8), Load RCX RSP (19 * 8),
      Mov RBP RSP, AndImm RSP (- 16), Call ''gp_fault_inner'']"

text \<open>The code that moves the kernel to its high addresses, given the address of \<^verbatim>\<open>KERNEL_VIRT_BASE_STORAGE\<close>.\<close>

definition jump_to_higher_half :: "u64 \<Rightarrow> instr list" where
  "jump_to_higher_half virt_base =
     [Load RAX RSP 0, AddAbs RAX virt_base, Store RSP 0 RAX, Mov RAX RSP, AddAbs RAX virt_base, Mov RSP RAX,
      Mov RAX RBP, AddAbs RAX virt_base, Mov RBP RAX, RetQ]"

end
