(* ===== verification/Entry_Spec.thy ===== *)
theory Entry_Spec
  imports Entry_Code
begin

text \<open>
  What the assembly of the kernel promises, whatever the Rust functions do that follow the calling convention:
  interrupt stubs are transparent, a context switch resumes the saved context, a system call hands the user's
  registers to the handler and returns with those of the frame, and a forked child starts with the registers of its
  parent. The lemmas on pushing and popping a list of registers carry all of them.
\<close>

section \<open>Words on a stack\<close>

primrec load_words :: "pmem \<Rightarrow> u64 \<Rightarrow> nat \<Rightarrow> u64 list" where
  "load_words m a 0 = []"
| "load_words m a (Suc n) = read64 m a # load_words m (a + 8) n"

primrec push_words :: "pmem \<Rightarrow> u64 \<Rightarrow> u64 list \<Rightarrow> pmem" where
  "push_words m a [] = m"
| "push_words m a (v # vs) = push_words (write64 m (a - 8) v) (a - 8) vs"

lemma unat_opposite:
  fixes a b :: u64
  assumes "a \<noteq> b"
  shows "unat (b - a) + unat (a - b) = 2 ^ 64"
proof -
  let ?s = "unat (b - a) + unat (a - b)"
  have "unat ((b - a) + (a - b)) = ?s mod 2 ^ 64" by (simp only: unat_word_ariths) simp
  then have "2 ^ 64 dvd ?s" by (simp add: dvd_eq_mod_eq_0)
  then obtain q where q: "?s = 2 ^ 64 * q" by blast
  have "unat (b - a) < 2 ^ 64" by (rule order.strict_trans2 [OF unsigned_less]) simp
  moreover have "unat (a - b) < 2 ^ 64" by (rule order.strict_trans2 [OF unsigned_less]) simp
  ultimately have "q < 2" using q by simp
  moreover have "0 < unat (b - a)" using assms by (simp add: unat_gt_0)
  then have "q \<noteq> 0" using q by (intro notI) simp
  ultimately have "q = 1" by simp
  then show ?thesis using q by simp
qed

lemma read64_write64_off:
  assumes "8 \<le> unat (b - a)" and "8 \<le> unat (a - b)"
  shows "read64 (write64 m a v) b = read64 m b"
proof -
  have "load_bytes (write64 m a v) b 8 = load_bytes m b 8"
  proof (rule load_bytes_cong)
    fix k :: nat assume k: "k < 8"
    have e: "b + of_nat k - a = (b - a) + of_nat k" by simp
    have "a \<noteq> b" using assms(1) by auto
    then have "unat ((b - a) + of_nat k) = unat (b - a) + k"
      using unat_opposite [of a b] assms k by (subst unat_add_exact) (simp_all add: unat_of_nat)
    then have "8 \<le> unat (b + of_nat k - a)" using assms(1) unfolding e by linarith
    then show "write64 m a v (b + of_nat k) = m (b + of_nat k)"
      unfolding write64_def store_bytes_def uint_less_int length_to_le_bytes by (simp only: not_less [symmetric] if_False)
  qed
  then show ?thesis by (simp add: read64_def)
qed


lemma length_load_words [simp]: "length (load_words m a n) = n"
  by (induction n arbitrary: a) auto

lemma load_words_nth: "i < n \<Longrightarrow> load_words m a n ! i = read64 m (a + 8 * of_nat i)"
  by (induction n arbitrary: a i) (auto simp: nth_Cons' algebra_simps)

lemma load_words_append: "load_words m a (i + j) = load_words m a i @ load_words m (a + 8 * of_nat i) j"
  by (induction i arbitrary: a) (auto simp: algebra_simps)

text \<open>A word is not affected by pushes below it.\<close>

lemma read64_push_words:
  assumes "unat (b - a) + 8 + 8 * length vs \<le> 2 ^ 64"
  shows "read64 (push_words m a vs) b = read64 m b"
  using assms
proof (induction vs arbitrary: m a)
  case (Cons v vs)
  have u: "unat (b - (a - 8)) = unat (b - a) + 8"
  proof -
    have e: "b - (a - 8) = (b - a) + 8" by simp
    show ?thesis using Cons.prems unfolding e by (subst unat_add_exact) auto
  qed
  have "read64 (push_words (write64 m (a - 8) v) (a - 8) vs) b = read64 (write64 m (a - 8) v) b"
    by (rule Cons.IH) (use Cons.prems u in simp)
  also have "\<dots> = read64 m b"
  proof (rule read64_write64_off)
    show "8 \<le> unat (b - (a - 8))" using u by simp
    have "a - 8 \<noteq> b" using u by auto
    then show "8 \<le> unat (a - 8 - b)" using unat_opposite [of "a - 8" b] Cons.prems u by simp
  qed
  finally show ?case by simp
qed simp

lemma load_push_words:
  assumes "8 * length vs < 2 ^ 64"
  shows "load_words (push_words m a vs) (a - 8 * of_nat (length vs)) (length vs) = rev vs"
  using assms
proof (induction vs arbitrary: m a)
  case (Cons v vs)
  let ?m = "push_words (write64 m (a - 8) v) (a - 8) vs"
  have e: "a - 8 * of_nat (length (v # vs)) = (a - 8) - 8 * of_nat (length vs)" by (simp add: algebra_simps)
  have "load_words ?m ((a - 8) - 8 * of_nat (length vs)) (length vs + 1) =
      rev vs @ load_words ?m (a - 8) 1"
    using Cons.IH [of "write64 m (a - 8) v" "a - 8"] Cons.prems
    by (subst load_words_append) (simp add: algebra_simps)
  moreover have "read64 ?m (a - 8) = v"
    using read64_push_words [of "a - 8" "a - 8" vs "write64 m (a - 8) v"] Cons.prems by simp
  ultimately show ?case unfolding e by simp
qed simp

lemma load_words_above:
  assumes "8 * n + 8 * length vs \<le> 2 ^ 64"
  shows "load_words (push_words m a vs) a n = load_words m a n"
proof (rule nth_equalityI)
  fix i assume "i < length (load_words (push_words m a vs) a n)"
  then have i: "i < n" by simp
  have "unat (8 * of_nat i :: u64) = 8 * i"
    using assms i by (simp add: unat_word_ariths unat_of_nat)
  then have "unat (a + 8 * of_nat i - a) + 8 + 8 * length vs \<le> 2 ^ 64" using assms i by simp
  from read64_push_words [OF this] show "load_words (push_words m a vs) a n ! i = load_words m a n ! i"
    using i by (simp add: load_words_nth)
qed simp

section \<open>Saving and restoring registers\<close>

lemma deref_phys_off:
  assumes "unat KERNEL_VIRT_BASE \<le> unat a" and "unat KERNEL_VIRT_BASE \<le> unat (a + d)"
  shows "deref_phys (a + d) = deref_phys a + d"
  using assms by (simp add: deref_phys_def word_le_nat_alt)

lemma run_simps [simp]:
  "run env [] c = c" "run env (i # is) c = run env is (exec env i c)" "run env (p @ q) c = run env q (run env p c)"
  by (simp_all add: run_def)

lemma push64_eq:
  "push64 v c = c\<lparr>c_regs := (c_regs c)(RSP := c_regs c RSP - 8), c_ram := write64 (c_ram c) (deref_phys (c_regs c RSP - 8)) v\<rparr>"
  by (simp add: push64_def store64_def set_reg_def Let_def)

lemma fold_push64:
  assumes "unat KERNEL_VIRT_BASE + 8 * length vs \<le> unat (c_regs c RSP)"
  shows "fold push64 vs c = c\<lparr>c_regs := (c_regs c)(RSP := c_regs c RSP - 8 * of_nat (length vs)),
           c_ram := push_words (c_ram c) (deref_phys (c_regs c RSP)) vs\<rparr>"
  using assms
proof (induction vs arbitrary: c)
  case (Cons v vs)
  let ?sp = "c_regs c RSP"
  have u: "unat (?sp - 8) = unat ?sp - 8" using Cons.prems by (subst unat_sub_exact) (auto simp: word_le_nat_alt)
  have d: "deref_phys (?sp - 8) = deref_phys ?sp - 8"
    using deref_phys_off [of ?sp "- 8"] Cons.prems u by simp
  have "fold push64 (v # vs) c = fold push64 vs (push64 v c)" by simp
  also have "\<dots> = (push64 v c)\<lparr>c_regs := (c_regs (push64 v c))(RSP := c_regs (push64 v c) RSP - 8 * of_nat (length vs)),
           c_ram := push_words (c_ram (push64 v c)) (deref_phys (c_regs (push64 v c) RSP)) vs\<rparr>"
    by (rule Cons.IH) (use Cons.prems u in \<open>simp add: push64_eq\<close>)
  also have "\<dots> = c\<lparr>c_regs := (c_regs c)(RSP := ?sp - 8 * of_nat (length (v # vs))),
           c_ram := push_words (c_ram c) (deref_phys ?sp) (v # vs)\<rparr>"
    by (simp add: push64_eq d diff_diff_eq distrib_left)
  finally show ?case .
qed (simp add: deref_phys_def)

lemma run_pushes_fold: "RSP \<notin> set rs \<Longrightarrow> run env (map Push rs) c = fold push64 (map (c_regs c) rs) c"
proof (induction rs arbitrary: c)
  case (Cons r rs)
  have m: "map (c_regs (push64 (c_regs c r) c)) rs = map (c_regs c) rs" using Cons.prems by (auto simp: push64_eq)
  have "run env (map Push (r # rs)) c = run env (map Push rs) (push64 (c_regs c r) c)" by simp
  also have "\<dots> = fold push64 (map (c_regs c) rs) (push64 (c_regs c r) c)"
    unfolding m [symmetric] by (rule Cons.IH) (use Cons.prems in simp)
  finally show ?case by simp
qed simp

lemma run_pushes:
  assumes "RSP \<notin> set rs" and "unat KERNEL_VIRT_BASE + 8 * length rs \<le> unat (c_regs c RSP)"
  shows "run env (map Push rs) c = c\<lparr>c_regs := (c_regs c)(RSP := c_regs c RSP - 8 * of_nat (length rs)),
           c_ram := push_words (c_ram c) (deref_phys (c_regs c RSP)) (map (c_regs c) rs)\<rparr>"
  using fold_push64 [of "map (c_regs c) rs" c] run_pushes_fold [OF assms(1)] assms(2) by simp

primrec set_regs :: "reg list \<Rightarrow> u64 list \<Rightarrow> (reg \<Rightarrow> u64) \<Rightarrow> reg \<Rightarrow> u64" where
  "set_regs [] ws f = f"
| "set_regs (r # rs) ws f = set_regs rs (tl ws) (f(r := hd ws))"

lemma set_regs_other: "r \<notin> set rs \<Longrightarrow> set_regs rs ws f r = f r"
  by (induction rs arbitrary: ws f) auto

lemma set_regs_nth: "distinct rs \<Longrightarrow> i < length rs \<Longrightarrow> length ws = length rs \<Longrightarrow> set_regs rs ws f (rs ! i) = ws ! i"
proof (induction rs arbitrary: ws f i)
  case (Cons r rs)
  then show ?case by (cases ws; cases i) (auto simp: set_regs_other)
qed simp

lemma set_regs_rev_map:
  assumes "distinct rs"
  shows "set_regs (rev rs) (rev (map g rs)) f = (\<lambda>r. if r \<in> set rs then g r else f r)"
proof
  fix r
  show "set_regs (rev rs) (rev (map g rs)) f r = (if r \<in> set rs then g r else f r)"
  proof (cases "r \<in> set rs")
    case True
    then obtain i where i: "i < length (rev rs)" "rev rs ! i = r" by (metis in_set_conv_nth set_rev)
    have "set_regs (rev rs) (rev (map g rs)) f (rev rs ! i) = rev (map g rs) ! i"
      by (rule set_regs_nth) (use assms i in auto)
    also have "\<dots> = g (rev rs ! i)" using i(1) by (simp add: rev_map)
    finally show ?thesis using True i(2) by simp
  qed (simp add: set_regs_other)
qed

lemma set_regs_twist: "q \<notin> set rs \<Longrightarrow> (set_regs rs ws (f(q := x)))(q := y) = (set_regs rs ws f)(q := y)"
proof (induction rs arbitrary: ws f)
  case (Cons r rs)
  have "f(q := x, r := hd ws) = (f(r := hd ws))(q := x)" using Cons.prems by (intro fun_upd_twist) auto
  moreover have "q \<notin> set rs" using Cons.prems by simp
  note Cons.IH [OF this, of "tl ws" "f(r := hd ws)"]
  ultimately show ?case by (simp only: set_regs.simps)
qed simp

lemma run_pops:
  assumes "RSP \<notin> set rs" and "unat KERNEL_VIRT_BASE \<le> unat (c_regs c RSP)" and "unat (c_regs c RSP) + 8 * length rs < 2 ^ 64"
  shows "run env (map Pop rs) c = c\<lparr>c_regs :=
     (set_regs rs (load_words (c_ram c) (deref_phys (c_regs c RSP)) (length rs)) (c_regs c))
       (RSP := c_regs c RSP + 8 * of_nat (length rs))\<rparr>"
  using assms
proof (induction rs arbitrary: c)
  case (Cons r rs)
  let ?sp = "c_regs c RSP"
  define c' where "c' = exec env (Pop r) c"
  have u: "unat (?sp + 8) = unat ?sp + 8" using Cons.prems by (subst unat_add_exact) auto
  have d: "deref_phys (?sp + 8) = deref_phys ?sp + 8" using deref_phys_off [of ?sp 8] Cons.prems u by simp
  have c: "c' = c\<lparr>c_regs := (c_regs c)(r := read64 (c_ram c) (deref_phys ?sp), RSP := ?sp + 8)\<rparr>"
    using Cons.prems(1) by (auto simp: c'_def pop64_def load64_def set_reg_def Let_def fun_upd_twist)
  have tw: "(set_regs rs ws (f(RSP := x)))(RSP := y) = (set_regs rs ws f)(RSP := y)" for ws f x y
    using Cons.prems(1) set_regs_twist by simp
  have "run env (map Pop (r # rs)) c = run env (map Pop rs) c'" by (simp add: c'_def)
  also have "\<dots> = c'\<lparr>c_regs := (set_regs rs (load_words (c_ram c') (deref_phys (c_regs c' RSP)) (length rs)) (c_regs c'))
       (RSP := c_regs c' RSP + 8 * of_nat (length rs))\<rparr>"
    by (rule Cons.IH) (use Cons.prems u in \<open>simp_all add: c\<close>)
  also have "\<dots> = c\<lparr>c_regs := (set_regs (r # rs) (load_words (c_ram c) (deref_phys ?sp) (length (r # rs))) (c_regs c))
       (RSP := ?sp + 8 * of_nat (length (r # rs)))\<rparr>"
    by (simp add: c tw d distrib_left add.assoc)
  finally show ?case .
qed simp

section \<open>Calls from the stubs\<close>

text \<open>
  What a stub relies on in the Rust function it calls: the calling convention (the callee-saved registers and the
  stack pointer), and that the saved registers on the stack are still there afterwards.
\<close>

definition callee_saved :: "reg list" where
  "callee_saved = [RBX, RBP, RSP, R12, R13, R14, R15]"

definition well_behaved :: "u64 \<Rightarrow> nat \<Rightarrow> (processor \<Rightarrow> processor) \<Rightarrow> bool" where
  "well_behaved a n fn \<longleftrightarrow> (\<forall>c. (\<forall>r\<in>set callee_saved. c_regs (fn c) r = c_regs c r) \<and>
     load_words (c_ram (fn c)) (deref_phys a) n = load_words (c_ram c) (deref_phys a) n)"

lemma load_words_write_below:
  assumes "unat (a - b) + 8 * n < 2 ^ 64" and "8 \<le> unat (a - b)"
  shows "load_words (write64 m b v) a n = load_words m a n"
proof (rule nth_equalityI)
  fix i assume "i < length (load_words (write64 m b v) a n)"
  then have i: "i < n" by simp
  have e: "a + 8 * of_nat i - b = (a - b) + 8 * of_nat i" by simp
  have i8: "unat (8 * of_nat i :: u64) = 8 * i" using assms i by (simp add: unat_word_ariths unat_of_nat)
  have u: "unat (a + 8 * of_nat i - b) = unat (a - b) + 8 * i"
    unfolding e using assms i i8 by (subst unat_add_exact) auto
  then have "b \<noteq> a + 8 * of_nat i" using assms by auto
  then have "read64 (write64 m b v) (a + 8 * of_nat i) = read64 m (a + 8 * of_nat i)"
    using unat_opposite [of b "a + 8 * of_nat i"] u assms i by (intro read64_write64_off) auto
  then show "load_words (write64 m b v) a n ! i = load_words m a n ! i" using i by (simp add: load_words_nth)
qed simp

lemma unat_align16: "unat (a AND - 16 :: u64) = 16 * (unat a div 16)"
proof -
  have "(- 16 :: u64) = NOT (mask 4)" by (simp add: mask_eq_exp_minus_1)
  then have "unat (a AND - 16) = unat (a AND NOT (mask 4))" by (simp only:)
  then show ?thesis unfolding unat_and_not_mask by (simp add: minus_mod_eq_mult_div)
qed

text \<open>A call with the stack pointer anywhere in the 16 bytes below the saved registers.\<close>

lemma call_keeps:
  assumes ok: "well_behaved base n (snd (env f))"
    and sp: "unat (c_regs c RSP) \<le> unat base" "unat base \<le> unat (c_regs c RSP) + 16"
    and room: "unat KERNEL_VIRT_BASE + 32 \<le> unat base" "unat base + 8 * n < 2 ^ 64"
  defines "c' \<equiv> exec env (Call f) c"
  shows "\<forall>r\<in>set callee_saved. c_regs c' r = c_regs c r"
    and "load_words (c_ram c') (deref_phys base) n = load_words (c_ram c) (deref_phys base) n"
proof -
  obtain ra fn where e: "env f = (ra, fn)" by fastforce
  let ?sp = "c_regs c RSP" and ?c = "push64 ra c"
  have c': "c' = set_reg RSP (c_regs (fn ?c) RSP + 8) (fn ?c)" by (simp add: c'_def e Let_def)
  have ok': "\<forall>r\<in>set callee_saved. c_regs (fn ?c) r = c_regs ?c r"
    "load_words (c_ram (fn ?c)) (deref_phys base) n = load_words (c_ram ?c) (deref_phys base) n"
    using ok by (auto simp: well_behaved_def e)
  have "c_regs c' r = c_regs c r" if "r \<in> set callee_saved" for r
    using ok'(1) that by (cases "r = RSP") (auto simp: c' set_reg_def push64_eq callee_saved_def)
  then show "\<forall>r\<in>set callee_saved. c_regs c' r = c_regs c r" by blast
  have kv: "unat KERNEL_VIRT_BASE \<le> unat base" "unat KERNEL_VIRT_BASE + 16 \<le> unat ?sp" using sp room by auto
  have u8: "unat (?sp - 8) = unat ?sp - 8" using kv by (subst unat_sub_exact) (auto simp: word_le_nat_alt)
  have "unat KERNEL_VIRT_BASE \<le> unat (?sp - 8)" using u8 kv by linarith
  then have d: "deref_phys base - deref_phys (?sp - 8) = base - (?sp - 8)"
    using kv by (simp add: deref_phys_def word_le_nat_alt)
  have "unat (base - (?sp - 8)) = unat base - (unat ?sp - 8)"
    using u8 sp kv by (subst unat_sub_exact) (auto simp: word_le_nat_alt)
  then have "load_words (c_ram ?c) (deref_phys base) n = load_words (c_ram c) (deref_phys base) n"
    using load_words_write_below [of "deref_phys base" "deref_phys (?sp - 8)" n "c_ram c" ra] d sp room kv
    by (simp add: push64_eq)
  then show "load_words (c_ram c') (deref_phys base) n = load_words (c_ram c) (deref_phys base) n"
    using ok'(2) by (simp add: c' set_reg_def)
qed


section \<open>Interrupt stubs\<close>

text \<open>The state at the entry of the function that a stub calls.\<close>

definition at_call :: "env \<Rightarrow> string \<Rightarrow> instr list \<Rightarrow> processor \<Rightarrow> processor" where
  "at_call env f code c = push64 (fst (env f)) (run env (takeWhile (\<lambda>i. i \<noteq> Call f) code) c)"

text \<open>What the processor pushes, and that \<^verbatim>\<open>iretq\<close> takes it back.\<close>

definition iret_words :: "processor \<Rightarrow> u64 list" where
  "iret_words c = [c_rip c, c_cs c, c_rflags c, c_regs c RSP, c_ss c]"

definition resumed :: "processor \<Rightarrow> processor \<Rightarrow> bool" where
  "resumed c c' \<longleftrightarrow> c_regs c' = c_regs c \<and> c_rip c' = c_rip c \<and> c_cs c' = c_cs c \<and> c_rflags c' = c_rflags c \<and> c_ss c' = c_ss c"

lemma deref_phys_add:
  assumes "unat KERNEL_VIRT_BASE \<le> unat a" and "unat a + n < 2 ^ 64"
  shows "deref_phys (a + of_nat n) = deref_phys a + of_nat n"
proof (rule deref_phys_off [OF assms(1)])
  have "unat (of_nat n :: u64) = n" using assms(2) by (simp add: unat_of_nat)
  then have "unat (a + of_nat n) = unat a + n" using assms(2) by (subst unat_add_exact) auto
  then show "unat KERNEL_VIRT_BASE \<le> unat (a + of_nat n)" using assms(1) by simp
qed

lemma exec_iretq:
  assumes "load_words (c_ram c) (deref_phys (c_regs c RSP)) 5 = [ip, s, fl, sp, st]"
    and "unat KERNEL_VIRT_BASE \<le> unat (c_regs c RSP)" and "unat (c_regs c RSP) + 40 < 2 ^ 64"
  shows "exec env Iretq c = c\<lparr>c_regs := (c_regs c)(RSP := sp), c_rip := ip, c_cs := s, c_rflags := fl, c_ss := st\<rparr>"
proof -
  let ?a = "c_regs c RSP"
  have d: "deref_phys (?a + 8) = deref_phys ?a + 8" "deref_phys (?a + 16) = deref_phys ?a + 16"
    "deref_phys (?a + 24) = deref_phys ?a + 24" "deref_phys (?a + 32) = deref_phys ?a + 32"
    using deref_phys_add [OF assms(2), of 8] deref_phys_add [OF assms(2), of 16] deref_phys_add [OF assms(2), of 24]
      deref_phys_add [OF assms(2), of 32] assms(3) by simp_all
  have five: "(5 :: nat) = Suc (Suc (Suc (Suc (Suc 0))))" by simp
  have w: "read64 (c_ram c) (deref_phys ?a) = ip" "read64 (c_ram c) (deref_phys ?a + 8) = s"
    "read64 (c_ram c) (deref_phys ?a + 16) = fl" "read64 (c_ram c) (deref_phys ?a + 24) = sp"
    "read64 (c_ram c) (deref_phys ?a + 32) = st"
    using assms(1) unfolding five load_words.simps by (simp_all add: add.assoc)
  show ?thesis
    by (simp add: pop64_def load64_def set_reg_def Let_def d w add.assoc)
qed

lemma pushed_words:
  fixes env :: env
  assumes "RSP \<notin> set rs" and "unat KERNEL_VIRT_BASE + 8 * length rs \<le> unat (c_regs c RSP)" and "unat (c_regs c RSP) + 8 * n < 2 ^ 64"
  defines "b \<equiv> run env (map Push rs) c"
  shows "c_regs b = (c_regs c)(RSP := c_regs c RSP - 8 * of_nat (length rs))"
    and "unat (c_regs b RSP) = unat (c_regs c RSP) - 8 * length rs"
    and "load_words (c_ram b) (deref_phys (c_regs b RSP)) (length rs + n) =
           rev (map (c_regs c) rs) @ load_words (c_ram c) (deref_phys (c_regs c RSP)) n"
    and "deref_phys (c_regs c RSP) = deref_phys (c_regs b RSP) + 8 * of_nat (length rs)"
proof -
  let ?sp = "c_regs c RSP" and ?vs = "map (c_regs c) rs" and ?k = "8 * of_nat (length rs) :: u64"
  note P = run_pushes [OF assms(1,2), of env, folded b_def]
  show r: "c_regs b = (c_regs c)(RSP := ?sp - ?k)" by (simp add: P)
  have lt: "unat ?sp < 2 ^ 64" by (rule order.strict_trans2 [OF unsigned_less]) simp
  have k: "unat ?k = 8 * length rs" using assms(2) lt by (simp add: unat_word_ariths unat_of_nat)
  show u: "unat (c_regs b RSP) = unat ?sp - 8 * length rs"
    using assms(2) k unfolding r by (simp add: unat_sub_exact word_le_nat_alt)
  have d: "deref_phys (?sp - ?k) = deref_phys ?sp - ?k"
    using deref_phys_off [of ?sp "- ?k"] assms(2) u by (simp add: r)
  then show d': "deref_phys ?sp = deref_phys (c_regs b RSP) + ?k" by (simp add: r)
  have m: "c_ram b = push_words (c_ram c) (deref_phys ?sp) ?vs" by (simp add: P)
  have "load_words (c_ram b) (deref_phys ?sp - ?k) (length rs) = rev ?vs"
    using load_push_words [of ?vs "c_ram c" "deref_phys ?sp"] assms(2) lt by (simp add: m)
  moreover have "load_words (c_ram b) (deref_phys ?sp) n = load_words (c_ram c) (deref_phys ?sp) n"
    using load_words_above [of n ?vs "c_ram c" "deref_phys ?sp"] assms(2,3) by (simp add: m)
  ultimately show "load_words (c_ram b) (deref_phys (c_regs b RSP)) (length rs + n) = rev ?vs @ load_words (c_ram c) (deref_phys ?sp) n"
    by (simp add: load_words_append r d)
qed

lemma saved_and_restored:
  fixes env :: env
  assumes rs: "distinct rs" "RSP \<notin> set rs" and room: "unat KERNEL_VIRT_BASE + 8 * length rs \<le> unat (c_regs c RSP)"
      "unat (c_regs c RSP) + 8 * n < 2 ^ 64"
    and b: "b = run env (map Push rs) c"
    and body: "c_regs (run env body b) RSP = c_regs b RSP"
      "load_words (c_ram (run env body b)) (deref_phys (c_regs b RSP)) (length rs + n) =
       load_words (c_ram b) (deref_phys (c_regs b RSP)) (length rs + n)"
  defines "c' \<equiv> run env (map Push rs @ body @ map Pop (rev rs)) c"
  shows "r \<in> insert RSP (set rs) \<Longrightarrow> c_regs c' r = c_regs c r"
    and "load_words (c_ram c') (deref_phys (c_regs c RSP)) n = load_words (c_ram c) (deref_phys (c_regs c RSP)) n"
    and "r \<notin> insert RSP (set rs) \<Longrightarrow> c_regs c' r = c_regs (run env body b) r"
proof -
  note B = pushed_words [OF rs(2) room, of env, folded b]
  define d where "d = run env body b"
  let ?ws = "rev (map (c_regs c) rs)" and ?top = "load_words (c_ram c) (deref_phys (c_regs c RSP)) n"
  have sp: "c_regs d RSP = c_regs b RSP" using body(1) by (simp add: d_def)
  have c'd: "c' = run env (map Pop (rev rs)) d" by (simp add: c'_def d_def b)
  have "load_words (c_ram d) (deref_phys (c_regs b RSP)) (length rs + n) = ?ws @ ?top"
    using body(2) B(3) by (simp add: d_def)
  then have w: "load_words (c_ram d) (deref_phys (c_regs b RSP)) (length rs) = ?ws"
    "load_words (c_ram d) (deref_phys (c_regs c RSP)) n = ?top"
    unfolding load_words_append B(4) by (simp_all add: append_eq_append_conv)
  have pops: "c' = d\<lparr>c_regs := (set_regs (rev rs) (load_words (c_ram d) (deref_phys (c_regs d RSP)) (length (rev rs))) (c_regs d))
       (RSP := c_regs d RSP + 8 * of_nat (length (rev rs)))\<rparr>"
    unfolding c'd by (rule run_pops) (use rs room B(2) sp in auto)
  have bk: "c_regs b RSP + 8 * of_nat (length rs) = c_regs c RSP" by (simp add: B(1))
  show "c_regs c' r = c_regs c r" if "r \<in> insert RSP (set rs)"
    using that bk rs by (cases "r = RSP") (auto simp: pops sp w(1) set_regs_rev_map)
  show "load_words (c_ram c') (deref_phys (c_regs c RSP)) n = ?top" using w(2) by (simp add: pops)
  show "c_regs c' r = c_regs (run env body b) r" if "r \<notin> insert RSP (set rs)"
    using that by (simp add: pops set_regs_other d_def)
qed

lemma interrupt_eq:
  fixes c :: processor and err :: "u64 option"
  assumes "unat KERNEL_VIRT_BASE + 4096 \<le> unat stack"
  defines "stop \<equiv> stack AND NOT 0xF" and "vs \<equiv> rev (iret_words c) @ (case err of None \<Rightarrow> [] | Some e \<Rightarrow> [e])"
  shows "unat KERNEL_VIRT_BASE + 4080 \<le> unat stop"
    and "interrupt stack err c = c\<lparr>c_regs := (c_regs c)(RSP := stop - 8 * of_nat (length vs)),
           c_ram := push_words (c_ram c) (deref_phys stop) vs\<rparr>"
proof -
  have t: "stop = stack AND - 16" by (simp add: stop_def)
  have "unat stop + 16 > unat stack" unfolding t unat_align16
    using mult_div_mod_eq [of 16 "unat stack"] mod_less_divisor [of 16 "unat stack"] by linarith
  then show u: "unat KERNEL_VIRT_BASE + 4080 \<le> unat stop" using assms(1) by linarith
  let ?c = "set_reg RSP stop c"
  have "interrupt stack err c = fold push64 vs ?c"
    by (cases err) (simp_all add: interrupt_def Let_def vs_def iret_words_def stop_def)
  also have "\<dots> = ?c\<lparr>c_regs := (c_regs ?c)(RSP := c_regs ?c RSP - 8 * of_nat (length vs)),
           c_ram := push_words (c_ram ?c) (deref_phys (c_regs ?c RSP)) vs\<rparr>"
    by (rule fold_push64) (use u in \<open>simp add: set_reg_def vs_def iret_words_def split: option.splits\<close>)
  finally show "interrupt stack err c = c\<lparr>c_regs := (c_regs c)(RSP := stop - 8 * of_nat (length vs)),
           c_ram := push_words (c_ram c) (deref_phys stop) vs\<rparr>"
    by (simp add: set_reg_def)
qed

text \<open>The interrupted state: the return frame on top of the stack.\<close>

lemma interrupt_frame:
  fixes c :: processor and err :: "u64 option"
  assumes "unat KERNEL_VIRT_BASE + 4096 \<le> unat stack"
  defines "i \<equiv> interrupt stack err c" and "k \<equiv> (case err of None \<Rightarrow> 5 | Some _ \<Rightarrow> 6)"
  shows "c_regs i r = (if r = RSP then (stack AND NOT 0xF) - 8 * of_nat k else c_regs c r)"
    and "unat (c_regs i RSP) = unat (stack AND NOT 0xF) - 8 * k" and "unat KERNEL_VIRT_BASE + 4000 \<le> unat (c_regs i RSP)"
    and "load_words (c_ram i) (deref_phys (c_regs i RSP)) k = (case err of None \<Rightarrow> [] | Some e \<Rightarrow> [e]) @ iret_words c"
    and "unat (c_regs i RSP) + 8 * k < 2 ^ 64" and "c_cr2 i = c_cr2 c"
proof -
  let ?top = "stack AND NOT 0xF" and ?vs = "rev (iret_words c) @ (case err of None \<Rightarrow> [] | Some e \<Rightarrow> [e])"
  note I = interrupt_eq(1) [OF assms(1)] interrupt_eq(2) [OF assms(1), of err c, folded i_def]
  have len: "length ?vs = k" by (simp add: iret_words_def k_def split: option.split)
  have k: "k \<le> 6" by (simp add: k_def split: option.split)
  have k8: "unat (8 * of_nat k :: u64) = 8 * k" using k by (simp add: unat_word_ariths unat_of_nat)
  show r: "c_regs i r = (if r = RSP then ?top - 8 * of_nat k else c_regs c r)" for r by (simp add: I(2) len [symmetric])
  have "8 * of_nat k \<le> ?top" using I(1) k k8 by (simp add: word_le_nat_alt)
  then show u: "unat (c_regs i RSP) = unat ?top - 8 * k" using k8 by (simp add: r unat_sub_exact)
  show "unat KERNEL_VIRT_BASE + 4000 \<le> unat (c_regs i RSP)" using I(1) u k by linarith
  have lt: "unat ?top < 2 ^ 64" by (rule order.strict_trans2 [OF unsigned_less]) simp
  then show "unat (c_regs i RSP) + 8 * k < 2 ^ 64" using u I(1) k by linarith
  have d: "deref_phys (c_regs i RSP) = deref_phys ?top - 8 * of_nat k"
    using deref_phys_off [of ?top "- (8 * of_nat k)"] I(1) u k by (simp add: r)
  show "load_words (c_ram i) (deref_phys (c_regs i RSP)) k = (case err of None \<Rightarrow> [] | Some e \<Rightarrow> [e]) @ iret_words c"
    using load_push_words [of ?vs "c_ram c" "deref_phys ?top"] k unfolding d len
    by (simp add: I(2) split: option.splits)
  show "c_cr2 i = c_cr2 c" by (simp add: I(2))
qed

text \<open>The calls in the stubs.\<close>

lemma run_aligned_call:
  fixes env :: env and b :: processor and f :: string
  assumes ok: "well_behaved base n (snd (env f))" and b: "c_regs b RBP = base" "c_regs b RSP = base"
    and room: "unat KERNEL_VIRT_BASE + 32 \<le> unat base" "unat base + 8 * n < 2 ^ 64"
  defines "d \<equiv> run env [AndImm RSP (- 16), Call f, Mov RSP RBP] b"
  shows "c_regs d RBP = base" and "c_regs d RSP = base"
    and "load_words (c_ram d) (deref_phys base) n = load_words (c_ram b) (deref_phys base) n"
proof -
  define b' where "b' = exec env (AndImm RSP (- 16)) b"
  have b': "c_regs b' RSP = base AND - 16" "c_regs b' RBP = base" "c_ram b' = c_ram b" by (simp_all add: b'_def set_reg_def b)
  have "unat (base AND - 16) \<le> unat base" "unat base \<le> unat (base AND - 16) + 16"
    unfolding unat_align16 using mult_div_mod_eq [of 16 "unat base"] mod_less_divisor [of 16 "unat base"] by linarith+
  then have sp: "unat (c_regs b' RSP) \<le> unat base" "unat base \<le> unat (c_regs b' RSP) + 16" by (simp_all only: b'(1))
  note K = call_keeps [where env = env and f = f and c = b', OF ok sp room]
  have d: "d = set_reg RSP (c_regs (exec env (Call f) b') RBP) (exec env (Call f) b')"
    by (simp only: d_def b'_def run_simps exec.simps(4))
  show "c_regs d RBP = base" "c_regs d RSP = base" using K(1) b'(2) by (simp_all add: d set_reg_def callee_saved_def del: exec.simps)
  show "load_words (c_ram d) (deref_phys base) n = load_words (c_ram b) (deref_phys base) n"
    using K(2) b'(3) by (simp add: d set_reg_def del: exec.simps)
qed

lemma stub_resumes:
  fixes env :: env and c :: processor
  assumes stack: "unat KERNEL_VIRT_BASE + 4096 \<le> unat stack"
    and rs: "distinct rs" "RSP \<notin> set rs" "\<forall>r. r \<noteq> RSP \<longrightarrow> r \<in> set rs" "length rs = 15"
    and k: "k = (case err of None \<Rightarrow> 5 | Some _ \<Rightarrow> 6)"
    and b: "b = run env (map Push rs) (interrupt stack err c)"
    and body: "c_regs (run env body b) RSP = c_regs b RSP"
      "load_words (c_ram (run env body b)) (deref_phys (c_regs b RSP)) (15 + k) =
       load_words (c_ram b) (deref_phys (c_regs b RSP)) (15 + k)"
    and tail: "tail = (case err of None \<Rightarrow> [Iretq] | Some _ \<Rightarrow> [AddImm RSP 8, Iretq])"
  shows "resumed c (run env (map Push rs @ body @ map Pop (rev rs) @ tail) (interrupt stack err c))"
proof -
  define i where "i = interrupt stack err c"
  note I = interrupt_frame [OF stack, where err = err and c = c, folded i_def k]
  have room: "unat KERNEL_VIRT_BASE + 8 * length rs \<le> unat (c_regs i RSP)" using I(3) rs(4) by simp
  have b': "b = run env (map Push rs) i" by (simp add: b i_def)
  define d where "d = run env (map Push rs @ body @ map Pop (rev rs)) i"
  note R = saved_and_restored [OF rs(1,2) room I(5) b', of body, folded d_def]
  have regs: "c_regs d r = c_regs i r" for r
    using R(1) [of r] body rs(3,4) by (cases "r = RSP") auto
  have words: "load_words (c_ram d) (deref_phys (c_regs i RSP)) k = load_words (c_ram i) (deref_phys (c_regs i RSP)) k"
    using R(2) body rs(4) by auto
  have run: "run env (map Push rs @ body @ map Pop (rev rs) @ tail) i = run env tail d" by (simp add: d_def)
  show ?thesis
  proof (cases err)
    case None
    then have w: "load_words (c_ram d) (deref_phys (c_regs d RSP)) 5 = [c_rip c, c_cs c, c_rflags c, c_regs c RSP, c_ss c]"
      using words I(4) k by (simp add: regs iret_words_def)
    have "resumed c (exec env Iretq d)"
      using exec_iretq [OF w] I(1,3,5) k None by (auto simp: resumed_def regs)
    then show ?thesis using run None tail by (simp add: i_def del: exec.simps)
  next
    case (Some e)
    define d' where "d' = exec env (AddImm RSP 8) d"
    have d': "c_regs d' = (c_regs d)(RSP := c_regs i RSP + 8)" "c_ram d' = c_ram d" by (simp_all add: d'_def set_reg_def regs)
    have k6: "k = Suc 5" using k Some by simp
    have u: "unat (c_regs i RSP + 8) = unat (c_regs i RSP) + 8" using I(5) k6 by (subst unat_add_exact) auto
    have "deref_phys (c_regs i RSP + 8) = deref_phys (c_regs i RSP) + 8"
      using deref_phys_off [of "c_regs i RSP" 8] I(3) u by simp
    then have w: "load_words (c_ram d') (deref_phys (c_regs d' RSP)) 5 = [c_rip c, c_cs c, c_rflags c, c_regs c RSP, c_ss c]"
      using words I(4) Some unfolding k6 load_words.simps by (simp add: d' iret_words_def)
    have "resumed c (exec env Iretq d')"
      using exec_iretq [OF w] I(1,3,5) u k6 by (auto simp: resumed_def regs d')
    then show ?thesis using run Some tail by (simp add: i_def d'_def del: exec.simps)
  qed
qed


lemma stub_registers:
  assumes "rs \<in> {[RAX, RBX, RCX, RDX, RSI, RDI, RBP, R8, R9, R10, R11, R12, R13, R14, R15],
                  [RAX, RBX, RCX, RDX, RSI, RDI, R8, R9, R10, R11, R12, R13, R14, R15, RBP]}"
  shows "distinct rs" "RSP \<notin> set rs" "\<forall>r. r \<noteq> RSP \<longrightarrow> r \<in> set rs" "length rs = 15"
proof -
  show "\<forall>r. r \<noteq> RSP \<longrightarrow> r \<in> set rs"
  proof
    fix r show "r \<noteq> RSP \<longrightarrow> r \<in> set rs" using assms by (cases r) auto
  qed
qed (use assms in auto)

lemma stub_base:
  fixes env :: env and c :: processor
  assumes stack: "unat KERNEL_VIRT_BASE + 4096 \<le> unat stack" and rs: "RSP \<notin> set rs" "length rs = 15"
    and k: "k = (case err of None \<Rightarrow> 5 | Some _ \<Rightarrow> 6)"
    and b: "b = run env (map Push rs) (interrupt stack err c)"
  shows "c_regs b RSP = (stack AND NOT 0xF) - 8 * of_nat (15 + k)"
    and "unat KERNEL_VIRT_BASE + 3800 \<le> unat (c_regs b RSP)" and "unat (c_regs b RSP) + 8 * (15 + k) < 2 ^ 64"
    and "r \<noteq> RSP \<Longrightarrow> c_regs b r = c_regs c r"
    and "load_words (c_ram b) (deref_phys (c_regs b RSP)) (15 + k) =
      rev (map (c_regs c) rs) @ (case err of None \<Rightarrow> [] | Some e \<Rightarrow> [e]) @ iret_words c"
    and "unat (c_regs b RSP) = unat (stack AND NOT 0xF) - 8 * (15 + k)" and "c_cr2 b = c_cr2 c"
proof -
  define i where "i = interrupt stack err c"
  note I = interrupt_frame [OF stack, where err = err and c = c, folded i_def k]
  have room: "unat KERNEL_VIRT_BASE + 8 * length rs \<le> unat (c_regs i RSP)" using I(3) rs(2) by simp
  have b': "b = run env (map Push rs) i" by (simp add: b i_def)
  note B = pushed_words [OF rs(1) room I(5), where env = env, folded b']
  show "c_regs b RSP = (stack AND NOT 0xF) - 8 * of_nat (15 + k)"
    by (simp add: B(1) I(1) rs(2) diff_diff_eq distrib_left)
  show "c_cr2 b = c_cr2 c" using run_pushes [OF rs(1) room, of env] I(6) by (simp add: b')
  have bi: "unat (c_regs b RSP) + 120 = unat (c_regs i RSP)" using B(2) I(3) rs(2) by simp
  show "unat KERNEL_VIRT_BASE + 3800 \<le> unat (c_regs b RSP)" using bi I(3) by linarith
  show "unat (c_regs b RSP) + 8 * (15 + k) < 2 ^ 64" using bi I(5) unfolding distrib_left by linarith
  show "unat (c_regs b RSP) = unat (stack AND NOT 0xF) - 8 * (15 + k)" using bi I(2) unfolding distrib_left by linarith
  show "c_regs b r = c_regs c r" if "r \<noteq> RSP" using that by (simp add: B(1) I(1))
  have "map (c_regs i) rs = map (c_regs c) rs" using rs(1) I(1) by auto
  then show "load_words (c_ram b) (deref_phys (c_regs b RSP)) (15 + k) =
      rev (map (c_regs c) rs) @ (case err of None \<Rightarrow> [] | Some e \<Rightarrow> [e]) @ iret_words c"
    using B(3) I(4) rs(2) by simp
qed

text \<open>Stubs without an error code align the stack around each call.\<close>

definition aligned_call :: "string \<Rightarrow> instr list" where
  "aligned_call f = [AndImm RSP (- 16), Call f, Mov RSP RBP]"

lemma run_aligned_calls:
  fixes env :: env
  assumes "\<forall>f\<in>set fs. well_behaved base n (snd (env f))" and "c_regs b RBP = base" and "c_regs b RSP = base"
    and room: "unat KERNEL_VIRT_BASE + 32 \<le> unat base" "unat base + 8 * n < 2 ^ 64"
  defines "d \<equiv> run env (concat (map aligned_call fs)) b"
  shows "c_regs d RSP = base \<and> load_words (c_ram d) (deref_phys base) n = load_words (c_ram b) (deref_phys base) n"
  using assms(1-3) unfolding d_def
proof (induction fs arbitrary: b)
  case (Cons f fs)
  have ok: "well_behaved base n (snd (env f))" using Cons.prems(1) by simp
  note A = run_aligned_call [where f = f and env = env, OF ok Cons.prems(2,3) room]
  have "run env (concat (map aligned_call (f # fs))) b =
      run env (concat (map aligned_call fs)) (run env [AndImm RSP (- 16), Call f, Mov RSP RBP] b)"
    by (simp only: list.map concat.simps run_simps aligned_call_def append.simps)
  then show ?case using Cons.IH [OF _ A(1,2)] Cons.prems(1) A(3) by auto
qed simp

lemma aligned_stub_resumes:
  fixes c :: processor
  assumes stack: "unat KERNEL_VIRT_BASE + 4096 \<le> unat stack"
    and ok: "\<forall>f\<in>set fs. well_behaved ((stack AND NOT 0xF) - 160) 20 (snd (env f))"
    and rs: "distinct rs" "RSP \<notin> set rs" "\<forall>r. r \<noteq> RSP \<longrightarrow> r \<in> set rs" "length rs = 15"
  shows "resumed c (run env (map Push rs @ (Mov RBP RSP # concat (map aligned_call fs)) @ map Pop (rev rs) @ [Iretq])
           (interrupt stack None c))"
proof -
  define b where "b = run env (map Push rs) (interrupt stack None c)"
  have k: "5 = (case None of None \<Rightarrow> 5 | Some (_ :: u64) \<Rightarrow> 6)" by simp
  note B = stub_base [OF stack rs(2,4) k b_def]
  define base where "base = c_regs b RSP"
  have bs: "base = (stack AND NOT 0xF) - 160" using B(1) by (simp add: base_def)
  define b' where "b' = exec env (Mov RBP RSP) b"
  have b': "c_regs b' RBP = base" "c_regs b' RSP = base" "c_ram b' = c_ram b"
    by (simp_all add: b'_def set_reg_def base_def)
  have ok': "\<forall>f\<in>set fs. well_behaved base 20 (snd (env f))" using ok by (simp only: bs)
  have room: "unat KERNEL_VIRT_BASE + 32 \<le> unat base" "unat base + 8 * 20 < 2 ^ 64" using B(2,3) by (simp_all add: base_def)
  note A = run_aligned_calls [OF ok' b'(1,2) room]
  have run: "run env (Mov RBP RSP # concat (map aligned_call fs)) b = run env (concat (map aligned_call fs)) b'"
    by (simp only: run_simps b'_def)
  have body: "c_regs (run env (Mov RBP RSP # concat (map aligned_call fs)) b) RSP = c_regs b RSP"
    "load_words (c_ram (run env (Mov RBP RSP # concat (map aligned_call fs)) b)) (deref_phys (c_regs b RSP)) (15 + 5) =
     load_words (c_ram b) (deref_phys (c_regs b RSP)) (15 + 5)"
    unfolding run base_def [symmetric] using A b'(3) by simp_all
  show ?thesis by (rule stub_resumes [OF stack rs k b_def body]) simp
qed

lemma page_fault_stub_resumes:
  fixes c :: processor and env :: env and e :: u64
  assumes stack: "unat KERNEL_VIRT_BASE + 4096 \<le> unat stack"
    and ok: "well_behaved ((stack AND NOT 0xF) - 168) 21 (snd (env ''page_fault_inner''))"
  defines "i \<equiv> interrupt stack (Some e) c"
  defines "a \<equiv> at_call env ''page_fault_inner'' page_fault_stub i"
  shows "resumed c (run env page_fault_stub i)"
    and "c_regs a RDI = c_cr2 c" and "c_regs a RSI = e" and "c_regs a RDX = c_rip c" and "16 dvd unat (c_regs a RSP + 8)"
proof -
  let ?rs = "[RAX, RBX, RCX, RDX, RSI, RDI, RBP, R8, R9, R10, R11, R12, R13, R14, R15]"
  let ?args = "[MovCr2 RDI, Load RSI RSP (15 * 8), Load RDX RSP (16 * 8), SubImm RSP 8]"
  have rs: "distinct ?rs" "RSP \<notin> set ?rs" "\<forall>r. r \<noteq> RSP \<longrightarrow> r \<in> set ?rs" "length ?rs = 15"
    by (rule stub_registers; simp)+
  define b where "b = run env (map Push ?rs) (interrupt stack (Some e) c)"
  have k: "6 = (case Some e of None \<Rightarrow> 5 | Some (_ :: u64) \<Rightarrow> 6)" by simp
  note B = stub_base [OF stack rs(2,4) k b_def]
  define base where "base = c_regs b RSP"
  have bs: "base = (stack AND NOT 0xF) - 168" using B(1) by (simp add: base_def)
  have room: "unat KERNEL_VIRT_BASE + 32 \<le> unat base" "unat base + 8 * 21 < 2 ^ 64" using B(2,3) by (simp_all add: base_def)
  have kb: "unat KERNEL_VIRT_BASE \<le> unat base" using room by simp
  have dr: "deref_phys (base + 120) = deref_phys base + 120" "deref_phys (base + 128) = deref_phys base + 128"
    using deref_phys_add [OF kb, of 120] deref_phys_add [OF kb, of 128] room(2) by simp_all
  have w: "load_words (c_ram b) (deref_phys base) 21 = rev (map (c_regs c) ?rs) @ e # iret_words c"
    using B(5) by (simp add: base_def)
  have w15: "read64 (c_ram b) (deref_phys base + 120) = e" "read64 (c_ram b) (deref_phys base + 128) = c_rip c"
    using load_words_nth [of 15 21 "c_ram b" "deref_phys base"] load_words_nth [of 16 21 "c_ram b" "deref_phys base"]
    unfolding w by (simp_all add: iret_words_def)
  define b' where "b' = run env ?args b"
  have b': "c_regs b' = (c_regs b)(RDI := c_cr2 b, RSI := e, RDX := c_rip c, RSP := base - 8)" "c_ram b' = c_ram b"
    using dr w15 by (simp_all add: b'_def set_reg_def load64_def base_def [symmetric])
  have u8: "unat (base - 8) = unat base - 8" using room(1) by (subst unat_sub_exact) (auto simp: word_le_nat_alt)
  have ok': "well_behaved base 21 (snd (env ''page_fault_inner''))" using ok by (simp only: bs)
  have sp: "unat (c_regs b' RSP) \<le> unat base" "unat base \<le> unat (c_regs b' RSP) + 16" using u8 by (simp_all add: b')
  note K = call_keeps [where env = env and f = "''page_fault_inner''" and c = b', OF ok' sp room]
  define d where "d = exec env (Call ''page_fault_inner'') b'"
  have d: "c_regs d RSP = base - 8" "load_words (c_ram d) (deref_phys base) 21 = load_words (c_ram b) (deref_phys base) 21"
    using K b' by (simp_all add: d_def [symmetric] callee_saved_def del: exec.simps)
  have run: "run env (?args @ [Call ''page_fault_inner'', AddImm RSP 8]) b = set_reg RSP base d"
  proof -
    have "run env (?args @ [Call ''page_fault_inner'', AddImm RSP 8]) b = run env [Call ''page_fault_inner'', AddImm RSP 8] b'"
      unfolding b'_def by (rule run_simps(3))
    also have "\<dots> = exec env (AddImm RSP 8) d" by (simp only: run_simps(1,2) d_def)
    finally show ?thesis by (simp add: d(1))
  qed
  have body: "c_regs (run env (?args @ [Call ''page_fault_inner'', AddImm RSP 8]) b) RSP = c_regs b RSP"
    "load_words (c_ram (run env (?args @ [Call ''page_fault_inner'', AddImm RSP 8]) b)) (deref_phys (c_regs b RSP)) (15 + 6) =
     load_words (c_ram b) (deref_phys (c_regs b RSP)) (15 + 6)"
    unfolding run base_def [symmetric] using d by (simp_all add: set_reg_def)
  have "resumed c (run env (map Push ?rs @ (?args @ [Call ''page_fault_inner'', AddImm RSP 8]) @ map Pop (rev ?rs) @ [AddImm RSP 8, Iretq])
      (interrupt stack (Some e) c))"
    by (rule stub_resumes [OF stack rs k b_def body]) simp
  then show "resumed c (run env page_fault_stub i)"
    by (simp only: page_fault_stub_def i_def rev.simps append.simps append_assoc)
  have tw: "takeWhile (\<lambda>i. i \<noteq> Call ''page_fault_inner'') page_fault_stub = map Push ?rs @ ?args"
    by (simp add: page_fault_stub_def)
  have a: "a = push64 (fst (env ''page_fault_inner'')) b'"
    unfolding a_def at_call_def tw by (simp only: run_simps b_def b'_def i_def)
  show "c_regs a RDI = c_cr2 c" "c_regs a RSI = e" "c_regs a RDX = c_rip c" by (simp_all add: a push64_eq b' B(7))
  have "unat base - 8 = 16 * (unat stack div 16 - 11)"
    using B(6) unat_align16 [of stack] by (simp add: base_def)
  then show "16 dvd unat (c_regs a RSP + 8)" using u8 by (simp add: a push64_eq b')
qed


definition demo_processor :: processor where
  "demo_processor = \<lparr>c_regs = (\<lambda>r. if r = RSP then 0x7ffef000 else 7), c_ram = (\<lambda>_. 0), c_rip = 0x401000, c_rflags = 0x202,
     c_cs = 0x33, c_ss = 0x2B, c_ds = 0x2B, c_es = 0x2B, c_msr = (\<lambda>_. 0), c_cr2 = 0x402010, c_cr3 = 0x8000, c_ports = []\<rparr>"

text \<open>A callee that returns 5 and uses the other registers that it may change.\<close>

definition demo_callee :: "string \<Rightarrow> u64 \<times> (processor \<Rightarrow> processor)" where
  "demo_callee f = (0xffff800000205000, \<lambda>c. set_reg RAX 5 (set_reg RCX 1 (set_reg RDI 2 c)))"

lemma demo_callee_ok: "well_behaved a n (snd (demo_callee f))"
  by (simp add: well_behaved_def demo_callee_def set_reg_def callee_saved_def)


section \<open>Words in ascending order\<close>

primrec store_words :: "pmem \<Rightarrow> u64 \<Rightarrow> u64 list \<Rightarrow> pmem" where
  "store_words m a [] = m"
| "store_words m a (v # vs) = store_words (write64 m a v) (a + 8) vs"

text \<open>A word at \<open>b\<close> that the \<open>n\<close> words from \<open>a\<close> do not touch.\<close>

definition off_words :: "u64 \<Rightarrow> nat \<Rightarrow> u64 \<Rightarrow> bool" where
  "off_words a n b \<longleftrightarrow> 8 \<le> unat (a - b) \<and> unat (a - b) + 8 * n \<le> 2 ^ 64"

lemma read64_store_words:
  assumes "off_words a (length vs) b"
  shows "read64 (store_words m a vs) b = read64 m b"
  using assms
proof (induction vs arbitrary: m a)
  case (Cons v vs)
  have o: "8 \<le> unat (a - b)" "unat (a - b) + 8 * length (v # vs) \<le> 2 ^ 64" using Cons.prems by (auto simp: off_words_def)
  have "a \<noteq> b" using o(1) by auto
  then have "8 \<le> unat (b - a)" using unat_opposite [of a b] o by simp
  then have w: "read64 (write64 m a v) b = read64 m b" using o(1) by (intro read64_write64_off)
  have e: "a + 8 - b = (a - b) + 8" by simp
  have "off_words (a + 8) (length vs) b \<or> vs = []"
  proof (cases "vs = []")
    case False
    then have "0 < length vs" by simp
    moreover have "unat (a - b) + 8 * length vs + 8 \<le> 2 ^ 64" using o(2) by simp
    ultimately have "unat (a - b) + 8 < 2 ^ 64" by linarith
    then have "unat (a + 8 - b) = unat (a - b) + 8" unfolding e by (subst unat_add_exact) auto
    then show ?thesis using o by (simp add: off_words_def)
  qed simp
  then show ?case using Cons.IH [of "a + 8"] w by auto
qed simp

lemma load_store_words:
  assumes "8 * length vs < 2 ^ 64"
  shows "load_words (store_words m a vs) a (length vs) = vs"
  using assms
proof (induction vs arbitrary: m a)
  case (Cons v vs)
  have "unat (a + 8 - a) = 8" by simp
  then have "off_words (a + 8) (length vs) a" using Cons.prems by (simp add: off_words_def)
  then have "read64 (store_words (write64 m a v) (a + 8) vs) a = v" by (simp add: read64_store_words)
  then show ?case using Cons by simp
qed simp

lemma load_words_store_off:
  assumes "\<forall>i<n. off_words a (length vs) (b + 8 * of_nat i)"
  shows "load_words (store_words m a vs) b n = load_words m b n"
  using assms by (intro nth_equalityI) (auto simp: load_words_nth read64_store_words)

lemma store_bytes_append:
  assumes "length xs + length ys < 2 ^ 64"
  shows "store_bytes m a (xs @ ys) = store_bytes (store_bytes m a xs) (a + of_nat (length xs)) ys"
proof
  fix x
  let ?n = "of_nat (length xs) :: u64"
  have n: "unat ?n = length xs" using assms by (simp add: unat_of_nat)
  have e: "x - (a + ?n) = (x - a) - ?n" by simp
  show "store_bytes m a (xs @ ys) x = store_bytes (store_bytes m a xs) (a + ?n) ys x"
  proof (cases "unat (x - a) < length xs")
    case True
    have "length ys \<le> unat (x - (a + ?n))"
    proof -
      have "unat (?n - (x - a)) = length xs - unat (x - a)" using True n by (subst unat_sub_exact) (auto simp: word_le_nat_alt)
      moreover have "?n \<noteq> x - a" using True n by auto
      ultimately show ?thesis using unat_opposite [of ?n "x - a"] True assms unfolding e by simp
    qed
    then show ?thesis using True unfolding store_bytes_def uint_less_int by (simp add: nth_append)
  next
    case False
    then have "unat (x - (a + ?n)) = unat (x - a) - length xs"
      using n unfolding e by (subst unat_sub_exact) (auto simp: word_le_nat_alt)
    then show ?thesis using False unfolding store_bytes_def uint_less_int by (auto simp: nth_append)
  qed
qed

lemma store_bytes_words:
  assumes "8 * length ws < 2 ^ 64"
  shows "store_bytes m a (concat (map (to_le_bytes 8) ws)) = store_words m a ws"
  using assms
proof (induction ws arbitrary: m a)
  case Nil
  then show ?case by (simp add: store_bytes_def)
next
  case (Cons w ws)
  have l: "length (concat (map (to_le_bytes 8) ws)) = 8 * length ws" by (induction ws) auto
  have "store_bytes m a (concat (map (to_le_bytes 8) (w # ws))) =
      store_bytes (store_bytes m a (to_le_bytes 8 w)) (a + of_nat (length (to_le_bytes 8 w))) (concat (map (to_le_bytes 8) ws))"
    using Cons.prems l by (simp add: store_bytes_append)
  then show ?case using Cons by (simp add: write64_def)
qed

section \<open>Switching contexts\<close>

definition context_regs :: "reg list" where
  "context_regs = [RBX, RBP, R12, R13, R14, R15, RSP]"

definition context_words :: "Context \<Rightarrow> u64 list" where
  "context_words x = [ctx_rbx x, ctx_rbp x, ctx_r12 x, ctx_r13 x, ctx_r14 x, ctx_r15 x, ctx_rsp x]"

definition saved_context :: "(reg \<Rightarrow> u64) \<Rightarrow> Context" where
  "saved_context f = \<lparr>ctx_rbx = f RBX, ctx_rbp = f RBP, ctx_r12 = f R12, ctx_r13 = f R13, ctx_r14 = f R14, ctx_r15 = f R15,
     ctx_rsp = f RSP\<rparr>"

text \<open>A pointer to \<open>n\<close> words of the kernel's memory.\<close>

definition kernel_words :: "u64 \<Rightarrow> nat \<Rightarrow> bool" where
  "kernel_words a n \<longleftrightarrow> unat KERNEL_VIRT_BASE \<le> unat a \<and> unat a + 8 * n < 2 ^ 64"

lemma deref_word: "kernel_words a n \<Longrightarrow> i < n \<Longrightarrow> deref_phys (a + 8 * of_nat i) = deref_phys a + 8 * of_nat i"
  using deref_phys_add [of a "8 * i"] by (simp add: kernel_words_def)

definition context_at :: "pmem \<Rightarrow> u64 \<Rightarrow> Context \<Rightarrow> bool" where
  "context_at m p x \<longleftrightarrow> load_words m (deref_phys p) 7 = context_words x"

lemma seven: "(7 :: nat) = Suc (Suc (Suc (Suc (Suc (Suc (Suc 0))))))"
  by simp

lemma run_do_switch:
  assumes p: "kernel_words (c_regs c RDI) 7" and q: "kernel_words (c_regs c RSI) 7"
  defines "m \<equiv> store_words (c_ram c) (deref_phys (c_regs c RDI)) (context_words (saved_context (c_regs c)))"
  assumes x: "context_at m (c_regs c RSI) x"
  shows "run env do_switch c = c\<lparr>c_ram := m, c_rip := read64 m (deref_phys (ctx_rsp x)),
     c_regs := (c_regs c)(RBX := ctx_rbx x, RBP := ctx_rbp x, R12 := ctx_r12 x, R13 := ctx_r13 x, R14 := ctx_r14 x,
       R15 := ctx_r15 x, RSP := ctx_rsp x + 8)\<rparr>"
proof -
  let ?p = "c_regs c RDI" and ?q = "c_regs c RSI"
  have d: "deref_phys (a + 8) = deref_phys a + 8" "deref_phys (a + 0x10) = deref_phys a + 0x10"
    "deref_phys (a + 0x18) = deref_phys a + 0x18" "deref_phys (a + 0x20) = deref_phys a + 0x20"
    "deref_phys (a + 0x28) = deref_phys a + 0x28" "deref_phys (a + 0x30) = deref_phys a + 0x30" if "kernel_words a 7" for a
    using deref_word [OF that, of 1] deref_word [OF that, of 2] deref_word [OF that, of 3] deref_word [OF that, of 4]
      deref_word [OF that, of 5] deref_word [OF that, of 6] by simp_all
  let ?stores = "[Store RDI 0x00 RBX, Store RDI 0x08 RBP, Store RDI 0x10 R12, Store RDI 0x18 R13, Store RDI 0x20 R14,
      Store RDI 0x28 R15, Store RDI 0x30 RSP]"
  have st: "run env ?stores c = c\<lparr>c_ram := m\<rparr>"
    by (simp add: store64_def m_def d [OF p] context_words_def saved_context_def add.assoc)
  have w: "read64 m (deref_phys ?q) = ctx_rbx x" "read64 m (deref_phys ?q + 8) = ctx_rbp x"
    "read64 m (deref_phys ?q + 0x10) = ctx_r12 x" "read64 m (deref_phys ?q + 0x18) = ctx_r13 x"
    "read64 m (deref_phys ?q + 0x20) = ctx_r14 x" "read64 m (deref_phys ?q + 0x28) = ctx_r15 x"
    "read64 m (deref_phys ?q + 0x30) = ctx_rsp x"
    using x unfolding context_at_def context_words_def seven load_words.simps by (simp_all add: add.assoc)
  let ?loads = "[Load RSP RSI 0x30, Load R15 RSI 0x28, Load R14 RSI 0x20, Load R13 RSI 0x18, Load R12 RSI 0x10,
      Load RBP RSI 0x08, Load RBX RSI 0x00, RetQ]"
  have ld: "run env ?loads (c\<lparr>c_ram := m\<rparr>) = c\<lparr>c_ram := m, c_rip := read64 m (deref_phys (ctx_rsp x)),
     c_regs := (c_regs c)(RBX := ctx_rbx x, RBP := ctx_rbp x, R12 := ctx_r12 x, R13 := ctx_r13 x, R14 := ctx_r14 x,
       R15 := ctx_r15 x, RSP := ctx_rsp x + 8)\<rparr>"
    by (simp add: set_reg_def load64_def pop64_def Let_def d [OF q] w fun_upd_twist)
  have "do_switch = ?stores @ ?loads" by (simp add: do_switch_def)
  from arg_cong [OF this, of "\<lambda>p. run env p c"]
  have "run env do_switch c = run env ?loads (run env ?stores c)" unfolding run_simps(3) .
  then show ?thesis unfolding st ld .
qed


text \<open>Two contexts in memory that are the same or do not overlap, and a word that a context does not overlap.\<close>

definition contexts_apart :: "u64 \<Rightarrow> u64 \<Rightarrow> bool" where
  "contexts_apart p q \<longleftrightarrow> (\<forall>i<7. off_words (deref_phys p) 7 (deref_phys q + 8 * of_nat i))"

lemma length_context_words [simp]: "length (context_words x) = 7"
  by (simp add: context_words_def)

lemma saved_at: "context_at (store_words m (deref_phys p) (context_words x)) p x"
  using load_store_words [of "context_words x" m "deref_phys p"] by (simp add: context_at_def)

lemma kept_at: "contexts_apart p q \<Longrightarrow> context_at (store_words m (deref_phys p) (context_words y)) q x = context_at m q x"
  using load_words_store_off [of 7 "deref_phys p" "context_words y" "deref_phys q" m]
  by (simp add: context_at_def contexts_apart_def)

text \<open>
  C12. A context switch and back. \<^verbatim>\<open>do_switch\<close> called with the context to save into and another context continues with the
  registers of that context at the address on its stack; and whoever later calls \<^verbatim>\<open>do_switch\<close> on the saved context,
  with the saved words and the word at the saved stack pointer untouched, continues the first caller at its return
  address with its callee-saved registers and its stack pointer past the return address.
\<close>

theorem do_switch_roundtrip:
  fixes c c2 :: processor
  assumes ptrs: "kernel_words (c_regs c RDI) 7" "kernel_words (c_regs c RSI) 7" "contexts_apart (c_regs c RDI) (c_regs c RSI)"
    and x: "context_at (c_ram c) (c_regs c RSI) x"
    and stacks: "off_words (deref_phys (c_regs c RDI)) 7 (deref_phys (ctx_rsp x))"
    and later: "c_regs c2 RSI = c_regs c RDI" "kernel_words (c_regs c2 RDI) 7" "contexts_apart (c_regs c2 RDI) (c_regs c RDI)"
      "context_at (c_ram c2) (c_regs c RDI) (saved_context (c_regs c))"
      "load64 c2 (c_regs c RSP) = load64 c (c_regs c RSP)"
      "off_words (deref_phys (c_regs c2 RDI)) 7 (deref_phys (c_regs c RSP))"
  shows "(let c1 = run env do_switch c in
      context_at (c_ram c1) (c_regs c RDI) (saved_context (c_regs c)) \<and>
      saved_context (c_regs c1) = x\<lparr>ctx_rsp := ctx_rsp x + 8\<rparr> \<and> c_rip c1 = load64 c (ctx_rsp x)) \<and>
    (let c3 = run env do_switch c2 in
      (\<forall>r\<in>{RBX, RBP, R12, R13, R14, R15}. c_regs c3 r = c_regs c r) \<and> c_regs c3 RSP = c_regs c RSP + 8 \<and>
      c_rip c3 = load64 c (c_regs c RSP))"
proof -
  have x': "context_at (store_words (c_ram c) (deref_phys (c_regs c RDI)) (context_words (saved_context (c_regs c)))) (c_regs c RSI) x"
    using kept_at [OF ptrs(3)] x by simp
  have r: "read64 (store_words m (deref_phys p) (context_words y)) a = read64 m a" if "off_words (deref_phys p) 7 a" for m p y a
    using that by (intro read64_store_words) simp
  have y: "context_at (store_words (c_ram c2) (deref_phys (c_regs c2 RDI)) (context_words (saved_context (c_regs c2)))) (c_regs c2 RSI)
      (saved_context (c_regs c))"
    using kept_at [OF later(3)] later(4) by (simp add: later(1))
  have q: "kernel_words (c_regs c2 RSI) 7" using ptrs(1) by (simp add: later(1))
  show ?thesis
    unfolding Let_def run_do_switch [OF ptrs(1,2) x'] run_do_switch [OF later(2) q y]
    using r [OF stacks] r [OF later(6)] later(5) saved_at
    by (auto simp: saved_context_def load64_def)
qed

text \<open>Words of the model's memory that are apart because their addresses are.\<close>

lemma off_wordsI:
  fixes a x :: u64
  assumes "unat x + 8 \<le> unat a \<or> unat a + 8 * n \<le> unat x" and "0 < n" and "unat a + 8 * n \<le> 2 ^ 64" and "unat x + 8 \<le> 2 ^ 64"
  shows "off_words a n x"
proof -
  have ne: "a \<noteq> x" using assms by auto
  have "unat a \<le> unat x \<Longrightarrow> unat (x - a) = unat x - unat a" "unat x \<le> unat a \<Longrightarrow> unat (a - x) = unat a - unat x"
    by (simp_all add: unat_sub_exact word_le_nat_alt)
  then show ?thesis using assms unat_opposite [OF ne] unfolding off_words_def by linarith
qed

lemma off_wordsI_from:
  fixes a b :: u64
  assumes "unat b + 8 * m \<le> unat a \<or> unat a + 8 * n \<le> unat b" and "0 < n" and "unat a + 8 * n \<le> 2 ^ 64" and "unat b + 8 * m < 2 ^ 64"
  shows "\<forall>i<m. off_words a n (b + 8 * of_nat i)"
proof (intro allI impI off_wordsI)
  fix i assume i: "i < m"
  have "unat (8 * of_nat i :: u64) = 8 * i" using i assms(4) by (simp add: unat_word_ariths unat_of_nat)
  then have "unat (b + 8 * of_nat i) = unat b + 8 * i" using i assms(4) by (subst unat_add_exact) auto
  then show "unat (b + 8 * of_nat i) + 8 \<le> unat a \<or> unat a + 8 * n \<le> unat (b + 8 * of_nat i)" "unat (b + 8 * of_nat i) + 8 \<le> 2 ^ 64"
    using i assms by auto
qed (use assms in auto)

text \<open>A kernel thread about to switch from the context at \<open>0x30000\<close> to the one at \<open>0x31000\<close>.\<close>

definition demo_context :: Context where
  "demo_context = \<lparr>ctx_rbx = 1, ctx_rbp = 2, ctx_r12 = 3, ctx_r13 = 4, ctx_r14 = 5, ctx_r15 = 6, ctx_rsp = 0xffff800000012000\<rparr>"

definition demo_switcher :: "pmem \<Rightarrow> Context \<Rightarrow> processor" where
  "demo_switcher m x = demo_processor\<lparr>c_regs := (\<lambda>_. 7)(RDI := 0xffff800000030000, RSI := 0xffff800000031000, RSP := 0xffff800000010000),
     c_ram := store_words m 0x31000 (context_words x)\<rparr>"

lemma demo_switcher_simps:
  "c_regs (demo_switcher m x) RDI = 0xffff800000030000" "c_regs (demo_switcher m x) RSI = 0xffff800000031000"
  "c_regs (demo_switcher m x) RSP = 0xffff800000010000" "c_regs (demo_switcher m x) RBX = 7"
  "c_ram (demo_switcher m x) = store_words m 0x31000 (context_words x)"
  by (simp_all add: demo_switcher_def)

lemma demo_switcher_ok:
  "kernel_words 0xffff800000030000 7" "kernel_words 0xffff800000031000 7"
  "contexts_apart 0xffff800000030000 0xffff800000031000" "contexts_apart 0xffff800000031000 0xffff800000030000"
  "context_at (c_ram (demo_switcher m x)) 0xffff800000031000 x"
  "deref_phys 0xffff800000030000 = 0x30000" "deref_phys 0xffff800000031000 = 0x31000" "deref_phys 0xffff800000010000 = 0x10000"
  "deref_phys 0xffff800000012000 = 0x12000"
proof -
  show d: "deref_phys 0xffff800000030000 = 0x30000" "deref_phys 0xffff800000031000 = 0x31000" "deref_phys 0xffff800000010000 = 0x10000"
    "deref_phys 0xffff800000012000 = 0x12000"
    by (simp_all add: deref_phys_def KERNEL_VIRT_BASE_def)
  show "kernel_words 0xffff800000030000 7" "kernel_words 0xffff800000031000 7"
    by (simp_all add: kernel_words_def KERNEL_VIRT_BASE_def)
  show "contexts_apart 0xffff800000030000 0xffff800000031000" "contexts_apart 0xffff800000031000 0xffff800000030000"
    unfolding contexts_apart_def d by (rule off_wordsI_from; simp)+
  show "context_at (c_ram (demo_switcher m x)) 0xffff800000031000 x"
    using saved_at [of m "0xffff800000031000" x] by (simp add: demo_switcher_simps d)
qed

text \<open>The same thread when the other one switches back to it.\<close>

definition demo_switched :: processor where
  "demo_switched = demo_processor\<lparr>c_regs := (\<lambda>_. 9)(RDI := 0xffff800000031000, RSI := 0xffff800000030000),
     c_ram := store_words (c_ram (demo_switcher (\<lambda>_. 0) demo_context)) 0x30000
       (context_words (saved_context (c_regs (demo_switcher (\<lambda>_. 0) demo_context))))\<rparr>"

theorem do_switch_roundtrip_witness:
  "ctx_rbx (saved_context (c_regs (run demo_callee do_switch (demo_switcher (\<lambda>_. 0) demo_context)))) = 1 \<and>
   c_regs (run demo_callee do_switch demo_switched) RBX = 7 \<and>
   c_regs (run demo_callee do_switch demo_switched) RSP = 0xffff800000010008"
proof -
  let ?c = "demo_switcher (\<lambda>_. 0) demo_context"
  have sw: "c_regs demo_switched RSI = c_regs ?c RDI" "c_regs demo_switched RDI = 0xffff800000031000"
    by (simp_all add: demo_switched_def demo_switcher_simps)
  have ctx: "context_at (c_ram demo_switched) 0xffff800000030000 (saved_context (c_regs ?c))"
    using saved_at [of "c_ram ?c" "0xffff800000030000"] by (simp add: demo_switched_def demo_switcher_ok(6))
  have o: "off_words 0x30000 7 0x12000" "off_words 0x31000 7 0x10000" "off_words 0x30000 7 0x10000"
    by (rule off_wordsI; simp)+
  have "load64 demo_switched 0xffff800000010000 = load64 ?c 0xffff800000010000"
    using o(3) by (simp add: load64_def demo_switched_def demo_switcher_ok read64_store_words)
  then show ?thesis
    using do_switch_roundtrip [of ?c demo_context demo_switched demo_callee] sw ctx o demo_switcher_ok(1-5)
    by (simp add: demo_switcher_simps demo_switcher_ok(6-9) Let_def demo_context_def)
qed

end
