(* ===== verification/Entry_User_Spec.thy ===== *)
theory Entry_User_Spec
  imports Entry_Spec Scheduler_Spec
begin

text \<open>
  The ways into user mode that go through a frame of saved registers: the first run of a forked child, from the kernel
  stack that \<^verbatim>\<open>process.rs\<close> prepares through the trampoline, and a whole system call, from the \<^verbatim>\<open>syscall\<close> instruction through
  the entry code of \<^verbatim>\<open>syscall.rs\<close> and the handler back to the caller.
\<close>

section \<open>The first run of a forked child\<close>

text \<open>The registers of user mode that a frame of saved registers stands for.\<close>

definition frame_regs :: "SyscallFrame \<Rightarrow> reg \<Rightarrow> u64" where
  "frame_regs fr r = (case r of
     RAX \<Rightarrow> fr_rax fr | RBX \<Rightarrow> fr_rbx fr | RCX \<Rightarrow> fr_rcx fr | RDX \<Rightarrow> fr_rdx fr | RSI \<Rightarrow> fr_rsi fr | RDI \<Rightarrow> fr_rdi fr
   | RBP \<Rightarrow> fr_rbp fr | RSP \<Rightarrow> fr_user_rsp fr | R8 \<Rightarrow> fr_r8 fr | R9 \<Rightarrow> fr_r9 fr | R10 \<Rightarrow> fr_r10 fr | R11 \<Rightarrow> fr_r11 fr
   | R12 \<Rightarrow> fr_r12 fr | R13 \<Rightarrow> fr_r13 fr | R14 \<Rightarrow> fr_r14 fr | R15 \<Rightarrow> fr_r15 fr)"

lemma length_frame_words [simp]: "length (frame_words fr) = 16"
  by (simp add: frame_words_def)

text \<open>The registers of a frame that are popped one by one, in order.\<close>

definition popped_regs :: "reg list" where
  "popped_regs = [R15, R14, R13, R12, RBP, RBX, R9, R8, R10, RDX, RSI, RDI, RAX]"

lemma frame_words_regs: "frame_words fr = map (frame_regs fr) popped_regs @ [fr_user_rsp fr, fr_r11 fr, fr_rcx fr]"
  by (simp add: frame_words_def popped_regs_def frame_regs_def)

lemma popped_regs_simps: "distinct popped_regs" "RSP \<notin> set popped_regs" "length popped_regs = 13"
  "r \<in> set popped_regs \<longleftrightarrow> r \<notin> {RSP, RCX, R11}"
  by (cases r; simp add: popped_regs_def)+

text \<open>Popping the first thirteen words of a frame.\<close>

lemma pop_frame:
  fixes env :: env
  assumes w: "load_words (c_ram c) (deref_phys (c_regs c RSP)) 16 = frame_words fr" and k: "kernel_words (c_regs c RSP) 16"
  defines "d \<equiv> run env (map Pop popped_regs) c"
  shows "r \<notin> {RSP, RCX, R11} \<Longrightarrow> c_regs d r = frame_regs fr r" and "c_regs d RSP = c_regs c RSP + 104"
    and "c_ram d = c_ram c" and "load_words (c_ram d) (deref_phys (c_regs d RSP)) 3 = [fr_user_rsp fr, fr_r11 fr, fr_rcx fr]"
    and "c_msr d = c_msr c" and "r \<in> {RCX, R11} \<Longrightarrow> c_regs d r = c_regs c r"
proof -
  let ?sp = "c_regs c RSP"
  have room: "unat KERNEL_VIRT_BASE \<le> unat ?sp" "unat ?sp + 8 * length popped_regs < 2 ^ 64"
    using k by (simp_all add: kernel_words_def popped_regs_simps)
  have "load_words (c_ram c) (deref_phys ?sp) (13 + 3) = map (frame_regs fr) popped_regs @ [fr_user_rsp fr, fr_r11 fr, fr_rcx fr]"
    using w by (simp add: frame_words_regs)
  then have w': "load_words (c_ram c) (deref_phys ?sp) 13 = map (frame_regs fr) popped_regs"
    "load_words (c_ram c) (deref_phys ?sp + 104) 3 = [fr_user_rsp fr, fr_r11 fr, fr_rcx fr]"
    unfolding load_words_append by (simp_all add: append_eq_append_conv popped_regs_simps)
  note P = run_pops [OF popped_regs_simps(2) room, of env, folded d_def]
  have "c_regs d = (set_regs popped_regs (map (frame_regs fr) popped_regs) (c_regs c))(RSP := ?sp + 104)"
    using w'(1) by (simp add: P popped_regs_simps)
  moreover have "set_regs popped_regs (map (frame_regs fr) popped_regs) (c_regs c) r = frame_regs fr r" if m: "r \<in> set popped_regs" for r
  proof -
    obtain i where "i < length popped_regs" "popped_regs ! i = r" using m by (auto simp: in_set_conv_nth)
    then show ?thesis using set_regs_nth [OF popped_regs_simps(1), of i "map (frame_regs fr) popped_regs"] by auto
  qed
  ultimately show "r \<notin> {RSP, RCX, R11} \<Longrightarrow> c_regs d r = frame_regs fr r" and sp: "c_regs d RSP = ?sp + 104"
    and "r \<in> {RCX, R11} \<Longrightarrow> c_regs d r = c_regs c r"
    using popped_regs_simps(4) [of r] by (auto simp: set_regs_other popped_regs_simps(4))
  show "c_ram d = c_ram c" "c_msr d = c_msr c" by (simp_all add: P)
  have "deref_phys (?sp + 104) = deref_phys ?sp + 104" using deref_word [OF k, of 13] by simp
  then show "load_words (c_ram d) (deref_phys (c_regs d RSP)) 3 = [fr_user_rsp fr, fr_r11 fr, fr_rcx fr]"
    using w'(2) by (simp add: P popped_regs_simps)
qed

text \<open>The last five instructions of both ways back to user mode.\<close>

definition return_to_user :: "instr list" where
  "return_to_user = [Load RCX RSP 16, Load R11 RSP 8, Load RSP RSP 0, Swapgs, Sysretq]"

lemma run_return_to_user:
  fixes env :: env
  assumes w: "load_words (c_ram c) (deref_phys (c_regs c RSP)) 3 = [sp, fl, ip]" and k: "kernel_words (c_regs c RSP) 3"
  defines "d \<equiv> run env return_to_user c"
  shows "c_regs d = (c_regs c)(RCX := ip, R11 := fl, RSP := sp)" and "c_rip d = ip" and "c_rflags d = sysret_flags fl"
    and "c_msr c MSR_GS_BASE = c_msr c MSR_KERNEL_GS_BASE \<Longrightarrow> c_msr d = c_msr c"
    and "c_cs d = (drop_bit 48 (c_msr c MSR_STAR) + 16) OR 3" and "c_ss d = (drop_bit 48 (c_msr c MSR_STAR) + 8) OR 3"
    and "c_ram d = c_ram c"
proof -
  let ?a = "c_regs c RSP"
  have three: "(3 :: nat) = Suc (Suc (Suc 0))" by simp
  have dr: "deref_phys (?a + 8) = deref_phys ?a + 8" "deref_phys (?a + 16) = deref_phys ?a + 16"
    using deref_word [OF k, of 1] deref_word [OF k, of 2] by simp_all
  have w': "read64 (c_ram c) (deref_phys ?a) = sp" "read64 (c_ram c) (deref_phys ?a + 8) = fl"
    "read64 (c_ram c) (deref_phys ?a + 16) = ip"
    using w unfolding three load_words.simps by (simp_all add: add.assoc)
  have ne: "MSR_STAR \<noteq> MSR_GS_BASE" "MSR_STAR \<noteq> MSR_KERNEL_GS_BASE" "MSR_GS_BASE \<noteq> MSR_KERNEL_GS_BASE"
    by (simp_all add: MSR_STAR_def MSR_GS_BASE_def MSR_KERNEL_GS_BASE_def)
  have d: "d = c\<lparr>c_regs := (c_regs c)(RCX := ip, R11 := fl, RSP := sp),
      c_msr := (c_msr c)(MSR_GS_BASE := c_msr c MSR_KERNEL_GS_BASE, MSR_KERNEL_GS_BASE := c_msr c MSR_GS_BASE),
      c_rip := ip, c_rflags := sysret_flags fl, c_cs := (drop_bit 48 (c_msr c MSR_STAR) + 16) OR 3,
      c_ss := (drop_bit 48 (c_msr c MSR_STAR) + 8) OR 3\<rparr>"
    by (simp add: d_def return_to_user_def set_reg_def load64_def dr w' Let_def ne)
  show "c_msr d = c_msr c" if "c_msr c MSR_GS_BASE = c_msr c MSR_KERNEL_GS_BASE" using that ne by (auto simp: d)
  show "c_regs d = (c_regs c)(RCX := ip, R11 := fl, RSP := sp)" "c_rip d = ip" "c_rflags d = sysret_flags fl"
    "c_cs d = (drop_bit 48 (c_msr c MSR_STAR) + 16) OR 3" "c_ss d = (drop_bit 48 (c_msr c MSR_STAR) + 8) OR 3" "c_ram d = c_ram c"
    by (simp_all add: d)
qed

lemma fork_kstack_words:
  assumes "kernel_words slot 17"
  shows "load_words (ram (fork_kstack kv (slot + 8) slot fr k)) (deref_phys slot) 17 =
    k_trampoline k # frame_words (fr\<lparr>fr_rax := 0\<rparr>)"
proof -
  let ?ws = "frame_words (fr\<lparr>fr_rax := 0\<rparr>)" and ?m = "ram (clear_mem kv 32768 k)"
  have d: "deref_phys (slot + 8) = deref_phys slot + 8" using deref_word [OF assms, of 1] by simp
  have m: "ram (fork_kstack kv (slot + 8) slot fr k) =
      write64 (store_words ?m (deref_phys slot + 8) ?ws) (deref_phys slot) (k_trampoline k)"
    by (simp add: fork_kstack_def Let_def poke64_def clear_mem_def frame_bytes_def store_bytes_words d)
  have "load_words (write64 (store_words ?m (deref_phys slot + 8) ?ws) (deref_phys slot) (k_trampoline k)) (deref_phys slot + 8) 16 =
      load_words (store_words ?m (deref_phys slot + 8) ?ws) (deref_phys slot + 8) 16"
    by (rule load_words_write_below) simp_all
  also have "\<dots> = ?ws" using load_store_words [of ?ws ?m "deref_phys slot + 8"] by simp
  finally have "load_words (ram (fork_kstack kv (slot + 8) slot fr k)) (deref_phys slot) (Suc 16) = k_trampoline k # ?ws"
    unfolding load_words.simps m by simp
  moreover have "(17 :: nat) = Suc 16" by simp
  ultimately show ?thesis by (simp only:)
qed

text \<open>The child's trampoline: its registers come from the frame, and the call in the middle changes nothing.\<close>

lemma run_fork_child_trampoline:
  fixes env :: env and c :: processor
  assumes w: "load_words (c_ram c) (deref_phys (c_regs c RSP)) 16 = frame_words fr" and k: "kernel_words (c_regs c RSP) 16"
    and room: "unat KERNEL_VIRT_BASE + 4096 \<le> unat (c_regs c RSP)"
    and ok: "well_behaved (c_regs c RSP + 32) 12 (snd (env ''setup_child_fs''))"
  defines "d \<equiv> run env fork_child_trampoline c"
  shows "c_regs d = frame_regs fr" and "c_rip d = fr_rcx fr" and "c_rflags d = sysret_flags (fr_r11 fr)"
    and "c_regs (at_call env ''setup_child_fs'' fork_child_trampoline c) RSP = c_regs c RSP + 16"
proof -
  let ?rs = "[RAX, RCX, RDX, RSI, RDI, R8, R9, R10, R11]"
  let ?body = "[SubImm RSP 8, Call ''setup_child_fs'', AddImm RSP 8]"
  define p where "p = run env (map Pop popped_regs) c"
  note P = pop_frame [OF w k, where env = env, folded p_def]
  have u: "unat (c_regs p RSP) = unat (c_regs c RSP) + 104" using k unfolding P(2) kernel_words_def by (subst unat_add_exact) auto
  have rs: "distinct ?rs" "RSP \<notin> set ?rs" by simp_all
  have r: "unat KERNEL_VIRT_BASE + 8 * length ?rs \<le> unat (c_regs p RSP)" "unat (c_regs p RSP) + 8 * 3 < 2 ^ 64"
    using u room k by (simp_all add: kernel_words_def)
  define b where "b = run env (map Push ?rs) p"
  note B = pushed_words [OF rs(2) r, where env = env, folded b_def]
  define base where "base = c_regs c RSP + 32"
  have bs: "c_regs b RSP = base" by (simp add: B(1) P(2) base_def)
  have ub: "unat base = unat (c_regs c RSP) + 32" using k unfolding base_def kernel_words_def by (subst unat_add_exact) auto
  define b' where "b' = exec env (SubImm RSP 8) b"
  have b': "c_regs b' = (c_regs b)(RSP := base - 8)" "c_ram b' = c_ram b" by (simp_all add: b'_def set_reg_def bs)
  have u8: "unat (base - 8) = unat base - 8" using ub by (subst unat_sub_exact) (auto simp: word_le_nat_alt)
  have sp: "unat (c_regs b' RSP) \<le> unat base" "unat base \<le> unat (c_regs b' RSP) + 16" using u8 by (simp_all add: b')
  have rm: "unat KERNEL_VIRT_BASE + 32 \<le> unat base" "unat base + 8 * 12 < 2 ^ 64" using ub room k by (simp_all add: kernel_words_def)
  note K = call_keeps [where env = env and f = "''setup_child_fs''" and c = b', OF ok [folded base_def] sp rm]
  define e where "e = exec env (Call ''setup_child_fs'') b'"
  note K' = K [folded e_def]
  have esp: "c_regs e RSP = base - 8" using K'(1) by (simp add: callee_saved_def b'(1))
  have run: "run env ?body b = set_reg RSP base e"
  proof -
    have "run env ?body b = exec env (AddImm RSP 8) e" by (simp only: run_simps(1,2) b'_def e_def)
    then show ?thesis by (simp add: esp)
  qed
  have body: "c_regs (run env ?body b) RSP = c_regs b RSP"
    "load_words (c_ram (run env ?body b)) (deref_phys (c_regs b RSP)) (length ?rs + 3) = load_words (c_ram b) (deref_phys (c_regs b RSP)) (length ?rs + 3)"
    unfolding run bs using K'(2) b'(2) by (simp_all add: set_reg_def)
  define q where "q = run env (map Push ?rs @ ?body @ map Pop (rev ?rs)) p"
  note R = saved_and_restored [OF rs r b_def body, folded q_def]
  have "c_regs q x = c_regs p x" for x
  proof (cases "x \<in> insert RSP (set ?rs)")
    case False
    then have "x \<in> set callee_saved" "x \<noteq> RSP" by (cases x; simp add: callee_saved_def)+
    then show ?thesis using R(3) [OF False] K'(1) b'(1) B(1) unfolding run by (simp add: set_reg_def)
  qed (rule R(1))
  then have q: "c_regs q = c_regs p" by blast
  have w3: "load_words (c_ram q) (deref_phys (c_regs q RSP)) 3 = [fr_user_rsp fr, fr_r11 fr, fr_rcx fr]"
    using R(2) P(4) by (simp add: q)
  have k3: "kernel_words (c_regs q RSP) 3" using u k by (simp add: q kernel_words_def)
  note U = run_return_to_user [OF w3 k3, where env = env]
  have "fork_child_trampoline = map Pop popped_regs @ (map Push ?rs @ ?body @ map Pop (rev ?rs)) @ return_to_user"
    by (simp add: fork_child_trampoline_def popped_regs_def return_to_user_def)
  from arg_cong [OF this, of "\<lambda>is. run env is c"] have d: "d = run env return_to_user q"
    unfolding d_def run_simps(3) [of env "map Pop popped_regs"] run_simps(3) [of env _ return_to_user] p_def q_def .
  show "c_rip d = fr_rcx fr" "c_rflags d = sysret_flags (fr_r11 fr)" unfolding d by (rule U)+
  show "c_regs d = frame_regs fr"
  proof
    fix x show "c_regs d x = frame_regs fr x" unfolding d U(1) q using P(1) [of x] by (auto simp: frame_regs_def)
  qed
  have "takeWhile (\<lambda>i. i \<noteq> Call ''setup_child_fs'') fork_child_trampoline = map Pop popped_regs @ map Push ?rs @ [SubImm RSP 8]"
    by (simp add: fork_child_trampoline_def popped_regs_def)
  then have "run env (takeWhile (\<lambda>i. i \<noteq> Call ''setup_child_fs'') fork_child_trampoline) c = b'"
    by (simp only: run_simps p_def b_def b'_def)
  then show "c_regs (at_call env ''setup_child_fs'' fork_child_trampoline c) RSP = c_regs c RSP + 16"
    by (simp add: at_call_def push64_eq b'(1) base_def)
qed


text \<open>
  The call in the trampoline is made on a misaligned stack: the calling convention wants the stack pointer aligned
  to 16 before a call, and the extra 8 bytes that the trampoline subtracts for this purpose undo the alignment.
\<close>

lemma setup_child_fs_misaligned:
  fixes env :: env and c :: processor
  assumes w: "load_words (c_ram c) (deref_phys (c_regs c RSP)) 16 = frame_words fr" and k: "kernel_words (c_regs c RSP) 16"
    and room: "unat KERNEL_VIRT_BASE + 4096 \<le> unat (c_regs c RSP)"
    and ok: "well_behaved (c_regs c RSP + 32) 12 (snd (env ''setup_child_fs''))"
    and kst: "16 dvd unat (c_regs c RSP)"
  shows "\<not> 16 dvd unat (c_regs (at_call env ''setup_child_fs'' fork_child_trampoline c) RSP + 8)"
proof -
  have "unat (c_regs c RSP + 24) = unat (c_regs c RSP) + 24" using k unfolding kernel_words_def by (subst unat_add_exact) auto
  then show ?thesis using run_fork_child_trampoline(4) [where env = env, OF w k room ok] kst by (simp add: add.assoc dvd_add_right_iff)
qed

section \<open>System calls\<close>

lemma wrmsr64_eq: "wrmsr64 n v c = c\<lparr>c_msr := (c_msr c)(n := v)\<rparr>"
proof -
  have "push_bit 32 (ucast (ucast (drop_bit 32 v) :: u32)) OR ucast (ucast v :: u32) = v"
    by (rule bit_word_eqI) (auto simp: bit_simps)
  then show ?thesis by (simp add: wrmsr64_def wrmsr_def)
qed

lemma syscall_init_msrs:
  fixes g entry :: u64
  fixes c :: processor
  defines "m \<equiv> c_msr (syscall_init entry g c)"
  shows "m MSR_EFER AND 1 \<noteq> 0" and "m MSR_STAR = STAR_VALUE" and "m MSR_LSTAR = entry" and "m MSR_FMASK = 0x600"
    and "m MSR_GS_BASE = g" and "m MSR_KERNEL_GS_BASE = g"
proof -
  have o: "(e OR 1) AND 1 = 1" for e :: u64 by (rule bit_word_eqI) (auto simp: bit_simps)
  show "m MSR_EFER AND 1 \<noteq> 0"
    by (simp add: m_def syscall_init_def enable_syscall_msr_def Let_def rdmsr_def wrmsr64_eq wrmsr_def o
        MSR_EFER_def MSR_STAR_def MSR_LSTAR_def MSR_FMASK_def MSR_GS_BASE_def MSR_KERNEL_GS_BASE_def)
  show "m MSR_STAR = STAR_VALUE" "m MSR_LSTAR = entry" "m MSR_FMASK = 0x600" "m MSR_GS_BASE = g" "m MSR_KERNEL_GS_BASE = g"
    by (simp_all add: m_def syscall_init_def enable_syscall_msr_def Let_def rdmsr_def wrmsr64_eq wrmsr_def
        MSR_EFER_def MSR_STAR_def MSR_LSTAR_def MSR_FMASK_def MSR_GS_BASE_def MSR_KERNEL_GS_BASE_def)
qed

lemma words_apart:
  fixes a b :: u64
  assumes "unat a + 8 \<le> unat b \<or> unat b + 8 \<le> unat a" and "unat a + 8 \<le> 2 ^ 64" and "unat b + 8 \<le> 2 ^ 64"
  shows "8 \<le> unat (b - a)" and "8 \<le> unat (a - b)"
proof -
  have ne: "a \<noteq> b" using assms(1) by auto
  have "unat a \<le> unat b \<Longrightarrow> unat (b - a) = unat b - unat a" "unat b \<le> unat a \<Longrightarrow> unat (a - b) = unat a - unat b"
    by (simp_all add: unat_sub_exact word_le_nat_alt)
  then show "8 \<le> unat (b - a)" "8 \<le> unat (a - b)"
    using assms unat_opposite [OF ne] by linarith+
qed

lemma load_words_update:
  assumes "i < n" and "8 * n < 2 ^ 64"
  shows "load_words (write64 m (a + 8 * of_nat i) v) a n = (load_words m a n)[i := v]"
proof (rule nth_equalityI)
  fix j assume "j < length (load_words (write64 m (a + 8 * of_nat i) v) a n)"
  then have j: "j < n" by simp
  have u: "unat (8 * of_nat x :: u64) = 8 * x" if "x < n" for x
    using assms(2) that by (simp add: unat_word_ariths unat_of_nat)
  show "load_words (write64 m (a + 8 * of_nat i) v) a n ! j = (load_words m a n)[i := v] ! j"
  proof (cases "i = j")
    case True
    then show ?thesis using j by (simp add: load_words_nth)
  next
    case False
    let ?x = "8 * of_nat i :: u64" and ?y = "8 * of_nat j :: u64"
    have "unat ?x + 8 \<le> unat ?y \<or> unat ?y + 8 \<le> unat ?x" "unat ?x + 8 \<le> 2 ^ 64" "unat ?y + 8 \<le> 2 ^ 64"
      using u [OF assms(1)] u [OF j] False assms j by auto
    note words_apart [OF this]
    then have "read64 (write64 m (a + ?x) v) (a + ?y) = read64 m (a + ?y)" by (intro read64_write64_off) simp_all
    then show ?thesis using False j by (simp add: load_words_nth)
  qed
qed simp

definition user_frame :: "u64 \<Rightarrow> processor \<Rightarrow> SyscallFrame" where
  "user_frame next_ip c =
     \<lparr>fr_r15 = c_regs c R15, fr_r14 = c_regs c R14, fr_r13 = c_regs c R13, fr_r12 = c_regs c R12, fr_rbp = c_regs c RBP,
      fr_rbx = c_regs c RBX, fr_r9 = c_regs c R9, fr_r8 = c_regs c R8, fr_r10 = c_regs c R10, fr_rdx = c_regs c RDX,
      fr_rsi = c_regs c RSI, fr_rdi = c_regs c RDI, fr_rax = c_regs c RAX, fr_user_rsp = c_regs c RSP,
      fr_r11 = c_rflags c, fr_rcx = next_ip\<rparr>"

text \<open>The handler returns \<open>ret\<close>, leaves \<open>fr\<close> in the frame it was given, and follows the calling convention.\<close>

definition serves :: "(processor \<Rightarrow> processor) \<Rightarrow> processor \<Rightarrow> u64 \<Rightarrow> SyscallFrame \<Rightarrow> bool" where
  "serves fn x ret fr \<longleftrightarrow> (\<forall>r\<in>set callee_saved. c_regs (fn x) r = c_regs x r) \<and> c_regs (fn x) RAX = ret \<and>
     load_words (c_ram (fn x)) (deref_phys (c_regs x RDI)) 16 = frame_words fr \<and>
     (\<forall>n\<in>{MSR_STAR, MSR_GS_BASE, MSR_KERNEL_GS_BASE}. c_msr (fn x) n = c_msr x n)"

text \<open>Up to the call of the handler: the frame is on the kernel stack.\<close>

lemma enter_frame:
  fixes env :: env and s :: processor
  assumes gs: "c_msr s MSR_GS_BASE = g" "c_msr s MSR_KERNEL_GS_BASE = g" and g: "kernel_words g 2" "load64 s g = kst"
    and room: "unat KERNEL_VIRT_BASE + 4096 \<le> unat kst" "unat g + 16 \<le> unat kst - 4096 \<or> unat kst \<le> unat g"
    and fr: "frame_words fr = map (c_regs s) popped_regs @ [c_regs s RSP, c_regs s R11, c_regs s RCX]"
  defines "b \<equiv> run env ([Swapgs, StoreGs 8 RSP, LoadGs RSP 0, Push RCX, Push R11, PushGs 8] @ map Push (rev popped_regs)) s"
  shows "c_regs b = (c_regs s)(RSP := kst - 128)" and "c_msr b = c_msr s"
    and "load_words (c_ram b) (deref_phys (kst - 128)) 16 = frame_words fr"
proof -
  let ?m = "write64 (c_ram s) (deref_phys (g + 8)) (c_regs s RSP)"
  have gd: "deref_phys (g + 8) = deref_phys g + 8" using deref_word [OF g(1), of 1] by simp
  have kv: "unat KERNEL_VIRT_BASE \<le> unat g" "unat g + 16 < 2 ^ 64" using g(1) by (auto simp: kernel_words_def)
  have u8: "unat (g + 8) = unat g + 8" using kv by (subst unat_add_exact) auto
  define p where "p = run env [Swapgs, StoreGs 8 RSP, LoadGs RSP 0] s"
  have ne: "MSR_GS_BASE \<noteq> MSR_KERNEL_GS_BASE" by (simp add: MSR_GS_BASE_def MSR_KERNEL_GS_BASE_def)
  have sw: "(c_msr s)(MSR_GS_BASE := g, MSR_KERNEL_GS_BASE := g) = c_msr s" using gs by (simp add: fun_upd_idem)
  have "read64 ?m (deref_phys g) = kst"
    using g(2) unfolding gd load64_def by (subst read64_write64_off) simp_all
  then have p: "p = s\<lparr>c_regs := (c_regs s)(RSP := kst), c_ram := ?m\<rparr>"
    by (simp add: p_def sw gs ne set_reg_def store64_def load64_def)
  have pr: "c_regs p RSP = kst" "c_msr p = c_msr s" "c_ram p = ?m" by (simp_all add: p)
  define q where "q = run env (map Push [RCX, R11]) p"
  have "unat KERNEL_VIRT_BASE + 8 * length [RCX, R11] \<le> unat (c_regs p RSP)" using room(1) by (simp add: p)
  note Q = run_pushes [OF _ this, of env, folded q_def]
  have scratch: "load64 q (g + 8) = c_regs s RSP"
  proof -
    have t: "unat (kst - 8) = unat kst - 8" "unat (kst - 16) = unat kst - 16"
      using room(1) by (subst unat_sub_exact; auto simp: word_le_nat_alt)+
    have dd: "deref_phys (g + 8) - deref_phys (kst - n) = (g + 8) - (kst - n)" "deref_phys (kst - n) - deref_phys (g + 8) = (kst - n) - (g + 8)"
      "deref_phys (kst - n) = deref_phys kst - n"
      if "n \<in> {8, 16}" for n
      using that kv u8 t room(1) by (auto simp: deref_phys_def word_le_nat_alt)
    have lt: "unat kst < 2 ^ 64" by (rule order.strict_trans2 [OF unsigned_less]) simp
    have ap: "8 \<le> unat ((g + 8) - (kst - n))" "8 \<le> unat ((kst - n) - (g + 8))" if n: "n \<in> {8, 16}" for n
      by (rule words_apart; use n room u8 t kv lt in auto)+
    have off: "read64 (write64 m (deref_phys (kst - n)) v) (deref_phys (g + 8)) = read64 m (deref_phys (g + 8))" if n: "n \<in> {8, 16}" for n m v
      by (rule read64_write64_off) (simp_all only: dd(1,2) [OF n] ap [OF n])
    have "c_ram q = write64 (write64 ?m (deref_phys (kst - 8)) (c_regs s RCX)) (deref_phys (kst - 16)) (c_regs s R11)"
      using dd(3) by (simp add: Q p)
    then show ?thesis by (simp add: load64_def off)
  qed
  let ?c = "push64 (c_regs s RSP) q" and ?vs = "rev (frame_words fr)"
  have rest: "map (c_regs ?c) (rev popped_regs) = map (c_regs s) (rev popped_regs)"
    by (auto simp: push64_eq Q p popped_regs_simps)
  have "b = run env (map Push (rev popped_regs)) (exec env (PushGs 8) q)"
    unfolding b_def q_def p_def by (simp only: run_simps append.simps list.map)
  also have "exec env (PushGs 8) q = ?c" using scratch gs by (simp add: Q p)
  also have "run env (map Push (rev popped_regs)) ?c = fold push64 (map (c_regs s) (rev popped_regs)) ?c"
    using run_pushes_fold [of "rev popped_regs" env ?c] rest popped_regs_simps(2) by simp
  also have "q = fold push64 [c_regs s RCX, c_regs s R11] p"
    using run_pushes_fold [of "[RCX, R11]" env p] by (simp add: q_def p)
  also have "fold push64 (map (c_regs s) (rev popped_regs)) (push64 (c_regs s RSP) (fold push64 [c_regs s RCX, c_regs s R11] p)) =
      fold push64 ?vs p"
    by (simp add: fr rev_map)
  also have "\<dots> = p\<lparr>c_regs := (c_regs p)(RSP := c_regs p RSP - 8 * of_nat (length ?vs)),
           c_ram := push_words (c_ram p) (deref_phys (c_regs p RSP)) ?vs\<rparr>"
    by (rule fold_push64) (use room(1) pr in simp)
  finally have b: "b = p\<lparr>c_regs := (c_regs s)(RSP := kst - 128), c_ram := push_words ?m (deref_phys kst) ?vs\<rparr>"
    by (simp add: p)
  show "c_regs b = (c_regs s)(RSP := kst - 128)" "c_msr b = c_msr s" by (simp_all add: b p)
  have "unat (kst - 128) = unat kst - 128" using room(1) by (subst unat_sub_exact) (auto simp: word_le_nat_alt)
  then have "deref_phys (kst - 128) = deref_phys kst - 128" using deref_phys_off [of kst "- 128"] room(1) by simp
  then show "load_words (c_ram b) (deref_phys (kst - 128)) 16 = frame_words fr"
    using load_push_words [of ?vs ?m "deref_phys kst"] by (simp add: b)
qed

definition handler_call :: "instr list" where
  "handler_call = [Mov RBP RSP, AndImm RSP (- 16), Mov RDI RBP, Call ''syscall_handler'', Store RBP 0x60 RAX, Mov RSP RBP]"

lemma syscall_entry_parts:
  "syscall_entry = ([Swapgs, StoreGs 8 RSP, LoadGs RSP 0, Push RCX, Push R11, PushGs 8] @ map Push (rev popped_regs)) @
     handler_call @ map Pop popped_regs @ return_to_user"
  by (simp add: syscall_entry_def popped_regs_def handler_call_def return_to_user_def)

lemma frame_words_rax: "frame_words (fr\<lparr>fr_rax := v\<rparr>) = (frame_words fr)[12 := v]"
  by (simp add: frame_words_def numeral_eq_Suc)

text \<open>From the frame on the stack to the call of the handler, and from its return to user mode.\<close>

lemma handler_and_return:
  fixes env :: env and b :: processor
  assumes w: "load_words (c_ram b) (deref_phys base) 16 = frame_words fr" and sp: "c_regs b RSP = base"
    and k: "kernel_words base 16" "unat KERNEL_VIRT_BASE + 32 \<le> unat base"
  defines "x \<equiv> push64 (fst (env ''syscall_handler'')) (run env [Mov RBP RSP, AndImm RSP (- 16), Mov RDI RBP] b)"
  defines "d \<equiv> run env (handler_call @ map Pop popped_regs @ return_to_user) b"
  shows "c_regs x RDI = base" and "load_words (c_ram x) (deref_phys base) 16 = frame_words fr"
    and "16 dvd unat (c_regs x RSP + 8)"
    and "serves (snd (env ''syscall_handler'')) x ret fr' \<Longrightarrow>
      c_regs d = frame_regs (fr'\<lparr>fr_rax := ret\<rparr>) \<and> c_rip d = fr_rcx fr' \<and> c_rflags d = sysret_flags (fr_r11 fr') \<and>
      c_cs d = (drop_bit 48 (c_msr b MSR_STAR) + 16) OR 3 \<and> c_ss d = (drop_bit 48 (c_msr b MSR_STAR) + 8) OR 3"
proof -
  obtain ra fn where e: "env ''syscall_handler'' = (ra, fn)" by fastforce
  define b' where "b' = run env [Mov RBP RSP, AndImm RSP (- 16), Mov RDI RBP] b"
  have b': "c_regs b' = (c_regs b)(RBP := base, RSP := base AND - 16, RDI := base)" "c_ram b' = c_ram b" "c_msr b' = c_msr b"
    by (auto simp: b'_def set_reg_def sp)
  have al: "unat (base AND - 16) \<le> unat base" "unat base \<le> unat (base AND - 16) + 16" "16 dvd unat (base AND - 16)"
    unfolding unat_align16 using mult_div_mod_eq [of 16 "unat base"] mod_less_divisor [of 16 "unat base"] by (linarith, linarith, simp)
  have x: "x = push64 ra b'" by (simp only: x_def b'_def e fst_conv)
  show rdi: "c_regs x RDI = base" by (simp add: x push64_eq b')
  show "16 dvd unat (c_regs x RSP + 8)" using al(3) by (simp add: x push64_eq b')
  have un: "unat ((base AND - 16) - 8) = unat (base AND - 16) - 8"
    using al k(2) by (subst unat_sub_exact) (auto simp: word_le_nat_alt)
  have kv: "unat KERNEL_VIRT_BASE \<le> unat base" "unat KERNEL_VIRT_BASE \<le> unat ((base AND - 16) - 8)" using al k un by auto
  have "deref_phys base - deref_phys ((base AND - 16) - 8) = base - ((base AND - 16) - 8)"
    using kv by (simp add: deref_phys_def word_le_nat_alt)
  moreover have "unat (base - ((base AND - 16) - 8)) = unat base - (unat (base AND - 16) - 8)"
    using un al by (subst unat_sub_exact) (auto simp: word_le_nat_alt)
  ultimately show wx: "load_words (c_ram x) (deref_phys base) 16 = frame_words fr"
    using load_words_write_below [of "deref_phys base" "deref_phys ((base AND - 16) - 8)" 16 "c_ram b" ra] al w k
    by (simp add: x push64_eq b')
  assume sv: "serves (snd (env ''syscall_handler'')) x ret fr'"
  then have S: "\<forall>r\<in>set callee_saved. c_regs (fn x) r = c_regs x r" "c_regs (fn x) RAX = ret"
    "load_words (c_ram (fn x)) (deref_phys base) 16 = frame_words fr'" "c_msr (fn x) MSR_STAR = c_msr b MSR_STAR"
    by (simp_all add: serves_def e rdi) (simp add: x push64_eq b')
  have rbp: "c_regs (fn x) RBP = base" using S(1) by (simp add: callee_saved_def x push64_eq b')
  define h where "h = run env handler_call b"
  have h: "h = set_reg RSP base (store64 (base + 0x60) ret (set_reg RSP (c_regs (fn x) RSP + 8) (fn x)))"
  proof -
    have "h = run env [Call ''syscall_handler'', Store RBP 0x60 RAX, Mov RSP RBP] b'"
      by (simp only: h_def handler_call_def run_simps b'_def)
    then show ?thesis using rbp S(2) by (simp add: e x [symmetric] set_reg_def store64_def Let_def)
  qed
  have dw: "deref_phys (base + 0x60) = deref_phys base + 8 * of_nat 12" using deref_word [OF k(1), of 12] by simp
  have hw: "load_words (c_ram h) (deref_phys (c_regs h RSP)) 16 = frame_words (fr'\<lparr>fr_rax := ret\<rparr>)"
    using load_words_update [of 12 16 "c_ram (fn x)" "deref_phys base" ret] S(3)
    unfolding frame_words_rax by (simp add: h set_reg_def store64_def dw)
  have hk: "kernel_words (c_regs h RSP) 16" using k(1) by (simp add: h set_reg_def)
  note P = pop_frame [OF hw hk, where env = env]
  define q where "q = run env (map Pop popped_regs) h"
  have qs: "c_regs q RSP = base + 104" using P(2) by (simp add: q_def h set_reg_def)
  have "unat (base + 104) = unat base + 104" using k(1) unfolding kernel_words_def by (subst unat_add_exact) auto
  then have k3: "kernel_words (c_regs q RSP) 3" using k(1) by (simp add: qs kernel_words_def)
  note U = run_return_to_user [OF P(4) [folded q_def] k3, where env = env]
  have d: "d = run env return_to_user q" by (simp only: d_def h_def q_def run_simps)
  have "c_regs d r = frame_regs (fr'\<lparr>fr_rax := ret\<rparr>) r" for r
    unfolding d U(1) using P(1) [of r, folded q_def] by (auto simp: frame_regs_def)
  moreover have "c_msr q MSR_STAR = c_msr b MSR_STAR" using P(5) S(4) by (simp add: q_def h set_reg_def store64_def)
  ultimately show "c_regs d = frame_regs (fr'\<lparr>fr_rax := ret\<rparr>) \<and> c_rip d = fr_rcx fr' \<and> c_rflags d = sysret_flags (fr_r11 fr') \<and>
      c_cs d = (drop_bit 48 (c_msr b MSR_STAR) + 16) OR 3 \<and> c_ss d = (drop_bit 48 (c_msr b MSR_STAR) + 8) OR 3"
    using U(2,3,5,6) unfolding d by auto
qed

text \<open>
  C11. A system call from user mode and back. The model-specific registers are the ones that \<^verbatim>\<open>syscall::init\<close> has set, the
  per-CPU block holds the kernel stack pointer, and the stack has a page of room that the block is not in. Then
  the \<^verbatim>\<open>syscall\<close> instruction is enabled and goes to the entry code; the entry code calls \<^verbatim>\<open>syscall_handler\<close> on an aligned
  stack with a pointer to a frame that holds every register of the caller; and when the handler returns a value and
  leaves some frame behind, the caller continues at the address of that frame in ring 3, with every register from the
  frame and the handler's value in \<^verbatim>\<open>rax\<close>.
\<close>

theorem syscall_roundtrip:
  fixes c c0 :: processor and g entry :: u64
  assumes msrs: "c_msr c = c_msr (syscall_init entry g c0)"
    and percpu: "kernel_words g 2" "load64 c g = kst" "unat g + 16 \<le> unat kst - 4096 \<or> unat kst \<le> unat g"
    and stack: "unat KERNEL_VIRT_BASE + 4096 \<le> unat kst"
  shows "\<exists>s. syscall_insn next_ip c = Some s \<and> c_rip s = entry \<and>
    (let x = at_call env ''syscall_handler'' syscall_entry s; d = run env syscall_entry s in
      load_words (c_ram x) (deref_phys (c_regs x RDI)) 16 = frame_words (user_frame next_ip c) \<and>
      16 dvd unat (c_regs x RSP + 8) \<and>
      (serves (snd (env ''syscall_handler'')) x ret fr \<longrightarrow>
        c_regs d = frame_regs (fr\<lparr>fr_rax := ret\<rparr>) \<and> c_rip d = fr_rcx fr \<and> c_rflags d = sysret_flags (fr_r11 fr) \<and>
        c_cs d = 0x33 \<and> c_ss d = 0x2B))"
proof -
  note M = syscall_init_msrs [of entry g c0, folded msrs]
  obtain s where s: "syscall_insn next_ip c = Some s" "c_regs s = (c_regs c)(RCX := next_ip, R11 := c_rflags c)"
    "c_msr s = c_msr c" "c_ram s = c_ram c" "c_rip s = entry"
    using M(1,3) by (simp add: syscall_insn_def Let_def set_reg_def)
  let ?enter = "[Swapgs, StoreGs 8 RSP, LoadGs RSP 0, Push RCX, Push R11, PushGs 8] @ map Push (rev popped_regs)"
  have fr: "frame_words (user_frame next_ip c) = map (c_regs s) popped_regs @ [c_regs s RSP, c_regs s R11, c_regs s RCX]"
    by (simp add: frame_words_def user_frame_def popped_regs_def s)
  have gs: "c_msr s MSR_GS_BASE = g" "c_msr s MSR_KERNEL_GS_BASE = g" using M(5,6) by (simp_all add: s)
  have ld: "load64 s g = kst" using percpu(2) by (simp add: load64_def s)
  define b where "b = run env ?enter s"
  note E = enter_frame [OF gs percpu(1) ld stack percpu(3) fr, where env = env, folded b_def]
  have u: "unat (kst - 128) = unat kst - 128" using stack by (subst unat_sub_exact) (auto simp: word_le_nat_alt)
  have lt: "unat kst < 2 ^ 64" by (rule order.strict_trans2 [OF unsigned_less]) simp
  have k: "kernel_words (kst - 128) 16" "unat KERNEL_VIRT_BASE + 32 \<le> unat (kst - 128)" "c_regs b RSP = kst - 128"
    using stack lt by (simp_all add: u kernel_words_def E(1))
  note H = handler_and_return [OF E(3) k(3,1,2), where env = env]
  have tw: "takeWhile (\<lambda>i. i \<noteq> Call ''syscall_handler'') syscall_entry = ?enter @ [Mov RBP RSP, AndImm RSP (- 16), Mov RDI RBP]"
    by (simp add: syscall_entry_def popped_regs_def)
  have x: "at_call env ''syscall_handler'' syscall_entry s =
      push64 (fst (env ''syscall_handler'')) (run env [Mov RBP RSP, AndImm RSP (- 16), Mov RDI RBP] b)"
    unfolding at_call_def tw run_simps(3) [of env ?enter] b_def ..
  have d: "run env syscall_entry s = run env (handler_call @ map Pop popped_regs @ return_to_user) b"
    unfolding syscall_entry_parts run_simps(3) [of env ?enter] b_def ..
  have star: "(drop_bit 48 (c_msr b MSR_STAR) + 16) OR 3 = 0x33" "(drop_bit 48 (c_msr b MSR_STAR) + 8) OR 3 = 0x2B"
    using M(2) by (simp_all add: E(2) s STAR_VALUE_def)
  show ?thesis
    by (intro exI [of _ s], unfold Let_def x d H(1)) (intro conjI impI s(1,5) H(2,3) H(4) [of ret fr, unfolded star])
qed

text \<open>A caller with the registers set up, its kernel stack pointer in the per-CPU block, and two contexts.\<close>

definition demo_caller :: processor where
  "demo_caller = demo_processor\<lparr>c_msr := c_msr (syscall_init 0xffff800000201000 0xffff800000020000 demo_processor),
     c_ram := write64 (\<lambda>_. 0) 0x20000 0xffff800000010000\<rparr>"

theorem syscall_roundtrip_witness:
  "\<exists>s. syscall_insn 0x401002 demo_caller = Some s \<and> c_rip s = 0xffff800000201000 \<and>
     (let d = run demo_callee syscall_entry s in c_regs d RAX = 5 \<and> c_regs d RBX = 7 \<and> c_regs d RSP = 0x7ffef000 \<and>
       c_rip d = 0x401002 \<and> c_cs d = 0x33)"
proof -
  let ?x = "at_call demo_callee ''syscall_handler'' syscall_entry"
  have m: "c_msr demo_caller = c_msr (syscall_init 0xffff800000201000 0xffff800000020000 demo_processor)"
    by (simp add: demo_caller_def)
  have h: "kernel_words 0xffff800000020000 2" "load64 demo_caller 0xffff800000020000 = 0xffff800000010000"
    "unat (0xffff800000020000 :: u64) + 16 \<le> unat (0xffff800000010000 :: u64) - 4096 \<or> unat (0xffff800000010000 :: u64) \<le> unat (0xffff800000020000 :: u64)"
    "unat KERNEL_VIRT_BASE + 4096 \<le> unat (0xffff800000010000 :: u64)"
    by (simp_all add: kernel_words_def KERNEL_VIRT_BASE_def load64_def deref_phys_def demo_caller_def)
  have fr: "fr_rcx (user_frame 0x401002 demo_caller) = 0x401002" "frame_regs ((user_frame 0x401002 demo_caller)\<lparr>fr_rax := 5\<rparr>) RAX = 5"
    "frame_regs ((user_frame 0x401002 demo_caller)\<lparr>fr_rax := 5\<rparr>) RBX = 7"
    "frame_regs ((user_frame 0x401002 demo_caller)\<lparr>fr_rax := 5\<rparr>) RSP = 0x7ffef000"
    by (simp_all add: user_frame_def frame_regs_def demo_caller_def demo_processor_def)
  have sv: "serves (snd (demo_callee ''syscall_handler'')) x 5 (user_frame 0x401002 demo_caller)"
    if "load_words (c_ram x) (deref_phys (c_regs x RDI)) 16 = frame_words (user_frame 0x401002 demo_caller)" for x
    using that by (simp add: serves_def demo_callee_def set_reg_def callee_saved_def)
  show ?thesis
    using syscall_roundtrip [OF m h, where next_ip = "0x401002" and env = demo_callee and ret = 5 and fr = "user_frame 0x401002 demo_caller"] sv fr
    by (auto simp: Let_def)
qed

text \<open>A forked child with its kernel stack at \<open>0x8000\<close>, before the scheduler switches to it.\<close>

definition demo_fork_kernel :: kernel where
  "demo_fork_kernel = (demo_kernel demo_kmem [None] 0)\<lparr>k_trampoline := 0xffff800000203000\<rparr>"

definition demo_fork_frame :: SyscallFrame where
  "demo_fork_frame = user_frame 0x401002 demo_processor"

definition demo_child_stack :: pmem where
  "demo_child_stack = ram (fork_kstack 0xffff800000008000 0xffff80000000ff80 0xffff80000000ff78 demo_fork_frame demo_fork_kernel)"


end
