(* ===== verification/Spec2Isabelle.thy ===== *)
theory Spec2Isabelle
  imports Buddy_Spec Address_Space_Spec Fd_Spec Scheduler_Spec Elf_Spec Boot_Spec Heap_Spec Wait_Spec Spin_Lock Entry_User_Spec
begin

text \<open>
  Verification of ferrum-os (\<^verbatim>\<open>src/kernel/src\<close>), an x86-64 kernel in Rust with a buddy page allocator, a slab heap,
  four-level page tables, per-process memory areas with demand paging, an in-memory file system, pipes, a round-robin
  scheduler and a Linux-like system-call layer.

  \<^bold>\<open>Execution model.\<close> The kernel is modelled as the debug build that \<^verbatim>\<open>make run\<close> boots: arithmetic overflow, an index out
  of range, \<^verbatim>\<open>unwrap\<close> of nothing and a failed assertion all panic, and the code under \<^verbatim>\<open>cfg(debug_assertions)\<close> runs. A
  function of the kernel is a HOL function into an option type in which \<open>None\<close> means that the call does not return (a
  panic, a loop that never ends, or a process killed by the page-fault handler in the middle of a system call); the
  \<^verbatim>\<open>Option\<close> and \<^verbatim>\<open>Result\<close> values of the source are option and sum values inside it. State is passed explicitly. Machine
  integers are words of their width, \<^verbatim>\<open>usize\<close> counts of elements are naturals with checked addition, a \<^verbatim>\<open>String\<close> is its
  list of bytes, and an object behind an \<^verbatim>\<open>Arc\<close> is an index into a store. Physical memory is a function from 64-bit
  addresses to bytes; free lists, page tables, stacks and user data all live in it, so that aliasing between them is a
  matter of proof and not of types.

  \<^bold>\<open>State.\<close> The records extend one another in the order in which the kernel builds them: \<open>machine\<close> (memory), \<open>buddy\<close> (the
  free-list heads of \<^verbatim>\<open>allocator.rs\<close>), \<open>kmem\<close> (the owner register of \<^verbatim>\<open>page_owner.rs\<close>), \<open>kernel\<close> (root file system, open files
  and pipes, scheduler, kernel address space, processor registers that the code sets, console). Each theory states its
  operations over the smallest of these records, for every extension of it.

  \<^bold>\<open>Theories, in the order of the code.\<close>
  \<^item> \<open>Ferrum_Base\<close>: the prelude. Checked arithmetic, little-endian memory access, the direct map (\<^verbatim>\<open>phys_to_virt\<close>), alignment,
    and the shared lemmas on words, lists and options.
  \<^item> \<open>Buddy\<close>, \<open>Buddy_Spec\<close> (\<^verbatim>\<open>allocator.rs\<close>): the allocator with its lists threaded through free memory, and its contract as
    a set of free frames (\<open>avail\<close>): \<^verbatim>\<open>alloc\<close>, \<^verbatim>\<open>free\<close> and \<^verbatim>\<open>add_region\<close> return, change exactly that set, and no run of clients
    that write their own blocks can break it.
  \<^item> \<open>Page_Owner\<close> (\<^verbatim>\<open>page_owner.rs\<close>): the register of page owners, with its capacity.
  \<^item> \<open>Paging\<close>, \<open>Page_Tree\<close>, \<open>Paging_Spec\<close> (\<^verbatim>\<open>paging.rs\<close>): entries, tables and every operation on them; tables as trees of
    distinct frames (\<open>pt_ok\<close>) and the partial map a tree stands for. The locale \<open>page_allocator\<close> is the trait of the page
    allocators; both implementations are interpretations of it, and \<^verbatim>\<open>map\<close>, \<^verbatim>\<open>unmap\<close> and \<^verbatim>\<open>translate\<close> are proved over it.
  \<^item> \<open>Vma_List\<close> (\<^verbatim>\<open>vma.rs\<close>): the sorted list of areas as a map from addresses to attributes; insertion with merging, binary
    search, first-fit search, \<^verbatim>\<open>mmap\<close>, \<^verbatim>\<open>extend_heap\<close>.
  \<^item> \<open>Address_Space\<close>, \<open>Address_Space_Spec\<close> (\<^verbatim>\<open>vma.rs\<close>): page faults, \<^verbatim>\<open>munmap\<close>, \<^verbatim>\<open>mmap_fixed\<close>, tear-down; an address space as an
    injective map from user pages to frames (\<open>user_map\<close>, \<open>aspace_ok\<close>).
  \<^item> \<open>Vfs\<close>, \<open>Vfs_Spec\<close>, \<open>Procfs\<close> (\<^verbatim>\<open>fs/\<close>): nodes (the locale \<open>file_node\<close>, interpreted for both node types), the in-memory file
    system and its refinement to a finite map from paths to contents; the texts of the process files.
  \<^item> \<open>Path_Names\<close> (\<^verbatim>\<open>resolve_path\<close> of \<^verbatim>\<open>syscall.rs\<close>): canonical paths and resolution.
  \<^item> \<open>Initramfs\<close> (\<^verbatim>\<open>initramfs.rs\<close>): the unpacker, inverse to a writer of the format and total on every byte string.
  \<^item> \<open>Fd_Table\<close>, \<open>Fd_Spec\<close> (\<^verbatim>\<open>fd.rs\<close>, \<^verbatim>\<open>pipe.rs\<close>): descriptor tables over stores of open files and pipes; reference counts over
    every run of the operations.
  \<^item> \<open>Processes\<close>, \<open>Scheduler_Spec\<close> (\<^verbatim>\<open>process.rs\<close>, \<^verbatim>\<open>interrupts.rs\<close>): the process table and \<^verbatim>\<open>schedule\<close>; round robin, fairness,
    distinct process numbers.
  \<^item> \<open>User_Memory\<close>, \<open>User_Memory_Spec\<close> (\<^verbatim>\<open>interrupts.rs\<close>, \<^verbatim>\<open>syscall.rs\<close>): accesses of the kernel through user pointers, with the
    page faults they raise; what a process sees in its memory (\<open>user_byte\<close>).
  \<^item> \<open>Syscalls_Io\<close>, \<open>Syscalls_Files\<close>, \<open>Syscalls_Names\<close>, \<open>Syscalls_Proc\<close> (\<^verbatim>\<open>syscall.rs\<close>): every system call and the dispatcher; a
    handler maps the saved registers and the state to a result (a return value, or a switch to another process) and
    the new state. \<open>Syscalls_Io_Spec\<close>: \<^verbatim>\<open>read\<close> and \<^verbatim>\<open>write\<close> from one user buffer to another through a file or a pipe.
  \<^item> \<open>Elf\<close>, \<open>Elf_Spec\<close> (\<^verbatim>\<open>elf.rs\<close>): the loader; every page of every segment holds the bytes of the file with the rights of the
    segment.
  \<^item> \<open>Process_Setup\<close> (\<^verbatim>\<open>process.rs\<close>): constructors of processes, initial stacks, \<^verbatim>\<open>fork\<close>.
  \<^item> \<open>Boot\<close>, \<open>Boot_Spec\<close> (\<^verbatim>\<open>main.rs\<close>): registering the memory map of the firmware, the first tables, the first process.
  \<^item> \<open>Kernel_Heap\<close>, \<open>Heap_Spec\<close> (\<^verbatim>\<open>heap.rs\<close>): slab caches and large allocations; safety of every run of clients.
  \<^item> \<open>Spin_Lock\<close> (\<^verbatim>\<open>spinlock.rs\<close>): the two locks as a step relation over any number of processors.

  \<^bold>\<open>Bounds and termination.\<close> No definition uses fuel. Loops over the structure of the data are structural recursions; loops
  over addresses and counters have a termination proof from the distance to their end; the walks through lists in memory
  (\<^verbatim>\<open>remove_from_list\<close>, \<^verbatim>\<open>grow_cache\<close>, the order of a large allocation) are partial functions into option, so that a cyclic
  list is a call that does not return, and the contracts prove that they return on states satisfying the invariants.
  The user half ends at \<open>2 ^ 47\<close>, which the loader and the address-space theorems assume of the areas.

  \<^bold>\<open>Not modelled.\<close> The firmware calls of \<^verbatim>\<open>main.rs\<close> (\<^verbatim>\<open>get_image_info\<close>, \<^verbatim>\<open>load_file_from_esp\<close>): their results are arguments of
  the start-up definitions. \<^verbatim>\<open>tests.rs\<close>: tests of the components above, run at start-up. Log output, which changes no state
  that the code reads. Caching of translations and memory ordering: memory is sequentially consistent, and a table
  update is visible at once, which is what the flushes in the source bring about.
\<close>

end
